(* ===== verification/Prelude.thy ===== *)
theory Prelude
  imports Main "HOL-Library.Word" "HOL-Library.Extended_Nat"
begin

text \<open>
  Shared vocabulary of the development: the C types of a 64-bit platform as words, NULL, the
  outcome of a C call, the collections of rewrite rules the component theories extend, and the
  facts on words, cardinalities and extended naturals that several components use.
\<close>

section \<open>Types\<close>

text \<open>\<open>unsigned int\<close>, \<open>uint64_t\<close> and \<open>size_t\<close> (both supported platforms are LP64), and
  every pointer, object or function pointer alike.\<close>

type_synonym u32 = "32 word"
type_synonym u64 = "64 word"
type_synonym size_t = "64 word"
type_synonym ptr = "64 word"
type_synonym tid = nat

abbreviation NULL :: ptr where
  "NULL \<equiv> 0"

text \<open>
  The outcome of a C call made in a state: it returns with a new state and a value; it blocks, so
  that only another thread can resume it; or its behaviour is undefined (a NULL or freed block is
  dereferenced, a write leaves its block).
\<close>

datatype ('s, 'r) outcome = Returns 's 'r | Blocks | Undefined

fun returns :: "('s, 'r) outcome \<Rightarrow> bool" where
  "returns (Returns s r) = True"
| "returns _ = False"

fun bind_outcome :: "('s, 'r) outcome \<Rightarrow> ('s \<Rightarrow> 'r \<Rightarrow> ('t, 'q) outcome) \<Rightarrow> ('t, 'q) outcome" where
  "bind_outcome (Returns s r) k = k s r"
| "bind_outcome Blocks k = Blocks"
| "bind_outcome Undefined k = Undefined"

lemma bind_outcome_Returns [simp]:
  "bind_outcome m k = Returns t q \<longleftrightarrow> (\<exists>s r. m = Returns s r \<and> k s r = Returns t q)"
  by (cases m) auto

section \<open>Collections of rewrite rules\<close>

named_theorems section_defs \<open>definitions of critical sections\<close>
named_theorems errno_defs \<open>values of errno and of the library's error codes\<close>

section \<open>Generic facts\<close>

lemma unat_Suc_no_wrap: "unat (w :: 'a::len word) + 1 < 2 ^ LENGTH('a) \<Longrightarrow> unat (w + 1) = Suc (unat w)"
  by (simp add: unat_word_ariths)

lemma unat_minus_one_pos: "(w :: 'a::len word) \<noteq> 0 \<Longrightarrow> unat (w - 1) = unat w - 1"
  by (simp add: unat_minus_one)

lemma unat_plus_one_le: "unat ((w :: 'a::len word) + 1) \<le> Suc (unat w)"
  by (simp add: unat_word_ariths)

lemma unat_max32: "unat (- 1 :: u32) = 2 ^ 32 - 1"
  by transfer (simp add: mask_eq_exp_minus_1)

lemma unat_pos_iff: "0 < unat (w :: 'a::len word) \<longleftrightarrow> w \<noteq> 0"
  by (simp add: unat_gt_0)

lemma unat_bound64: "unat (w :: 64 word) < 2 ^ 64"
  using unsigned_less [of w] by simp

lemma unat_bound32: "unat (w :: 32 word) < 2 ^ 32"
  using unsigned_less [of w] by simp

lemma unat_of_nat_small: "n < 2 ^ 64 \<Longrightarrow> unat (word_of_nat n :: 64 word) = n"
  by (subst unat_of_nat) simp

text \<open>A list of distinct non-null pointers is shorter than \<open>2 ^ 64\<close>.\<close>

lemma distinct_pointers_bound:
  assumes "distinct xs" and "NULL \<notin> set xs"
  shows "length xs < 2 ^ 64"
proof -
  have "length xs = card (set xs)" using assms(1) by (simp add: distinct_card)
  also have "\<dots> < card (UNIV :: ptr set)"
    using assms(2) by (intro psubset_card_mono) auto
  also have "\<dots> = 2 ^ 64" by (simp add: card_word)
  finally show ?thesis .
qed

lemma card_remove_Suc: "finite A \<Longrightarrow> x \<in> A \<Longrightarrow> card A = Suc (card (A - {x}))"
  by (metis card_Suc_Diff1)

lemma enat_card_insert: "finite A \<Longrightarrow> x \<notin> A \<Longrightarrow> enat (card (insert x A)) = enat (card A) + 1"
  by (simp add: one_enat_def)

end
