(* ===== verification/Errors.thy ===== *)
theory Errors
  imports Prelude
begin

text \<open>
  Error codes: \<open>sthread_error_t\<close> of include/sthread.h, the errno values the library tells apart
  (from the C library's errno.h, which differs between the two supported platforms),
  \<open>map_pthread_error\<close> of sync.c and \<open>sthread_strerror\<close> of sthread.c.
\<close>

section \<open>Codes\<close>

datatype platform = MacOS | Linux

datatype sthread_error_t =
    STHREAD_SUCCESS | STHREAD_ERROR_NOMEM | STHREAD_ERROR_INVALID | STHREAD_ERROR_BUSY
  | STHREAD_ERROR_TIMEOUT | STHREAD_ERROR_DEADLOCK | STHREAD_ERROR_SHUTDOWN | STHREAD_ERROR_SYSTEM

primrec error_value :: "sthread_error_t \<Rightarrow> int" where
  "error_value STHREAD_SUCCESS = 0"
| "error_value STHREAD_ERROR_NOMEM = -1"
| "error_value STHREAD_ERROR_INVALID = -2"
| "error_value STHREAD_ERROR_BUSY = -3"
| "error_value STHREAD_ERROR_TIMEOUT = -4"
| "error_value STHREAD_ERROR_DEADLOCK = -5"
| "error_value STHREAD_ERROR_SHUTDOWN = -6"
| "error_value STHREAD_ERROR_SYSTEM = -7"

text \<open>The codes as the functions return them.\<close>

abbreviation "SUCCESS \<equiv> error_value STHREAD_SUCCESS"
abbreviation "ERROR_NOMEM \<equiv> error_value STHREAD_ERROR_NOMEM"
abbreviation "ERROR_INVALID \<equiv> error_value STHREAD_ERROR_INVALID"
abbreviation "ERROR_BUSY \<equiv> error_value STHREAD_ERROR_BUSY"
abbreviation "ERROR_TIMEOUT \<equiv> error_value STHREAD_ERROR_TIMEOUT"
abbreviation "ERROR_DEADLOCK \<equiv> error_value STHREAD_ERROR_DEADLOCK"
abbreviation "ERROR_SHUTDOWN \<equiv> error_value STHREAD_ERROR_SHUTDOWN"
abbreviation "ERROR_SYSTEM \<equiv> error_value STHREAD_ERROR_SYSTEM"

definition EPERM :: int where "EPERM = 1"
definition ENOMEM :: int where "ENOMEM = 12"
definition EBUSY :: int where "EBUSY = 16"
definition EINVAL :: int where "EINVAL = 22"

fun EAGAIN :: "platform \<Rightarrow> int" where
  "EAGAIN MacOS = 35" | "EAGAIN Linux = 11"

fun EDEADLK :: "platform \<Rightarrow> int" where
  "EDEADLK MacOS = 11" | "EDEADLK Linux = 35"

fun ETIMEDOUT :: "platform \<Rightarrow> int" where
  "ETIMEDOUT MacOS = 60" | "ETIMEDOUT Linux = 110"

lemmas [errno_defs] = EPERM_def ENOMEM_def EBUSY_def EINVAL_def

lemma errno_nonzero [simp]:
  "EPERM \<noteq> 0" "ENOMEM \<noteq> 0" "EBUSY \<noteq> 0" "EINVAL \<noteq> 0"
  "EAGAIN p \<noteq> 0" "EDEADLK p \<noteq> 0" "ETIMEDOUT p \<noteq> 0"
  by (cases p; simp add: errno_defs)+

section \<open>Translation of errno, texts\<close>

text \<open>sync.c defines its own copies of the codes (lines 10 to 15).\<close>

definition sync_codes :: "(sthread_error_t \<times> int) list" where
  "sync_codes =
     [(STHREAD_SUCCESS, 0), (STHREAD_ERROR_NOMEM, -1), (STHREAD_ERROR_INVALID, -2),
      (STHREAD_ERROR_BUSY, -3), (STHREAD_ERROR_TIMEOUT, -4), (STHREAD_ERROR_SYSTEM, -7)]"

definition map_pthread_error :: "platform \<Rightarrow> int \<Rightarrow> int" where
  "map_pthread_error p err =
     (if err = 0 then SUCCESS
      else if err = ENOMEM then ERROR_NOMEM
      else if err = EINVAL then ERROR_INVALID
      else if err = EBUSY then ERROR_BUSY
      else if err = ETIMEDOUT p then ERROR_TIMEOUT
      else ERROR_SYSTEM)"

definition sthread_strerror :: "int \<Rightarrow> string" where
  "sthread_strerror error =
     (if error = SUCCESS then ''Success''
      else if error = ERROR_NOMEM then ''Out of memory''
      else if error = ERROR_INVALID then ''Invalid argument''
      else if error = ERROR_BUSY then ''Resource busy''
      else if error = ERROR_TIMEOUT then ''Operation timed out''
      else if error = ERROR_DEADLOCK then ''Potential deadlock detected''
      else if error = ERROR_SHUTDOWN then ''Pool is shutting down''
      else if error = ERROR_SYSTEM then ''System call failed''
      else ''Unknown error'')"

definition sthread_version :: string where
  "sthread_version = ''1.0.0''"

lemma map_pthread_error_success [simp]: "map_pthread_error p err = 0 \<longleftrightarrow> err = 0"
  by (simp add: map_pthread_error_def)

lemma map_pthread_error_codes [simp]:
  "map_pthread_error p 0 = SUCCESS"
  "map_pthread_error p EBUSY = ERROR_BUSY"
  "map_pthread_error p EPERM = ERROR_SYSTEM"
  "map_pthread_error p ENOMEM = ERROR_NOMEM"
  "map_pthread_error p EINVAL = ERROR_INVALID"
  "map_pthread_error p (EDEADLK p) = ERROR_SYSTEM"
  "map_pthread_error p (EAGAIN p) = ERROR_SYSTEM"
  "map_pthread_error p (ETIMEDOUT p) = ERROR_TIMEOUT"
  by (cases p; simp add: map_pthread_error_def errno_defs)+

lemma map_pthread_error_0 [simp]: "map_pthread_error p e = 0 \<longleftrightarrow> e = 0"
  by (simp add: map_pthread_error_def)

lemma error_value_inject [simp]: "error_value e = error_value e' \<longleftrightarrow> e = e'"
  by (cases e; cases e'; simp)

text \<open>
  The translation of errno is onto the six codes sync.c knows, keeps success apart from
  failure, and agrees with the public enumeration of sthread.h; in particular no errno at all,
  EDEADLK included, becomes STHREAD_ERROR_DEADLOCK.
\<close>

lemma map_pthread_error_range:
  "map_pthread_error p err \<in> snd ` set sync_codes \<and>
   (map_pthread_error p err = SUCCESS \<longleftrightarrow> err = 0) \<and>
   (\<forall>err'. map_pthread_error p err' \<noteq> ERROR_DEADLOCK) \<and>
   list_all (\<lambda>(e, v). error_value e = v) sync_codes"
  by (simp add: map_pthread_error_def sync_codes_def)

text \<open>
  \<open>sthread_strerror\<close> gives the eight public codes eight different texts, and every other
  number the text of an unknown error, which no public code has.
\<close>

lemma sthread_strerror_injective:
  "inj (\<lambda>e. sthread_strerror (error_value e)) \<and>
   (sthread_strerror n = ''Unknown error'' \<longleftrightarrow> n \<notin> range error_value)"
proof
  show "inj (\<lambda>e. sthread_strerror (error_value e))"
  proof (rule injI)
    fix e e' assume "sthread_strerror (error_value e) = sthread_strerror (error_value e')"
    then show "e = e'" by (cases e; cases e'; simp add: sthread_strerror_def)
  qed
  have "n \<in> range error_value \<longleftrightarrow> n \<in> {0, -1, -2, -3, -4, -5, -6, -7}"
  proof
    assume "n \<in> range error_value"
    then obtain e where "n = error_value e" by blast
    then show "n \<in> {0, -1, -2, -3, -4, -5, -6, -7}" by (cases e) auto
  next
    assume "n \<in> {0, -1, -2, -3, -4, -5, -6, -7}"
    then show "n \<in> range error_value" by (auto simp: image_iff) (metis error_value.simps)+
  qed
  then show "sthread_strerror n = ''Unknown error'' \<longleftrightarrow> n \<notin> range error_value"
    by (auto simp: sthread_strerror_def)
qed

end
