(* ===== verification/Platform.thy ===== *)
theory Platform
  imports Errors
begin

text \<open>
  The platform layer, platform.h and platform.c, in both its variants. What the operating system
  answers is an argument: the results of sysconf, sysctlbyname, the clocks, mmap and mprotect.
  \<open>maps\<close> is the process's set of mappings, each with its length and the length of the prefix that
  mprotect has closed.
\<close>

section \<open>Host facts\<close>

definition platform_get_name :: "platform \<Rightarrow> string" where
  "platform_get_name p = (case p of MacOS \<Rightarrow> ''macOS'' | Linux \<Rightarrow> ''Linux'')"

definition platform_init :: int where
  "platform_init = 0"

text \<open>\<open>sysctl_ret\<close> and \<open>count\<close>: result and output of sysctlbyname (macOS); \<open>cores\<close>: sysconf (Linux).\<close>

definition platform_get_num_cores :: "platform \<Rightarrow> int \<Rightarrow> int \<Rightarrow> int \<Rightarrow> size_t" where
  "platform_get_num_cores p sysctl_ret count cores =
     (case p of
        MacOS \<Rightarrow> if sysctl_ret = 0 then word_of_int count else 1
      | Linux \<Rightarrow> if 0 < cores then word_of_int cores else 1)"

section \<open>Clocks\<close>

record timespec =
  tv_sec :: int
  tv_nsec :: int

text \<open>\<open>ticks\<close>, \<open>numer\<close>, \<open>denom\<close>: mach_absolute_time and the timebase (macOS); \<open>now\<close>: CLOCK_MONOTONIC.\<close>

definition platform_get_time_ns :: "platform \<Rightarrow> u64 \<Rightarrow> u32 \<Rightarrow> u32 \<Rightarrow> timespec \<Rightarrow> u64" where
  "platform_get_time_ns p ticks numer denom now =
     (case p of
        MacOS \<Rightarrow> (ticks * ucast numer) div ucast denom
      | Linux \<Rightarrow> word_of_int (tv_sec now) * 1000000000 + word_of_int (tv_nsec now))"

text \<open>
  The absolute deadline of a timed wait. On macOS \<open>now\<close> comes from gettimeofday and its second
  field holds microseconds. The product with 1000000 is computed in \<open>unsigned int\<close>.
\<close>

definition carry_nsec :: "timespec \<Rightarrow> timespec" where
  "carry_nsec ts =
     (if 1000000000 \<le> tv_nsec ts
      then \<lparr>tv_sec = tv_sec ts + 1, tv_nsec = tv_nsec ts - 1000000000\<rparr>
      else ts)"

definition platform_get_abstime :: "platform \<Rightarrow> timespec \<Rightarrow> u32 \<Rightarrow> timespec" where
  "platform_get_abstime p now timeout_ms =
     (let sec = tv_sec now + uint (timeout_ms div 1000);
          ns = uint ((timeout_ms mod 1000) * 1000000)
      in case p of
           MacOS \<Rightarrow> carry_nsec \<lparr>tv_sec = sec, tv_nsec = tv_nsec now * 1000 + ns\<rparr>
         | Linux \<Rightarrow> carry_nsec \<lparr>tv_sec = sec, tv_nsec = tv_nsec now + ns\<rparr>)"

text \<open>What the clock reads, in nanoseconds.\<close>

definition clock_ns :: "platform \<Rightarrow> timespec \<Rightarrow> int" where
  "clock_ns p now = (case p of
     MacOS \<Rightarrow> tv_sec now * 1000000000 + tv_nsec now * 1000
   | Linux \<Rightarrow> tv_sec now * 1000000000 + tv_nsec now)"

definition valid_clock :: "platform \<Rightarrow> timespec \<Rightarrow> bool" where
  "valid_clock p now \<longleftrightarrow> 0 \<le> tv_nsec now \<and>
     tv_nsec now < (case p of MacOS \<Rightarrow> 1000000 | Linux \<Rightarrow> 1000000000)"

lemma ms_no_overflow: "uint (((t :: u32) mod 1000) * 1000000) = uint t mod 1000 * 1000000"
proof -
  have m: "uint (t mod 1000) = uint t mod 1000" by (simp add: uint_mod)
  have "uint t mod 1000 * 1000000 < 2 ^ 32" using pos_mod_bound [of 1000 "uint t"] by simp
  then show ?thesis by (simp add: uint_word_ariths m)
qed

lemma abstime_exact:
  assumes "valid_clock p now"
  shows "tv_sec (platform_get_abstime p now t) * 1000000000 + tv_nsec (platform_get_abstime p now t) =
           clock_ns p now + uint t * 1000000 \<and>
         0 \<le> tv_nsec (platform_get_abstime p now t) \<and>
         tv_nsec (platform_get_abstime p now t) < 1000000000"
proof -
  have b: "0 \<le> uint t mod 1000" "uint t mod 1000 < 1000" by simp_all
  have d: "uint (t div 1000) = uint t div 1000" by (simp add: uint_div)
  have e: "uint t = uint t div 1000 * 1000 + uint t mod 1000" by simp
  have s: "uint t mod 1000 * 1000000 + uint t div 1000 * 1000000000 = uint t * 1000000"
    using e by linarith
  from assms b s show ?thesis
    unfolding platform_get_abstime_def carry_nsec_def clock_ns_def valid_clock_def Let_def
      ms_no_overflow d
    by (cases p) (auto simp: algebra_simps)
qed

text \<open>
  The deadline of a timed wait is a normalised time (its nanoseconds are below one second)
  exactly \<open>timeout_ms\<close> milliseconds after the clock's reading, on both platforms and for every
  32-bit timeout.
\<close>

lemma platform_get_abstime_exact:
  assumes "valid_clock p now"
  shows "tv_sec (platform_get_abstime p now t) * 1000000000 + tv_nsec (platform_get_abstime p now t) =
           clock_ns p now + uint t * 1000000 \<and>
         0 \<le> tv_nsec (platform_get_abstime p now t) \<and>
         tv_nsec (platform_get_abstime p now t) < 1000000000"
  by (rule abstime_exact [OF assms])

lemma platform_get_abstime_exact_witness:
  "platform_get_abstime Linux \<lparr>tv_sec = 10, tv_nsec = 999999999\<rparr> 1500 = \<lparr>tv_sec = 12, tv_nsec = 499999999\<rparr> \<and>
   tv_nsec (platform_get_abstime Linux \<lparr>tv_sec = 10, tv_nsec = 999999999\<rparr> 1500) < 1000000000"
  using platform_get_abstime_exact [of Linux "\<lparr>tv_sec = 10, tv_nsec = 999999999\<rparr>" 1500]
  by (simp add: valid_clock_def platform_get_abstime_def carry_nsec_def Let_def)

lemma platform_get_num_cores_Linux: "0 < cores \<Longrightarrow> cores < 2 ^ 63 \<Longrightarrow>
   platform_get_num_cores Linux r c cores = word_of_int cores \<and> unat (word_of_int cores :: size_t) = nat cores"
  by (simp add: platform_get_num_cores_def unat_eq_nat_uint uint_word_of_int_eq take_bit_int_eq_self)

section \<open>Guarded memory\<close>

record mapping =
  map_len :: size_t
  guard_len :: size_t

definition MAP_FAILED :: ptr where
  "MAP_FAILED = -1"

text \<open>
  \<open>munmap\<close> of exactly one mapping; other uses of it do not occur in the library and are left
  undefined.
\<close>

definition munmap :: "ptr \<Rightarrow> size_t \<Rightarrow> (ptr \<Rightarrow> mapping option) \<Rightarrow> (ptr \<Rightarrow> mapping option, int) outcome" where
  "munmap addr len maps =
     (case maps addr of
        None \<Rightarrow> Undefined
      | Some m \<Rightarrow> if map_len m = len then Returns (maps(addr := None)) 0 else Undefined)"

text \<open>The result is the usable address and the total size, or None for NULL.\<close>

definition platform_alloc_with_guard ::
  "size_t \<Rightarrow> ptr \<Rightarrow> int \<Rightarrow> size_t \<Rightarrow> (ptr \<Rightarrow> mapping option) \<Rightarrow>
   (ptr \<Rightarrow> mapping option, (ptr \<times> size_t) option) outcome" where
  "platform_alloc_with_guard page_size mem mprotect_ret sz maps =
     (let total_size = sz + page_size in
      if mem = MAP_FAILED then Returns maps None
      else
        let maps1 = maps(mem \<mapsto> \<lparr>map_len = total_size, guard_len = 0\<rparr>) in
        if mprotect_ret \<noteq> 0 then
          bind_outcome (munmap mem total_size maps1) (\<lambda>maps2 _. Returns maps2 None)
        else
          Returns (maps1(mem \<mapsto> \<lparr>map_len = total_size, guard_len = page_size\<rparr>))
            (Some (mem + page_size, total_size)))"

definition platform_free_with_guard ::
  "size_t \<Rightarrow> ptr \<Rightarrow> size_t \<Rightarrow> (ptr \<Rightarrow> mapping option) \<Rightarrow> (ptr \<Rightarrow> mapping option, unit) outcome" where
  "platform_free_with_guard page_size p total_size maps =
     (if p \<noteq> NULL then bind_outcome (munmap (p - page_size) total_size maps) (\<lambda>maps1 _. Returns maps1 ())
      else Returns maps ())"

lemma alloc_with_guard_cases:
  "maps mem = None \<Longrightarrow>
   platform_alloc_with_guard page mem mp sz maps =
     (if mem = MAP_FAILED \<or> mp \<noteq> 0 then Returns maps None
      else Returns (maps(mem \<mapsto> \<lparr>map_len = sz + page, guard_len = page\<rparr>))
             (Some (mem + page, sz + page)))"
  by (auto simp: platform_alloc_with_guard_def munmap_def Let_def fun_upd_idem)

end
