(* ===== verification/Memory.thy ===== *)
theory Memory
  imports Platform
begin

text \<open>
  memory.c, first half: guarded stacks (\<open>stack_alloc_*\<close>) over the mappings of \<open>Platform\<close>, and the
  rounding the whole file uses. The answers of mmap and mprotect are arguments.
\<close>

unbundle bit_operations_syntax

section \<open>Rounding up to a multiple of a power of two\<close>

definition align_up :: "size_t \<Rightarrow> size_t \<Rightarrow> size_t" where
  "align_up sz a = (sz + a - 1) AND NOT (a - 1)"

lemma and_not_mask: "w AND NOT (mask k) = w - take_bit k (w :: size_t)"
  by (subst disjunctive_diff_eq_and_not) (auto simp: bit_simps intro!: bit_eqI)

lemma unat_and_not_mask: "unat (w AND NOT (mask k)) = unat (w :: size_t) - unat w mod 2 ^ k"
proof -
  have t: "unat (take_bit k w) = unat w mod 2 ^ k"
    unfolding unsigned_take_bit_eq by (simp add: take_bit_eq_mod)
  then have "take_bit k w \<le> w" by (simp add: word_le_nat_alt)
  then show ?thesis unfolding and_not_mask by (simp only: unat_sub t)
qed

lemma unat_exp: "k < 64 \<Longrightarrow> unat ((2 :: size_t) ^ k) = 2 ^ k"
proof -
  assume "k < 64"
  then have "(2 :: nat) ^ k < 2 ^ 64" by (intro power_strict_increasing) auto
  then have "unat (word_of_nat (2 ^ k) :: size_t) = 2 ^ k" by (rule unat_of_nat_small)
  then show ?thesis by simp
qed

lemma align_up:
  assumes "a = 2 ^ k" "k < 64" "unat sz + unat a \<le> 2 ^ 64"
  shows "unat sz \<le> unat (align_up sz a)" "unat (align_up sz a) < unat sz + unat a"
    "unat a dvd unat (align_up sz a)"
proof -
  have a: "unat a = 2 ^ k" using assms(1,2) by (simp only: unat_exp)
  have m: "a - 1 = mask k" using assms(1) by (simp add: mask_eq_exp_minus_1)
  have "a \<noteq> 0" using a by auto
  then have a1: "unat (a - 1) = unat a - 1" by (simp add: unat_minus_one)
  then have "unat sz + unat (a - 1) < 2 ^ 64" using assms(3) a by simp
  then have s: "unat (sz + (a - 1)) = unat sz + (unat a - 1)"
    using a1 by (simp add: unat_word_ariths)
  have e: "sz + a - 1 = sz + (a - 1)" by simp
  let ?x = "unat sz + (unat a - 1)"
  have r: "unat (align_up sz a) = ?x - ?x mod 2 ^ k"
    unfolding align_up_def e m unat_and_not_mask using s unfolding m by simp
  define q where "q = ?x mod 2 ^ k"
  have q: "q < unat a" unfolding q_def using a by simp
  from r q show "unat sz \<le> unat (align_up sz a)" unfolding q_def [symmetric] by arith
  from r q show "unat (align_up sz a) < unat sz + unat a" unfolding q_def [symmetric] by arith
  show "unat a dvd unat (align_up sz a)" using dvd_minus_mod [of "2 ^ k" ?x] unfolding r a by simp
qed

section \<open>Guarded stacks\<close>

definition STACK_DEFAULT_SIZE :: size_t where "STACK_DEFAULT_SIZE = 65536"
definition STACK_MIN_SIZE :: size_t where "STACK_MIN_SIZE = 4096"
definition STACK_MAX_SIZE :: size_t where "STACK_MAX_SIZE = 8388608"

record stack_alloc =
  sa_base :: ptr
  sa_stack_top :: ptr
  sa_stack_size :: size_t
  sa_total_size :: size_t
  sa_has_guard :: bool

text \<open>\<open>memset(alloc, 0, ...)\<close>\<close>

definition zero_stack_alloc :: stack_alloc where
  "zero_stack_alloc = \<lparr>sa_base = NULL, sa_stack_top = NULL, sa_stack_size = 0, sa_total_size = 0,
     sa_has_guard = False\<rparr>"

definition clamp_stack_size :: "size_t \<Rightarrow> size_t" where
  "clamp_stack_size sz =
     (if sz = 0 then STACK_DEFAULT_SIZE
      else if sz < STACK_MIN_SIZE then STACK_MIN_SIZE
      else if sz > STACK_MAX_SIZE then STACK_MAX_SIZE
      else sz)"

text \<open>
  The state is the structure \<open>alloc\<close> points to and the process's mappings; \<open>mem\<close> and
  \<open>mprotect_ret\<close> are the answers of mmap and mprotect.
\<close>

type_synonym stack_state = "stack_alloc \<times> (ptr \<Rightarrow> mapping option)"

definition stack_alloc_create ::
  "size_t \<Rightarrow> ptr \<Rightarrow> int \<Rightarrow> ptr \<Rightarrow> size_t \<Rightarrow> stack_state \<Rightarrow> (stack_state, int) outcome" where
  "stack_alloc_create page_size mem mprotect_ret alloc sz st =
     (if alloc = NULL then Returns st (-1)
      else
        let sz = align_up (clamp_stack_size sz) page_size in
        bind_outcome (platform_alloc_with_guard page_size mem mprotect_ret sz (snd st))
          (\<lambda>maps res. case res of
             None \<Rightarrow> Returns (zero_stack_alloc, maps) (-1)
           | Some (stack, total_size) \<Rightarrow>
               if stack = NULL then Returns (zero_stack_alloc, maps) (-1)
               else Returns
                 (\<lparr>sa_base = stack - page_size, sa_stack_top = stack + sz, sa_stack_size = sz,
                   sa_total_size = total_size, sa_has_guard = True\<rparr>, maps) 0))"

definition stack_alloc_destroy ::
  "size_t \<Rightarrow> ptr \<Rightarrow> stack_state \<Rightarrow> (stack_state, unit) outcome" where
  "stack_alloc_destroy page_size alloc st =
     (if alloc = NULL \<or> sa_base (fst st) = NULL then Returns st ()
      else bind_outcome
        (platform_free_with_guard page_size (sa_base (fst st) + page_size)
           (sa_total_size (fst st)) (snd st))
        (\<lambda>maps _. Returns (zero_stack_alloc, maps) ()))"

lemma clamp_stack_size_bounds:
  "unat (clamp_stack_size sz) \<le> 8388608 \<and> 4096 \<le> unat (clamp_stack_size sz)"
  by (auto simp: clamp_stack_size_def STACK_DEFAULT_SIZE_def STACK_MIN_SIZE_def STACK_MAX_SIZE_def
      word_less_nat_alt)

text \<open>
  What mmap is relied on for: it does not return a live mapping or NULL, and the mapping it returns
  does not wrap around the address space; \<open>page_size\<close> is a power of two.
\<close>

definition mmap_ok :: "size_t \<Rightarrow> nat \<Rightarrow> ptr \<Rightarrow> size_t \<Rightarrow> (ptr \<Rightarrow> mapping option) \<Rightarrow> bool" where
  "mmap_ok page_size k mem sz maps \<longleftrightarrow> page_size = 2 ^ k \<and> k \<le> 30 \<and> maps mem = None \<and> mem \<noteq> NULL \<and>
     mem \<noteq> MAP_FAILED \<and>
     unat mem + unat page_size + unat (align_up (clamp_stack_size sz) page_size) < 2 ^ 64"


lemma align_up_stack:
  assumes "page_size = 2 ^ k" and "k \<le> 30"
  shows "unat (clamp_stack_size sz) \<le> unat (align_up (clamp_stack_size sz) page_size)"
    and "unat (align_up (clamp_stack_size sz) page_size) < unat (clamp_stack_size sz) + unat page_size"
    and "unat page_size dvd unat (align_up (clamp_stack_size sz) page_size)"
proof -
  have "(2 :: nat) ^ k \<le> 2 ^ 30" using assms(2) by (rule power_increasing) simp
  moreover have "unat page_size = 2 ^ k" using assms by (simp only: unat_exp)
  ultimately have "unat (clamp_stack_size sz) + unat page_size \<le> 2 ^ 64"
    using clamp_stack_size_bounds [of sz] by simp
  from align_up [OF assms(1) _ this] assms(2)
  show "unat (clamp_stack_size sz) \<le> unat (align_up (clamp_stack_size sz) page_size)"
    and "unat (align_up (clamp_stack_size sz) page_size) < unat (clamp_stack_size sz) + unat page_size"
    and "unat page_size dvd unat (align_up (clamp_stack_size sz) page_size)" by simp_all
qed

lemma mmap_ok_page: "mmap_ok page_size k mem sz maps \<Longrightarrow> mem + page_size \<noteq> NULL"
proof -
  assume ok: "mmap_ok page_size k mem sz maps"
  then have "unat mem + unat page_size < 2 ^ 64" unfolding mmap_ok_def by linarith
  then have "unat (mem + page_size) = unat mem + unat page_size" by (simp add: unat_word_ariths)
  moreover have "unat mem > 0" using ok by (simp add: mmap_ok_def unat_gt_0)
  ultimately show ?thesis by (metis add_gr_0 less_irrefl unat_0)
qed

lemma stack_alloc_create_ok:
  assumes "mmap_ok page_size k mem sz maps" and "alloc \<noteq> NULL"
  shows "stack_alloc_create page_size mem mp alloc sz (a, maps) =
    (let n = align_up (clamp_stack_size sz) page_size in
     if mp \<noteq> 0 then Returns (zero_stack_alloc, maps) (-1)
     else Returns
       (\<lparr>sa_base = mem, sa_stack_top = mem + page_size + n, sa_stack_size = n,
         sa_total_size = n + page_size, sa_has_guard = True\<rparr>,
        maps(mem \<mapsto> \<lparr>map_len = n + page_size, guard_len = page_size\<rparr>)) 0)"
proof -
  have "maps mem = None" "mem \<noteq> MAP_FAILED" using assms(1) by (auto simp: mmap_ok_def)
  moreover note mmap_ok_page [OF assms(1)] assms(2)
  ultimately show ?thesis
    by (simp add: stack_alloc_create_def alloc_with_guard_cases Let_def)
qed

text \<open>
  C40. A stack that \<open>stack_alloc_create\<close> returns has a size that is a positive multiple of the page
  size, at least the requested size clamped to [4 KiB, 8 MiB] (64 KiB for 0) and less than a page
  above it; it ends where its mapping ends, and the guard page, closed by mprotect, lies directly
  below it. Nothing in these computations wraps around.
\<close>

theorem stack_alloc_create_layout:
  assumes "mmap_ok page_size k mem sz maps" and "alloc \<noteq> NULL"
    and "stack_alloc_create page_size mem mp alloc sz (a, maps) = Returns (a', maps') 0"
  shows "unat page_size dvd unat (sa_stack_size a') \<and>
    unat (clamp_stack_size sz) \<le> unat (sa_stack_size a') \<and>
    unat (sa_stack_size a') < unat (clamp_stack_size sz) + unat page_size \<and>
    unat (sa_stack_top a') = unat (sa_base a') + unat page_size + unat (sa_stack_size a') \<and>
    unat (sa_total_size a') = unat page_size + unat (sa_stack_size a') \<and>
    maps' (sa_base a') = Some \<lparr>map_len = sa_total_size a', guard_len = page_size\<rparr>"
proof -
  let ?n = "align_up (clamp_stack_size sz) page_size"
  have p: "page_size = 2 ^ k" "k \<le> 30" and w: "unat mem + unat page_size + unat ?n < 2 ^ 64"
    using assms(1) by (auto simp: mmap_ok_def)
  have a': "a' = \<lparr>sa_base = mem, sa_stack_top = mem + page_size + ?n, sa_stack_size = ?n,
      sa_total_size = ?n + page_size, sa_has_guard = True\<rparr>"
    and m': "maps' = maps(mem \<mapsto> \<lparr>map_len = ?n + page_size, guard_len = page_size\<rparr>)"
    using assms(3) stack_alloc_create_ok [OF assms(1,2)] by (auto simp: Let_def split: if_splits)
  have "unat (mem + page_size + ?n) = unat mem + unat page_size + unat ?n"
    "unat (?n + page_size) = unat page_size + unat ?n"
    using w by (simp_all add: unat_word_ariths)
  with align_up_stack [OF p] show ?thesis by (simp add: a' m')
qed

definition example_maps :: "ptr \<Rightarrow> mapping option" where
  "example_maps = (\<lambda>_. None)"

lemma mmap_ok_example: "mmap_ok 4096 12 65536 5000 example_maps"
  by (simp add: mmap_ok_def example_maps_def MAP_FAILED_def align_up_def clamp_stack_size_def
      STACK_MIN_SIZE_def STACK_MAX_SIZE_def)

lemma stack_alloc_create_layout_witness:
  "\<exists>a' maps'. stack_alloc_create 4096 65536 0 1 5000 (zero_stack_alloc, example_maps) =
     Returns (a', maps') 0 \<and> sa_stack_size a' = 8192 \<and> unat (sa_stack_top a') = 65536 + 4096 + 8192"
proof -
  obtain a' maps' where r: "stack_alloc_create 4096 65536 0 1 5000 (zero_stack_alloc, example_maps) =
      Returns (a', maps') 0" and n: "sa_stack_size a' = 8192" "sa_base a' = 65536"
    by (simp add: stack_alloc_create_ok [OF mmap_ok_example] Let_def align_up_def
        clamp_stack_size_def STACK_MIN_SIZE_def STACK_MAX_SIZE_def)
  from stack_alloc_create_layout [OF mmap_ok_example _ r] n
  have "unat (sa_stack_top a') = 65536 + 4096 + 8192" by simp
  with r n show ?thesis by blast
qed

text \<open>
  Destroying a stack right after creating it, whether or not creation succeeded, leaves exactly
  the mappings there were before and a structure that a second destroy ignores: nothing is leaked
  or unmapped twice, and \<open>munmap\<close> gets the whole mapping.
\<close>

lemma stack_alloc_roundtrip:
  assumes "mmap_ok page_size k mem sz maps" and "alloc \<noteq> NULL"
  shows "bind_outcome (stack_alloc_create page_size mem mp alloc sz (a, maps))
      (\<lambda>st _. stack_alloc_destroy page_size alloc st) = Returns (zero_stack_alloc, maps) () \<and>
    stack_alloc_destroy page_size alloc (zero_stack_alloc, maps) = Returns (zero_stack_alloc, maps) ()"
proof -
  have m: "maps mem = None" "mem \<noteq> NULL" using assms(1) by (auto simp: mmap_ok_def)
  have d: "stack_alloc_destroy page_size alloc (zero_stack_alloc, maps) =
      Returns (zero_stack_alloc, maps) ()"
    by (simp add: stack_alloc_destroy_def zero_stack_alloc_def)
  moreover have "maps(mem := None) = maps" using m by (simp add: fun_upd_idem)
  ultimately show ?thesis using m assms(2) mmap_ok_page [OF assms(1)]
    by (simp add: stack_alloc_create_ok [OF assms] Let_def stack_alloc_destroy_def
        platform_free_with_guard_def munmap_def)
qed

lemma stack_alloc_roundtrip_witness:
  "bind_outcome (stack_alloc_create 4096 65536 0 1 5000 (zero_stack_alloc, example_maps))
     (\<lambda>st _. stack_alloc_destroy 4096 1 st) = Returns (zero_stack_alloc, example_maps) ()"
  using stack_alloc_roundtrip [OF mmap_ok_example, of 1 0 zero_stack_alloc] by simp

end
