(* ===== verification/Heap_List.thy ===== *)
theory Heap_List
  imports Prelude
begin

text \<open>
  Singly linked lists in the C heap. \<open>chain nx p xs\<close> says that following the \<open>next\<close> fields
  \<open>nx\<close> from \<open>p\<close> visits exactly the blocks \<open>xs\<close>, in this order, and then NULL; \<open>nx x = None\<close>
  means that \<open>x\<close> is not a live block. The task queue (\<open>task_node_t.next\<close>) and the free list of
  the memory pool (\<open>pool_node_t.next\<close>) are both such chains.
\<close>

fun chain :: "(ptr \<Rightarrow> ptr option) \<Rightarrow> ptr \<Rightarrow> ptr list \<Rightarrow> bool" where
  "chain nx p [] \<longleftrightarrow> p = NULL"
| "chain nx p (x # xs) \<longleftrightarrow> p = x \<and> x \<noteq> NULL \<and>
     (case nx x of None \<Rightarrow> False | Some q \<Rightarrow> chain nx q xs)"

text \<open>The same equation without a \<open>case\<close>: the form the simplifier uses from here on.\<close>

lemma chain_Cons [simp]:
  "chain nx p (x # xs) \<longleftrightarrow> p = x \<and> x \<noteq> NULL \<and> (\<exists>q. nx x = Some q \<and> chain nx q xs)"
  by (auto split: option.splits)

declare chain.simps(2) [simp del]

lemma chain_NULL [simp]: "chain nx NULL xs \<longleftrightarrow> xs = []"
  by (cases xs) auto

lemma chain_no_NULL: "chain nx p xs \<Longrightarrow> NULL \<notin> set xs"
  by (induction xs arbitrary: p) auto

lemma chain_live: "chain nx p xs \<Longrightarrow> x \<in> set xs \<Longrightarrow> nx x \<noteq> None"
  by (induction xs arbitrary: p) auto

lemma chain_unfold:
  assumes "p \<noteq> NULL"
  shows "chain nx p xs \<longleftrightarrow> (\<exists>q ys. xs = p # ys \<and> nx p = Some q \<and> chain nx q ys)"
  using assms by (cases xs) auto

text \<open>Writing a block outside the list leaves the list alone.\<close>

lemma chain_update [simp]: "a \<notin> set xs \<Longrightarrow> chain (nx(a := v)) p xs = chain nx p xs"
  by (induction xs arbitrary: p) auto

lemma chain_unique: "chain nx p xs \<Longrightarrow> chain nx p ys \<Longrightarrow> xs = ys"
proof (induction xs arbitrary: p ys)
  case Nil
  then show ?case by simp
next
  case (Cons x xs)
  then show ?case by (cases ys) auto
qed

lemma chain_append:
  "chain nx p (xs @ x # ys) \<Longrightarrow> chain nx x (x # ys)"
  by (induction xs arbitrary: p) auto

text \<open>A list that ends in NULL cannot revisit a block.\<close>

lemma chain_distinct: "chain nx p xs \<Longrightarrow> distinct xs"
proof (induction xs arbitrary: p)
  case Nil
  then show ?case by simp
next
  case (Cons x xs)
  then obtain q where q: "nx x = Some q" "chain nx q xs" "x \<noteq> NULL"
    by auto
  have "x \<notin> set xs"
  proof
    assume "x \<in> set xs"
    then obtain ys zs where "xs = ys @ x # zs" by (auto simp: in_set_conv_decomp)
    with q(2) have "chain nx x (x # zs)" by (blast intro: chain_append)
    moreover have "chain nx x (x # xs)" using q by simp
    ultimately have "zs = xs" by (auto dest: chain_unique)
    with \<open>xs = ys @ x # zs\<close> show False by simp
  qed
  with q Cons.IH show ?case by auto
qed

lemma chain_length: "chain nx p xs \<Longrightarrow> length xs < 2 ^ 64"
  by (blast intro: distinct_pointers_bound dest: chain_distinct chain_no_NULL)

text \<open>Linking a new last block behind the old one.\<close>

lemma chain_snoc:
  "chain nx p xs \<Longrightarrow> xs \<noteq> [] \<Longrightarrow> a \<notin> set xs \<Longrightarrow> a \<noteq> NULL \<Longrightarrow>
   chain (nx(a \<mapsto> NULL, last xs \<mapsto> a)) p (xs @ [a])"
proof (induction xs arbitrary: p)
  case Nil
  then show ?case by simp
next
  case (Cons x xs)
  then have x: "p = x" "x \<noteq> NULL" "x \<notin> set xs" "x \<noteq> a"
    using chain_distinct [OF Cons.prems(1)] by auto
  from Cons.prems(1) obtain q where q: "nx x = Some q" "chain nx q xs"
    by auto
  show ?case
  proof (cases "xs = []")
    case True
    with x Cons.prems show ?thesis by simp
  next
    case False
    have "chain (nx(a \<mapsto> NULL, last xs \<mapsto> a)) q (xs @ [a])"
      using False Cons.prems by (intro Cons.IH [OF q(2)]) auto
    moreover have "last xs \<noteq> x" using False x(3) last_in_set by metis
    ultimately show ?thesis using q x False by (simp add: fun_upd_def)
  qed
qed

end
