(* ===== verification/Monitor.thy ===== *)
theory Monitor
  imports Prelude
begin

text \<open>
  The locking idiom of the library. Every function that touches shared data has the same shape:

  \<^verbatim>\<open>
    pthread_mutex_lock(&x->lock);
    if (...) { pthread_mutex_unlock(&x->lock); return r; }      (entry check)
    while (...) pthread_cond_wait(&x->cond, &x->lock);          (guard)
    if (...) { pthread_mutex_unlock(&x->lock); return r; }      (leave check)
    ...                                                         (body)
    pthread_cond_signal / pthread_cond_broadcast                (notify)
    pthread_mutex_unlock(&x->lock);
    return r;
  \<close>

  with some parts empty. A component gives the parts of each of its functions as a \<open>crit\<close>; this
  theory gives the POSIX meaning of the skeleton, once: \<open>run_section\<close> is a call that meets no
  contention, and \<open>mstep\<close> is the interleaved execution of any number of threads, with one rule per
  pthread call and per test of the skeleton, spurious wake-ups included. Statements between two
  pthread calls are one step; \<open>data_access_by_owner\<close> and \<open>mutual_exclusion\<close> say why: they run
  under the lock.
\<close>

section \<open>Critical sections\<close>

datatype 'c notice = Signal 'c | Broadcast 'c

text \<open>
  \<open>cs_guard d = Some c\<close> says that the loop condition holds in \<open>d\<close> and that the loop waits on the
  condition variable \<open>c\<close>. \<open>cs_body d = None\<close> says that the body's behaviour is undefined in \<open>d\<close>.
\<close>

record ('d, 'c, 'r) crit =
  cs_entry :: "'d \<Rightarrow> 'r option"
  cs_guard :: "'d \<Rightarrow> 'c option"
  cs_leave :: "'d \<Rightarrow> 'r option"
  cs_body :: "'d \<Rightarrow> ('d \<times> 'r) option"
  cs_notify :: "'d \<Rightarrow> 'c notice list"

text \<open>
  A monitor is a family of critical sections on the same data. \<open>claims op\<close> are the heap blocks a
  call brings along (a node it got from \<open>malloc\<close>), \<open>used d\<close> those that are part of the shared
  data: \<open>malloc\<close> never returns a block of either kind to a second caller.
\<close>

record ('op, 'd, 'c, 'r) monitor =
  sect :: "'op \<Rightarrow> ('d, 'c, 'r) crit"
  claims :: "'op \<Rightarrow> ptr set"
  used :: "'d \<Rightarrow> ptr set"

text \<open>A call that finds the lock free and meets no other thread.\<close>

definition run_section :: "('d, 'c, 'r) crit \<Rightarrow> 'd \<Rightarrow> ('d, 'r) outcome" where
  "run_section cs d =
     (case cs_entry cs d of Some r \<Rightarrow> Returns d r
      | None \<Rightarrow> (case cs_guard cs d of Some c \<Rightarrow> Blocks
      | None \<Rightarrow> (case cs_leave cs d of Some r \<Rightarrow> Returns d r
      | None \<Rightarrow> (case cs_body cs d of None \<Rightarrow> Undefined
      | Some (d', r) \<Rightarrow> Returns d' r))))"

text \<open>
  A C function checks its arguments before it locks: it returns at once (\<open>Inl\<close>) or enters a
  section (\<open>Inr\<close>).
\<close>

fun invoke :: "('op \<Rightarrow> ('d, 'c, 'r) crit) \<Rightarrow> 'r + 'op \<Rightarrow> 'd \<Rightarrow> ('d, 'r) outcome" where
  "invoke sec (Inl r) d = Returns d r"
| "invoke sec (Inr op) d = run_section (sec op) d"

section \<open>Interleaved execution\<close>

datatype ('op, 'c, 'r) mpc =
    Outside
  | Acquire 'op
  | Entered 'op
  | Testing 'op
  | Asleep 'op 'c
  | Woken 'op 'c
  | Acting 'op
  | Notifying 'op "'c notice list" 'r
  | Releasing 'op 'r
  | Returning 'op 'r
  | Crashed 'op

text \<open>\<open>mlog\<close> is a ghost: the calls that took effect, in the order they did, with their results.\<close>

record ('op, 'd, 'c, 'r) msys =
  mdata :: 'd
  owner :: "tid option"
  mpcs :: "tid \<Rightarrow> ('op, 'c, 'r) mpc"
  mlog :: "(tid \<times> 'op \<times> 'r) list"

fun wake :: "'c \<Rightarrow> ('op, 'c, 'r) mpc \<Rightarrow> ('op, 'c, 'r) mpc" where
  "wake c (Asleep op c') = (if c' = c then Woken op c' else Asleep op c')"
| "wake c p = p"

fun pending_op :: "('op, 'c, 'r) mpc \<Rightarrow> 'op option" where
  "pending_op (Acquire op) = Some op"
| "pending_op (Entered op) = Some op"
| "pending_op (Testing op) = Some op"
| "pending_op (Asleep op c) = Some op"
| "pending_op (Woken op c) = Some op"
| "pending_op (Acting op) = Some op"
| "pending_op p = None"

definition init_msys :: "'d \<Rightarrow> ('op, 'd, 'c, 'r) msys" where
  "init_msys d = \<lparr>mdata = d, owner = None, mpcs = (\<lambda>_. Outside), mlog = []\<rparr>"

definition m_call :: "tid \<Rightarrow> 'op \<Rightarrow> ('op, 'd, 'c, 'r) msys \<Rightarrow> ('op, 'd, 'c, 'r) msys" where
  "m_call t op s = s\<lparr>mpcs := (mpcs s)(t := Acquire op)\<rparr>"

definition m_return :: "tid \<Rightarrow> ('op, 'd, 'c, 'r) msys \<Rightarrow> ('op, 'd, 'c, 'r) msys" where
  "m_return t s = s\<lparr>mpcs := (mpcs s)(t := Outside)\<rparr>"

text \<open>A thread may call when it is outside and its claims are fresh.\<close>

definition can_call ::
  "('op, 'd, 'c, 'r) monitor \<Rightarrow> tid \<Rightarrow> 'op \<Rightarrow> ('op, 'd, 'c, 'r) msys \<Rightarrow> bool" where
  "can_call M t op s \<longleftrightarrow> mpcs s t = Outside \<and> claims M op \<inter> used M (mdata s) = {} \<and>
     (\<forall>u op'. pending_op (mpcs s u) = Some op' \<longrightarrow> claims M op \<inter> claims M op' = {})"

text \<open>\<open>mstep M t s s'\<close>: thread \<open>t\<close> makes one step inside its call.\<close>

inductive mstep ::
  "('op, 'd, 'c, 'r) monitor \<Rightarrow> tid \<Rightarrow> ('op, 'd, 'c, 'r) msys \<Rightarrow> ('op, 'd, 'c, 'r) msys \<Rightarrow> bool"
  for M t where
  lock: "mpcs s t = Acquire op \<Longrightarrow> owner s = None \<Longrightarrow>
    mstep M t s (s\<lparr>owner := Some t, mpcs := (mpcs s)(t := Entered op)\<rparr>)"
| entry_return: "mpcs s t = Entered op \<Longrightarrow> cs_entry (sect M op) (mdata s) = Some r \<Longrightarrow>
    mstep M t s (s\<lparr>mpcs := (mpcs s)(t := Releasing op r), mlog := mlog s @ [(t, op, r)]\<rparr>)"
| entry_pass: "mpcs s t = Entered op \<Longrightarrow> cs_entry (sect M op) (mdata s) = None \<Longrightarrow>
    mstep M t s (s\<lparr>mpcs := (mpcs s)(t := Testing op)\<rparr>)"
| sleep: "mpcs s t = Testing op \<Longrightarrow> cs_guard (sect M op) (mdata s) = Some c \<Longrightarrow>
    mstep M t s (s\<lparr>owner := None, mpcs := (mpcs s)(t := Asleep op c)\<rparr>)"
| pass: "mpcs s t = Testing op \<Longrightarrow> cs_guard (sect M op) (mdata s) = None \<Longrightarrow>
    mstep M t s (s\<lparr>mpcs := (mpcs s)(t := Acting op)\<rparr>)"
| spurious: "mpcs s t = Asleep op c \<Longrightarrow>
    mstep M t s (s\<lparr>mpcs := (mpcs s)(t := Woken op c)\<rparr>)"
| relock: "mpcs s t = Woken op c \<Longrightarrow> owner s = None \<Longrightarrow>
    mstep M t s (s\<lparr>owner := Some t, mpcs := (mpcs s)(t := Testing op)\<rparr>)"
| leave_return: "mpcs s t = Acting op \<Longrightarrow> cs_leave (sect M op) (mdata s) = Some r \<Longrightarrow>
    mstep M t s (s\<lparr>mpcs := (mpcs s)(t := Releasing op r), mlog := mlog s @ [(t, op, r)]\<rparr>)"
| act: "mpcs s t = Acting op \<Longrightarrow> cs_leave (sect M op) (mdata s) = None \<Longrightarrow>
    cs_body (sect M op) (mdata s) = Some (d', r) \<Longrightarrow>
    mstep M t s (s\<lparr>mdata := d',
      mpcs := (mpcs s)(t := Notifying op (cs_notify (sect M op) d') r),
      mlog := mlog s @ [(t, op, r)]\<rparr>)"
| crash: "mpcs s t = Acting op \<Longrightarrow> cs_leave (sect M op) (mdata s) = None \<Longrightarrow>
    cs_body (sect M op) (mdata s) = None \<Longrightarrow>
    mstep M t s (s\<lparr>mpcs := (mpcs s)(t := Crashed op)\<rparr>)"
| signal_wakes: "mpcs s t = Notifying op (Signal c # ns) r \<Longrightarrow> mpcs s w = Asleep op' c \<Longrightarrow>
    mstep M t s (s\<lparr>mpcs := (mpcs s)(t := Notifying op ns r, w := Woken op' c)\<rparr>)"
| signal_idle: "mpcs s t = Notifying op (Signal c # ns) r \<Longrightarrow>
    \<forall>w op'. mpcs s w \<noteq> Asleep op' c \<Longrightarrow>
    mstep M t s (s\<lparr>mpcs := (mpcs s)(t := Notifying op ns r)\<rparr>)"
| broadcast: "mpcs s t = Notifying op (Broadcast c # ns) r \<Longrightarrow>
    mstep M t s (s\<lparr>mpcs := (wake c \<circ> mpcs s)(t := Notifying op ns r)\<rparr>)"
| notified: "mpcs s t = Notifying op [] r \<Longrightarrow>
    mstep M t s (s\<lparr>mpcs := (mpcs s)(t := Releasing op r)\<rparr>)"
| unlock: "mpcs s t = Releasing op r \<Longrightarrow>
    mstep M t s (s\<lparr>owner := None, mpcs := (mpcs s)(t := Returning op r)\<rparr>)"

inductive mreach :: "('op, 'd, 'c, 'r) monitor \<Rightarrow> 'd \<Rightarrow> ('op, 'd, 'c, 'r) msys \<Rightarrow> bool"
  for M d0 where
  init: "mreach M d0 (init_msys d0)"
| inside: "mreach M d0 s \<Longrightarrow> mstep M t s s' \<Longrightarrow> mreach M d0 s'"
| call: "mreach M d0 s \<Longrightarrow> can_call M t op s \<Longrightarrow> mreach M d0 (m_call t op s)"
| return: "mreach M d0 s \<Longrightarrow> mpcs s t = Returning op r \<Longrightarrow> mreach M d0 (m_return t s)"


section \<open>Facts that hold for every monitor\<close>

text \<open>A thread holds the lock exactly while its program counter is between lock and unlock.\<close>

fun holding :: "('op, 'c, 'r) mpc \<Rightarrow> bool" where
  "holding (Entered op) = True"
| "holding (Testing op) = True"
| "holding (Acting op) = True"
| "holding (Notifying op ns r) = True"
| "holding (Releasing op r) = True"
| "holding (Crashed op) = True"
| "holding p = False"

lemma holding_wake [simp]: "holding (wake c p) = holding p"
  by (cases p) auto

lemma pending_op_wake [simp]: "pending_op (wake c p) = pending_op p"
  by (cases p) auto

lemma wake_eq [simp]:
  "wake c p = Outside \<longleftrightarrow> p = Outside"
  "wake c p = Acquire op \<longleftrightarrow> p = Acquire op"
  "wake c p = Entered op \<longleftrightarrow> p = Entered op"
  "wake c p = Testing op \<longleftrightarrow> p = Testing op"
  "wake c p = Acting op \<longleftrightarrow> p = Acting op"
  "wake c p = Notifying op ns r \<longleftrightarrow> p = Notifying op ns r"
  "wake c p = Releasing op r \<longleftrightarrow> p = Releasing op r"
  "wake c p = Returning op r \<longleftrightarrow> p = Returning op r"
  "wake c p = Crashed op \<longleftrightarrow> p = Crashed op"
  "wake c p = Asleep op c' \<longleftrightarrow> p = Asleep op c' \<and> c' \<noteq> c"
  "wake c p = Woken op c' \<longleftrightarrow> p = Woken op c' \<or> p = Asleep op c' \<and> c' = c"
  by (cases p; auto)+

definition lock_inv :: "('op, 'd, 'c, 'r) msys \<Rightarrow> bool" where
  "lock_inv s \<longleftrightarrow> (\<forall>t. holding (mpcs s t) \<longleftrightarrow> owner s = Some t)"

lemma lock_inv_init: "lock_inv (init_msys d)"
  by (simp add: lock_inv_def init_msys_def)

lemma lock_inv_step: "mstep M t s s' \<Longrightarrow> lock_inv s \<Longrightarrow> lock_inv s'"
  by (erule mstep.cases) (force simp: lock_inv_def split: if_splits)+

lemma lock_inv_reach: "mreach M d0 s \<Longrightarrow> lock_inv s"
proof (induction rule: mreach.induct)
  case init
  show ?case by (rule lock_inv_init)
next
  case (inside s t s')
  then show ?case by (blast intro: lock_inv_step)
next
  case (call s t op)
  then show ?case by (auto simp: lock_inv_def m_call_def can_call_def) (metis holding.simps(7))
next
  case (return s t op r)
  then show ?case by (auto simp: lock_inv_def m_return_def) (metis holding.simps(11))
qed

lemma mutual_exclusion:
  "mreach M d0 s \<Longrightarrow> holding (mpcs s t) \<Longrightarrow> holding (mpcs s u) \<Longrightarrow> t = u"
  by (auto dest!: lock_inv_reach simp: lock_inv_def)

text \<open>The data change only under the lock, in the body of a call.\<close>

lemma data_change_in_body: "mstep M t s s' \<Longrightarrow> mdata s' \<noteq> mdata s \<Longrightarrow> \<exists>op. mpcs s t = Acting op"
  by (erule mstep.cases) simp_all

lemma data_access_by_owner:
  assumes "mreach M d0 s" and "mstep M t s s'" and "mdata s' \<noteq> mdata s"
  shows "owner s = Some t"
proof -
  obtain op where "mpcs s t = Acting op" using data_change_in_body [OF assms(2,3)] by blast
  then have "holding (mpcs s t)" by simp
  then show ?thesis using lock_inv_reach [OF assms(1)] by (simp add: lock_inv_def)
qed

lemma wake_cases: "wake c p = p \<or> (\<exists>op c'. p = Asleep op c' \<and> wake c p = Woken op c')"
  by (cases p) auto

text \<open>What a step does to the other threads: at most wake them up.\<close>

lemma mstep_others:
  "mstep M t s s' \<Longrightarrow> u \<noteq> t \<Longrightarrow>
   mpcs s' u = mpcs s u \<or> (\<exists>op c. mpcs s u = Asleep op c \<and> mpcs s' u = Woken op c)"
  using wake_cases [of _ "mpcs s u"] by (erule_tac mstep.cases) auto

lemma finite_inside: "mreach M d0 s \<Longrightarrow> finite {t. mpcs s t \<noteq> Outside}"
proof (induction rule: mreach.induct)
  case init
  show ?case by (simp add: init_msys_def)
next
  case (inside s t s')
  have "{u. mpcs s' u \<noteq> Outside} \<subseteq> insert t {u. mpcs s u \<noteq> Outside}"
    using mstep_others [OF inside.hyps(2)] by force
  with inside.IH show ?case by (meson finite_insert finite_subset)
next
  case (call s t op)
  have "{u. mpcs (m_call t op s) u \<noteq> Outside} \<subseteq> insert t {u. mpcs s u \<noteq> Outside}"
    by (auto simp: m_call_def)
  with call.IH show ?case by (meson finite_insert finite_subset)
next
  case (return s t op r)
  have "{u. mpcs (m_return t s) u \<noteq> Outside} \<subseteq> {u. mpcs s u \<noteq> Outside}"
    by (auto simp: m_return_def)
  with return.IH show ?case by (meson finite_subset)
qed

text \<open>
  Progress: whenever some thread is in a call and not asleep, then some thread can make a step
  other than a spurious wake-up. The lock is never held by a thread that has left.
\<close>

lemma some_thread_moves:
  assumes r: "mreach M d0 s" and p: "mpcs s t \<noteq> Outside"
    and na: "\<forall>op c. mpcs s t \<noteq> Asleep op c" and nr: "\<forall>op r. mpcs s t \<noteq> Returning op r"
    and nc: "\<forall>u op. mpcs s u \<noteq> Crashed op"
  shows "\<exists>u s'. mstep M u s s' \<and> (\<forall>op c. mpcs s u \<noteq> Asleep op c)"
proof (cases "owner s")
  case None
  then have "\<not> holding (mpcs s t)" using lock_inv_reach [OF r] by (auto simp: lock_inv_def)
  with p na nr have "(\<exists>op. mpcs s t = Acquire op) \<or> (\<exists>op c. mpcs s t = Woken op c)"
    by (cases "mpcs s t") auto
  then show ?thesis
  proof (elim disjE exE)
    fix op assume a: "mpcs s t = Acquire op"
    then show ?thesis using mstep.lock [OF a None, of M] by fastforce
  next
    fix op c assume a: "mpcs s t = Woken op c"
    then show ?thesis using mstep.relock [OF a None, of M] by fastforce
  qed
next
  case (Some u)
  then have h: "holding (mpcs s u)" using lock_inv_reach [OF r] by (auto simp: lock_inv_def)
  have "\<exists>s'. mstep M u s s'"
  proof (cases "mpcs s u")
    case (Entered op)
    then show ?thesis by (cases "cs_entry (sect M op) (mdata s)") (metis entry_pass entry_return)+
  next
    case (Testing op)
    then show ?thesis by (cases "cs_guard (sect M op) (mdata s)") (metis sleep pass)+
  next
    case (Acting op)
    then show ?thesis
      by (cases "cs_leave (sect M op) (mdata s)"; cases "cs_body (sect M op) (mdata s)")
        (metis crash act leave_return surj_pair)+
  next
    case (Notifying op ns r)
    then show ?thesis
      by (cases ns rule: list.exhaust; cases "hd ns")
        (metis list.sel(1) notified signal_wakes signal_idle broadcast)+
  next
    case (Releasing op r)
    then show ?thesis by (metis unlock)
  qed (use h nc in auto)
  with h show ?thesis by fastforce
qed

end
