(* ===== verification/Monitor_Exec.thy ===== *)
theory Monitor_Exec
  imports Monitor
begin

text \<open>
  An executable scheduler for monitors: \<open>exec M n sched s\<close> runs the threads below \<open>n\<close> as the list
  \<open>sched\<close> says, and fails when a listed action is not possible. A signal wakes the sleeper with the
  least number. Every state it computes is reachable (\<open>exec_reach\<close>); the concrete runs of the
  witnesses are computed with it.
\<close>

datatype 'op action = Call 'op | Go | Spurious | Return

fun asleep_on :: "'c \<Rightarrow> ('op, 'c, 'r) mpc \<Rightarrow> bool" where
  "asleep_on c (Asleep op c') = (c' = c)"
| "asleep_on c p = False"

fun awake :: "('op, 'c, 'r) mpc \<Rightarrow> ('op, 'c, 'r) mpc" where
  "awake (Asleep op c) = Woken op c"
| "awake p = p"

abbreviation goto :: "tid \<Rightarrow> ('op, 'c, 'r) mpc \<Rightarrow> ('op, 'd, 'c, 'r) msys \<Rightarrow> ('op, 'd, 'c, 'r) msys" where
  "goto t p s \<equiv> s\<lparr>mpcs := (mpcs s)(t := p)\<rparr>"

fun exec_go :: "('op, 'd, 'c, 'r) monitor \<Rightarrow> nat \<Rightarrow> tid \<Rightarrow> ('op, 'c, 'r) mpc \<Rightarrow>
    ('op, 'd, 'c, 'r) msys \<Rightarrow> ('op, 'd, 'c, 'r) msys option" where
  "exec_go M n t (Acquire op) s =
     (case owner s of None \<Rightarrow> Some (s\<lparr>owner := Some t, mpcs := (mpcs s)(t := Entered op)\<rparr>)
      | Some _ \<Rightarrow> None)"
| "exec_go M n t (Entered op) s =
     (case cs_entry (sect M op) (mdata s) of
        None \<Rightarrow> Some (goto t (Testing op) s)
      | Some r \<Rightarrow> Some (s\<lparr>mpcs := (mpcs s)(t := Releasing op r), mlog := mlog s @ [(t, op, r)]\<rparr>))"
| "exec_go M n t (Testing op) s =
     (case cs_guard (sect M op) (mdata s) of
        None \<Rightarrow> Some (goto t (Acting op) s)
      | Some c \<Rightarrow> Some (s\<lparr>owner := None, mpcs := (mpcs s)(t := Asleep op c)\<rparr>))"
| "exec_go M n t (Woken op c) s =
     (case owner s of None \<Rightarrow> Some (s\<lparr>owner := Some t, mpcs := (mpcs s)(t := Testing op)\<rparr>)
      | Some _ \<Rightarrow> None)"
| "exec_go M n t (Acting op) s =
     (case cs_leave (sect M op) (mdata s) of
        Some r \<Rightarrow> Some (s\<lparr>mpcs := (mpcs s)(t := Releasing op r), mlog := mlog s @ [(t, op, r)]\<rparr>)
      | None \<Rightarrow> (case cs_body (sect M op) (mdata s) of
          None \<Rightarrow> Some (goto t (Crashed op) s)
        | Some (d', r) \<Rightarrow> Some (s\<lparr>mdata := d',
            mpcs := (mpcs s)(t := Notifying op (cs_notify (sect M op) d') r),
            mlog := mlog s @ [(t, op, r)]\<rparr>)))"
| "exec_go M n t (Notifying op [] r) s = Some (goto t (Releasing op r) s)"
| "exec_go M n t (Notifying op (Signal c # ns) r) s =
     (case List.find (\<lambda>w. asleep_on c (mpcs s w)) [0..<n] of
        None \<Rightarrow> Some (goto t (Notifying op ns r) s)
      | Some w \<Rightarrow> Some (s\<lparr>mpcs := (mpcs s)(t := Notifying op ns r, w := awake (mpcs s w))\<rparr>))"
| "exec_go M n t (Notifying op (Broadcast c # ns) r) s =
     Some (s\<lparr>mpcs := (wake c \<circ> mpcs s)(t := Notifying op ns r)\<rparr>)"
| "exec_go M n t (Releasing op r) s =
     Some (s\<lparr>owner := None, mpcs := (mpcs s)(t := Returning op r)\<rparr>)"
| "exec_go M n t p s = None"

fun exec1 :: "('op, 'd, 'c, 'r) monitor \<Rightarrow> nat \<Rightarrow> tid \<times> 'op action \<Rightarrow>
    ('op, 'd, 'c, 'r) msys \<Rightarrow> ('op, 'd, 'c, 'r) msys option" where
  "exec1 M n (t, Call op) s =
     (if t < n \<and> mpcs s t = Outside \<and> claims M op \<inter> used M (mdata s) = {} \<and>
        list_all (\<lambda>u. case pending_op (mpcs s u) of None \<Rightarrow> True
          | Some op' \<Rightarrow> claims M op \<inter> claims M op' = {}) [0..<n]
      then Some (m_call t op s) else None)"
| "exec1 M n (t, Go) s = exec_go M n t (mpcs s t) s"
| "exec1 M n (t, Spurious) s =
     (case mpcs s t of Asleep op c \<Rightarrow> Some (goto t (Woken op c) s) | _ \<Rightarrow> None)"
| "exec1 M n (t, Return) s =
     (case mpcs s t of Returning op r \<Rightarrow> Some (m_return t s) | _ \<Rightarrow> None)"

fun exec :: "('op, 'd, 'c, 'r) monitor \<Rightarrow> nat \<Rightarrow> (tid \<times> 'op action) list \<Rightarrow>
    ('op, 'd, 'c, 'r) msys \<Rightarrow> ('op, 'd, 'c, 'r) msys option" where
  "exec M n [] s = Some s"
| "exec M n (a # as) s = (case exec1 M n a s of None \<Rightarrow> None | Some s' \<Rightarrow> exec M n as s')"

section \<open>Soundness\<close>

lemma asleep_on_iff: "asleep_on c p \<longleftrightarrow> (\<exists>op. p = Asleep op c)"
  by (cases p) auto

lemma exec_go_mstep:
  assumes "\<forall>t\<ge>n. mpcs s t = Outside" and "exec_go M n t (mpcs s t) s = Some s'"
  shows "mstep M t s s'"
proof (cases "mpcs s t")
  case (Notifying op ns r)
  show ?thesis
  proof (cases ns)
    case Nil
    with Notifying assms(2) show ?thesis by (auto intro: mstep.intros)
  next
    case (Cons x xs)
    show ?thesis
    proof (cases x)
      case (Broadcast c)
      with Notifying Cons assms(2) show ?thesis by (auto intro: mstep.intros)
    next
      case (Signal c)
      show ?thesis
      proof (cases "List.find (\<lambda>w. asleep_on c (mpcs s w)) [0..<n]")
        case None
        then have "\<forall>w<n. \<forall>op'. mpcs s w \<noteq> Asleep op' c"
          by (auto simp: find_None_iff asleep_on_iff)
        then have "\<forall>w op'. mpcs s w \<noteq> Asleep op' c" using assms(1) by (metis mpc.distinct(7) not_less)
        with None Notifying Cons Signal assms(2) show ?thesis by (auto intro: mstep.intros)
      next
        case (Some w)
        then obtain op' where "mpcs s w = Asleep op' c"
          by (auto simp: find_Some_iff asleep_on_iff)
        with Some Notifying Cons Signal assms(2) show ?thesis by (auto intro: mstep.intros)
      qed
    qed
  qed
qed (use assms(2) in \<open>auto intro: mstep.intros split: option.splits\<close>)

lemma exec1_reach:
  assumes r: "mreach M d0 s" and o: "\<forall>t\<ge>n. mpcs s t = Outside" and e: "exec1 M n (t, a) s = Some s'"
  shows "mreach M d0 s' \<and> (\<forall>t\<ge>n. mpcs s' t = Outside)"
proof (cases a)
  case (Call op)
  then have c: "t < n" "s' = m_call t op s" "mpcs s t = Outside" "claims M op \<inter> used M (mdata s) = {}"
    "list_all (\<lambda>u. case pending_op (mpcs s u) of None \<Rightarrow> True
          | Some op' \<Rightarrow> claims M op \<inter> claims M op' = {}) [0..<n]"
    using e by (auto split: if_splits)
  have "claims M op \<inter> claims M op' = {}" if "pending_op (mpcs s u) = Some op'" for u op'
  proof (cases "u < n")
    case True
    with c(5) that show ?thesis by (auto simp: list_all_iff split: option.splits)
  qed (use o that in auto)
  with c have "can_call M t op s" unfolding can_call_def by blast
  with r have "mreach M d0 (m_call t op s)" by (rule mreach.call)
  with c o show ?thesis by (auto simp: m_call_def)
next
  case Go
  then have st: "mstep M t s s'" using exec_go_mstep [OF o] e by simp
  have "t < n"
  proof (rule ccontr)
    assume "\<not> t < n"
    with o have "mpcs s t = Outside" by simp
    with e Go show False by simp
  qed
  with mstep_others [OF st] o have "\<forall>u\<ge>n. mpcs s' u = Outside" by (metis mpc.distinct(7) not_less)
  with r st show ?thesis by (blast intro: mreach.inside)
next
  case Spurious
  then obtain op c where p: "mpcs s t = Asleep op c" "s' = goto t (Woken op c) s"
    using e by (auto split: mpc.splits)
  then have "mstep M t s s'" by (auto intro: mstep.spurious)
  with r have "mreach M d0 s'" by (blast intro: mreach.inside)
  moreover have "t < n" using p o by (metis mpc.distinct(7) not_less)
  ultimately show ?thesis using p o by simp
next
  case Return
  then obtain op r' where p: "mpcs s t = Returning op r'" "s' = m_return t s"
    using e by (auto split: mpc.splits)
  from mreach.return [OF r p(1)] p o show ?thesis by (auto simp: m_return_def)
qed

lemma exec_reach_from:
  "mreach M d0 s \<Longrightarrow> \<forall>t\<ge>n. mpcs s t = Outside \<Longrightarrow> exec M n as s = Some s' \<Longrightarrow> mreach M d0 s'"
proof (induction as arbitrary: s)
  case Nil
  then show ?case by simp
next
  case (Cons a as)
  then obtain s1 where e: "exec1 M n (fst a, snd a) s = Some s1" "exec M n as s1 = Some s'"
    by (auto split: option.splits)
  from exec1_reach [OF Cons.prems(1,2) e(1)] Cons.IH e(2) show ?case by blast
qed

lemma exec_reach: "exec M n as (init_msys d0) = Some s \<Longrightarrow> mreach M d0 s"
  by (rule exec_reach_from [OF mreach.init]) (auto simp: init_msys_def)

end
