(* ===== verification/Memory_Pool.thy ===== *)
theory Memory_Pool
  imports Memory Heap_List Monitor_Laws Monitor_Exec
begin

text \<open>
  memory.c, second half: the fixed-size object pool. One malloc'd block is cut into slots; the free
  slots form a list through their first eight bytes (\<open>pool_node_t\<close>). The functions after creation
  are critical sections on the pool. \<open>mp_cells\<close> holds the \<open>next\<close> fields of the free slots, the only
  bytes of the block that belong to the pool and not to its clients; \<open>in_block\<close> is the condition
  under which writing one is defined.
\<close>

section \<open>Creation and destruction\<close>

record memory_pool =
  mp_memory :: ptr
  mp_memory_size :: size_t
  mp_object_size :: size_t
  mp_total_count :: size_t
  mp_free_list :: ptr
  mp_allocated_count :: size_t
  mp_cells :: "ptr \<Rightarrow> ptr option"

definition sizeof_ptr :: size_t where
  "sizeof_ptr = 8"

definition in_block :: "ptr \<Rightarrow> size_t \<Rightarrow> ptr \<Rightarrow> bool" where
  "in_block mem n p \<longleftrightarrow> unat mem \<le> unat p \<and> unat p + 8 \<le> unat mem + unat n"

text \<open>The loop that links the slots; None is a write outside the block.\<close>

fun link_objects :: "nat \<Rightarrow> ptr \<Rightarrow> memory_pool \<Rightarrow> memory_pool option" where
  "link_objects 0 p pool = Some pool"
| "link_objects (Suc n) p pool =
     (if in_block (mp_memory pool) (mp_memory_size pool) p
      then link_objects n (p + mp_object_size pool)
        (pool\<lparr>mp_cells := (mp_cells pool)(p \<mapsto> mp_free_list pool), mp_free_list := p\<rparr>)
      else None)"

text \<open>
  \<open>live\<close> are the blocks that malloc has handed out; \<open>blk\<close> and \<open>mem\<close> its answers for the structure
  and for the memory, \<open>lock_ret\<close> the answer of pthread_mutex_init. None is a NULL result.
\<close>

definition memory_pool_create ::
  "ptr \<Rightarrow> ptr \<Rightarrow> int \<Rightarrow> size_t \<Rightarrow> size_t \<Rightarrow> ptr set \<Rightarrow> (ptr set, memory_pool option) outcome" where
  "memory_pool_create blk mem lock_ret object_size initial_count live =
     (if object_size = 0 \<or> initial_count = 0 then Returns live None
      else
        let object_size = (if object_size < sizeof_ptr then sizeof_ptr else object_size);
            object_size = align_up object_size sizeof_ptr
        in if blk = NULL then Returns live None
        else
          let live1 = insert blk live; memory_size = object_size * initial_count in
          if mem = NULL then Returns (live1 - {blk}) None
          else
            let live2 = insert mem live1 in
            if lock_ret \<noteq> 0 then Returns (live2 - {mem} - {blk}) None
            else
              case link_objects (unat initial_count) mem
                \<lparr>mp_memory = mem, mp_memory_size = memory_size, mp_object_size = object_size,
                  mp_total_count = initial_count, mp_free_list = NULL, mp_allocated_count = 0,
                  mp_cells = (\<lambda>_. None)\<rparr>
              of None \<Rightarrow> Undefined | Some pool \<Rightarrow> Returns live2 (Some pool))"

definition memory_pool_destroy ::
  "ptr \<Rightarrow> memory_pool \<Rightarrow> ptr set \<Rightarrow> (ptr set, unit) outcome" where
  "memory_pool_destroy blk pool live =
     (if blk = NULL then Returns live ()
      else if mp_memory pool \<in> live \<and> blk \<in> live
      then Returns (live - {mp_memory pool} - {blk}) ()
      else Undefined)"

section \<open>The critical sections\<close>

datatype pool_op = Alloc | Free ptr | Allocated | Available
datatype pool_res = PtrRes ptr | SizeRes size_t | UnitRes

definition alloc_section :: "(memory_pool, unit, pool_res) crit" where
  "alloc_section = \<lparr>
     cs_entry = (\<lambda>pool. if mp_free_list pool = NULL then Some (PtrRes NULL) else None),
     cs_guard = (\<lambda>_. None),
     cs_leave = (\<lambda>_. None),
     cs_body = (\<lambda>pool. let node = mp_free_list pool in
       case mp_cells pool node of
         None \<Rightarrow> None
       | Some nxt \<Rightarrow> Some
           (pool\<lparr>mp_free_list := nxt, mp_allocated_count := mp_allocated_count pool + 1,
              mp_cells := (mp_cells pool)(node := None)\<rparr>, PtrRes node)),
     cs_notify = (\<lambda>_. [])\<rparr>"

definition free_section :: "ptr \<Rightarrow> (memory_pool, unit, pool_res) crit" where
  "free_section node = \<lparr>
     cs_entry = (\<lambda>_. None),
     cs_guard = (\<lambda>_. None),
     cs_leave = (\<lambda>_. None),
     cs_body = (\<lambda>pool.
       if in_block (mp_memory pool) (mp_memory_size pool) node
       then Some (pool\<lparr>mp_cells := (mp_cells pool)(node \<mapsto> mp_free_list pool),
         mp_free_list := node, mp_allocated_count := mp_allocated_count pool - 1\<rparr>, UnitRes)
       else None),
     cs_notify = (\<lambda>_. [])\<rparr>"

definition count_section :: "(memory_pool \<Rightarrow> size_t) \<Rightarrow> (memory_pool, unit, pool_res) crit" where
  "count_section f = \<lparr>
     cs_entry = (\<lambda>_. None), cs_guard = (\<lambda>_. None), cs_leave = (\<lambda>_. None),
     cs_body = (\<lambda>pool. Some (pool, SizeRes (f pool))), cs_notify = (\<lambda>_. [])\<rparr>"

lemmas [section_defs] = alloc_section_def free_section_def count_section_def

fun pool_section :: "pool_op \<Rightarrow> (memory_pool, unit, pool_res) crit" where
  "pool_section Alloc = alloc_section"
| "pool_section (Free p) = free_section p"
| "pool_section Allocated = count_section mp_allocated_count"
| "pool_section Available = count_section (\<lambda>pool. mp_total_count pool - mp_allocated_count pool)"

text \<open>The C functions: the checks before the lock, then the section.\<close>

definition memory_pool_alloc :: "ptr \<Rightarrow> pool_res + pool_op" where
  "memory_pool_alloc pool = (if pool = NULL then Inl (PtrRes NULL) else Inr Alloc)"

definition memory_pool_free :: "ptr \<Rightarrow> ptr \<Rightarrow> pool_res + pool_op" where
  "memory_pool_free pool p = (if pool = NULL \<or> p = NULL then Inl UnitRes else Inr (Free p))"

definition memory_pool_allocated :: "ptr \<Rightarrow> pool_res + pool_op" where
  "memory_pool_allocated pool = (if pool = NULL then Inl (SizeRes 0) else Inr Allocated)"

definition memory_pool_available :: "ptr \<Rightarrow> pool_res + pool_op" where
  "memory_pool_available pool = (if pool = NULL then Inl (SizeRes 0) else Inr Available)"

section \<open>Slots and well-formed pools\<close>

definition slot :: "memory_pool \<Rightarrow> nat \<Rightarrow> ptr" where
  "slot pool i = mp_memory pool + word_of_nat i * mp_object_size pool"

definition slots :: "memory_pool \<Rightarrow> ptr set" where
  "slots pool = slot pool ` {..<unat (mp_total_count pool)}"

text \<open>The block is where malloc put it, does not wrap around, and the slots fill it.\<close>

definition pool_layout :: "memory_pool \<Rightarrow> bool" where
  "pool_layout pool \<longleftrightarrow> mp_memory pool \<noteq> NULL \<and> 8 \<le> unat (mp_object_size pool) \<and>
     unat (mp_memory_size pool) = unat (mp_total_count pool) * unat (mp_object_size pool) \<and>
     unat (mp_memory pool) + unat (mp_memory_size pool) \<le> 2 ^ 64"

text \<open>
  The free list is a NULL-terminated list of slots, all the free slots are on it, and the counter
  says how many slots are not.
\<close>

definition pool_wf :: "memory_pool \<Rightarrow> bool" where
  "pool_wf pool \<longleftrightarrow> pool_layout pool \<and>
     (\<exists>fs. chain (mp_cells pool) (mp_free_list pool) fs \<and> set fs = dom (mp_cells pool) \<and>
        set fs \<subseteq> slots pool \<and>
        unat (mp_allocated_count pool) + length fs = unat (mp_total_count pool))"

text \<open>The slots in the hands of clients.\<close>

definition outstanding :: "memory_pool \<Rightarrow> ptr set" where
  "outstanding pool = slots pool - dom (mp_cells pool)"

text \<open>A caller of \<open>memory_pool_free\<close> must bring a slot it was given: all else counts as used.\<close>

fun pool_claims :: "pool_op \<Rightarrow> ptr set" where
  "pool_claims (Free p) = {p}"
| "pool_claims _ = {}"

definition pool_monitor :: "(pool_op, memory_pool, unit, pool_res) monitor" where
  "pool_monitor = \<lparr>sect = pool_section, claims = pool_claims, used = (\<lambda>pool. - outstanding pool)\<rparr>"

lemma pool_monitor_simps [simp]:
  "sect pool_monitor = pool_section" "claims pool_monitor = pool_claims"
  "used pool_monitor pool = - outstanding pool"
  by (simp_all add: pool_monitor_def)

lemma pool_guard [simp]: "cs_guard (pool_section op) d = None" "cs_leave (pool_section op) d = None"
  by (cases op; simp add: section_defs)+


section \<open>Facts on slots\<close>

lemma slot_unat:
  assumes "pool_layout pool" and "i < unat (mp_total_count pool)"
  shows "unat (slot pool i) = unat (mp_memory pool) + i * unat (mp_object_size pool)"
    and "unat (slot pool i) + unat (mp_object_size pool) \<le> unat (mp_memory pool) + unat (mp_memory_size pool)"
proof -
  let ?os = "unat (mp_object_size pool)"
  have "Suc i * ?os \<le> unat (mp_total_count pool) * ?os" using assms(2) by (intro mult_right_mono) auto
  then have fit: "i * ?os + ?os \<le> unat (mp_memory_size pool)" using assms(1) by (simp add: pool_layout_def)
  have b: "unat (mp_memory pool) + unat (mp_memory_size pool) \<le> 2 ^ 64" "8 \<le> ?os"
    using assms(1) by (auto simp: pool_layout_def)
  have i: "unat (word_of_nat i :: 64 word) = i"
    using assms(2) unat_bound64 [of "mp_total_count pool"] by (intro unat_of_nat_small) simp
  have "i * ?os < 2 ^ 64" using fit b by linarith
  then have "unat (word_of_nat i * mp_object_size pool) = i * ?os"
    by (simp add: unat_word_ariths(2) i)
  moreover have "unat (mp_memory pool) + i * ?os < 2 ^ 64" using fit b by linarith
  ultimately show *: "unat (slot pool i) = unat (mp_memory pool) + i * ?os"
    by (simp add: slot_def unat_word_ariths(1))
  show "unat (slot pool i) + ?os \<le> unat (mp_memory pool) + unat (mp_memory_size pool)"
    unfolding * using fit by linarith
qed

lemma slot_in_block:
  "pool_layout pool \<Longrightarrow> p \<in> slots pool \<Longrightarrow> in_block (mp_memory pool) (mp_memory_size pool) p"
  using slot_unat by (fastforce simp: slots_def in_block_def pool_layout_def)

lemma slot_not_NULL: "pool_layout pool \<Longrightarrow> NULL \<notin> slots pool"
proof
  assume l: "pool_layout pool" and "NULL \<in> slots pool"
  then obtain i where "i < unat (mp_total_count pool)" "slot pool i = NULL" by (auto simp: slots_def)
  with slot_unat(1) [OF l, of i] have "unat (mp_memory pool) = 0" by simp
  with l show False by (simp add: pool_layout_def unat_eq_zero)
qed

lemma slot_inj: "pool_layout pool \<Longrightarrow> inj_on (slot pool) {..<unat (mp_total_count pool)}"
proof (rule inj_onI)
  fix i j assume l: "pool_layout pool" and ij: "i \<in> {..<unat (mp_total_count pool)}"
    "j \<in> {..<unat (mp_total_count pool)}" and e: "slot pool i = slot pool j"
  have "i * unat (mp_object_size pool) = j * unat (mp_object_size pool)"
    using slot_unat(1) [OF l, of i] slot_unat(1) [OF l, of j] ij e by auto
  moreover have "unat (mp_object_size pool) \<noteq> 0" using l by (auto simp: pool_layout_def)
  ultimately show "i = j" by simp
qed

lemma card_slots: "pool_layout pool \<Longrightarrow> card (slots pool) = unat (mp_total_count pool)"
  by (simp add: slots_def card_image slot_inj)

text \<open>The parts of a pool that no section changes.\<close>

lemma slots_upd [simp]:
  "slots (pool\<lparr>mp_free_list := a, mp_allocated_count := b, mp_cells := c\<rparr>) = slots pool"
  "slots (pool\<lparr>mp_cells := c, mp_free_list := a, mp_allocated_count := b\<rparr>) = slots pool"
  "slots (pool\<lparr>mp_cells := c, mp_free_list := a\<rparr>) = slots pool"
  by (simp_all add: slots_def slot_def)

lemma pool_layout_upd [simp]:
  "pool_layout (pool\<lparr>mp_free_list := a, mp_allocated_count := b, mp_cells := c\<rparr>) = pool_layout pool"
  "pool_layout (pool\<lparr>mp_cells := c, mp_free_list := a, mp_allocated_count := b\<rparr>) = pool_layout pool"
  "pool_layout (pool\<lparr>mp_cells := c, mp_free_list := a\<rparr>) = pool_layout pool"
  by (simp_all add: pool_layout_def)

lemma pool_wf_count:
  assumes "pool_wf pool"
  shows "finite (outstanding pool)" and "card (outstanding pool) = unat (mp_allocated_count pool)"
proof -
  obtain fs where fs: "chain (mp_cells pool) (mp_free_list pool) fs" "set fs = dom (mp_cells pool)"
    "set fs \<subseteq> slots pool" "unat (mp_allocated_count pool) + length fs = unat (mp_total_count pool)"
    and l: "pool_layout pool" using assms by (auto simp: pool_wf_def)
  have fin: "finite (slots pool)" by (simp add: slots_def)
  then show "finite (outstanding pool)" by (simp add: outstanding_def)
  have "card (dom (mp_cells pool)) = length fs"
    using fs(2) chain_distinct [OF fs(1)] by (metis distinct_card)
  moreover have "card (outstanding pool) = card (slots pool) - card (dom (mp_cells pool))"
    unfolding outstanding_def using fs(2,3) fin by (intro card_Diff_subset) (auto intro: finite_subset)
  ultimately show "card (outstanding pool) = unat (mp_allocated_count pool)"
    using fs(4) card_slots [OF l] by simp
qed

section \<open>The sections keep pools well formed\<close>

lemma alloc_wf:
  assumes wf: "pool_wf pool" and ne: "mp_free_list pool \<noteq> NULL"
  shows "\<exists>nxt. mp_cells pool (mp_free_list pool) = Some nxt \<and>
    pool_wf (pool\<lparr>mp_free_list := nxt, mp_allocated_count := mp_allocated_count pool + 1,
      mp_cells := (mp_cells pool)(mp_free_list pool := None)\<rparr>)"
proof -
  obtain fs where fs: "chain (mp_cells pool) (mp_free_list pool) fs" "set fs = dom (mp_cells pool)"
    "set fs \<subseteq> slots pool" "unat (mp_allocated_count pool) + length fs = unat (mp_total_count pool)"
    and l: "pool_layout pool" using wf by (auto simp: pool_wf_def)
  from fs(1) ne obtain q ys where q: "fs = mp_free_list pool # ys"
    "mp_cells pool (mp_free_list pool) = Some q" "chain (mp_cells pool) q ys"
    by (auto simp: chain_unfold)
  have d: "mp_free_list pool \<notin> set ys" using chain_distinct [OF fs(1)] q(1) by simp
  have "unat (mp_allocated_count pool) + 1 < 2 ^ 64"
    using fs(4) q(1) unat_bound64 [of "mp_total_count pool"] by simp
  then have "unat (mp_allocated_count pool + 1) = Suc (unat (mp_allocated_count pool))"
    by (intro unat_Suc_no_wrap) simp
  then have "pool_wf (pool\<lparr>mp_free_list := q, mp_allocated_count := mp_allocated_count pool + 1,
      mp_cells := (mp_cells pool)(mp_free_list pool := None)\<rparr>)"
    unfolding pool_wf_def using fs q d l by (auto intro!: exI [of _ ys])
  with q(2) show ?thesis by blast
qed

lemma free_wf:
  assumes wf: "pool_wf pool" and p: "p \<in> outstanding pool"
  shows "in_block (mp_memory pool) (mp_memory_size pool) p \<and>
    pool_wf (pool\<lparr>mp_cells := (mp_cells pool)(p \<mapsto> mp_free_list pool), mp_free_list := p,
      mp_allocated_count := mp_allocated_count pool - 1\<rparr>)"
proof -
  obtain fs where fs: "chain (mp_cells pool) (mp_free_list pool) fs" "set fs = dom (mp_cells pool)"
    "set fs \<subseteq> slots pool" "unat (mp_allocated_count pool) + length fs = unat (mp_total_count pool)"
    and l: "pool_layout pool" using wf by (auto simp: pool_wf_def)
  have p': "p \<in> slots pool" "p \<notin> set fs" using p fs(2) by (auto simp: outstanding_def)
  then have n: "p \<noteq> NULL" using slot_not_NULL [OF l] by auto
  have "card (outstanding pool) > 0" using p pool_wf_count(1) [OF wf] by (auto simp: card_gt_0_iff)
  then have "mp_allocated_count pool \<noteq> 0" using pool_wf_count(2) [OF wf] by auto
  then have "unat (mp_allocated_count pool - 1) = unat (mp_allocated_count pool) - 1"
    "unat (mp_allocated_count pool) > 0"
    by (simp_all add: unat_minus_one_pos unat_gt_0)
  then have "pool_wf (pool\<lparr>mp_cells := (mp_cells pool)(p \<mapsto> mp_free_list pool), mp_free_list := p,
      mp_allocated_count := mp_allocated_count pool - 1\<rparr>)"
    unfolding pool_wf_def
    by (intro conjI exI [of _ "p # fs"]) (use fs p' n l in \<open>simp_all\<close>)
  with slot_in_block [OF l p'(1)] show ?thesis by blast
qed

lemma outstanding_alloc:
  "pool_wf pool \<Longrightarrow> mp_cells pool (mp_free_list pool) = Some nxt \<Longrightarrow>
   mp_free_list pool \<notin> outstanding pool \<and>
   outstanding (pool\<lparr>mp_free_list := nxt, mp_allocated_count := n,
      mp_cells := (mp_cells pool)(mp_free_list pool := None)\<rparr>) =
   insert (mp_free_list pool) (outstanding pool)"
  by (auto simp: outstanding_def pool_wf_def)

lemma outstanding_free:
  "outstanding (pool\<lparr>mp_cells := (mp_cells pool)(p \<mapsto> q), mp_free_list := p, mp_allocated_count := n\<rparr>)
   = outstanding pool - {p}"
  by (auto simp: outstanding_def)

interpretation pool: monitor_laws pool_monitor pool_wf
proof unfold_locales
  fix op c d r
  assume "can_wait pool_monitor op c"
  then show "cs_leave (sect pool_monitor op) d = Some r" by (simp add: can_wait_def)
next
  fix op :: pool_op and d
  assume wf: "pool_wf d" and cl: "claims pool_monitor op \<inter> used pool_monitor d = {}"
    and en: "cs_entry (sect pool_monitor op) d = None"
  show "\<exists>d' r. cs_body (sect pool_monitor op) d = Some (d', r) \<and> pool_wf d' \<and>
      used pool_monitor d' \<subseteq> used pool_monitor d \<union> claims pool_monitor op"
  proof (cases op)
    case Alloc
    with en have "mp_free_list d \<noteq> NULL" by (auto simp: section_defs split: if_splits)
    from alloc_wf [OF wf this] outstanding_alloc [OF wf] Alloc show ?thesis
      by (fastforce simp: section_defs Let_def)
  next
    case (Free p)
    with cl have "p \<in> outstanding d" by simp
    from free_wf [OF wf this] Free show ?thesis
      by (auto simp: section_defs outstanding_free)
  qed (use wf in \<open>auto simp: section_defs\<close>)
qed


section \<open>Creation\<close>

lemma slot_Suc: "slot pool (Suc i) = slot pool i + mp_object_size pool"
  by (simp add: slot_def algebra_simps)

lemma slot_cells [simp]: "slot (pool\<lparr>mp_cells := c, mp_free_list := a\<rparr>) = slot pool"
  by (simp add: fun_eq_iff slot_def)

text \<open>After \<open>k\<close> iterations the first \<open>k\<close> slots are on the list, the last one first.\<close>

definition linked :: "memory_pool \<Rightarrow> nat \<Rightarrow> bool" where
  "linked pool k \<longleftrightarrow> chain (mp_cells pool) (mp_free_list pool) (map (slot pool) (rev [0..<k])) \<and>
     dom (mp_cells pool) = slot pool ` {..<k}"

lemma link_objects_ok:
  "pool_layout pool \<Longrightarrow> linked pool k \<Longrightarrow> k + n = unat (mp_total_count pool) \<Longrightarrow>
   \<exists>pool'. link_objects n (slot pool k) pool = Some pool' \<and> linked pool' (k + n) \<and>
     pool_layout pool' \<and> mp_allocated_count pool' = mp_allocated_count pool \<and>
     mp_total_count pool' = mp_total_count pool \<and> mp_memory pool' = mp_memory pool \<and>
     mp_object_size pool' = mp_object_size pool \<and> mp_memory_size pool' = mp_memory_size pool"
proof (induction n arbitrary: k pool)
  case 0
  then show ?case by simp
next
  case (Suc n)
  let ?p = "slot pool k"
  let ?pool = "pool\<lparr>mp_cells := (mp_cells pool)(?p \<mapsto> mp_free_list pool), mp_free_list := ?p\<rparr>"
  have k: "k < unat (mp_total_count pool)" using Suc.prems(3) by simp
  then have sl: "?p \<in> slots pool" by (auto simp: slots_def)
  then have ib: "in_block (mp_memory pool) (mp_memory_size pool) ?p" and nn: "?p \<noteq> NULL"
    using slot_in_block [OF Suc.prems(1)] slot_not_NULL [OF Suc.prems(1)] by auto
  have fresh: "?p \<notin> slot pool ` {..<k}"
    using slot_inj [OF Suc.prems(1)] k by (force simp: inj_on_def)
  then have "?p \<notin> set (map (slot pool) (rev [0..<k]))" by (simp add: lessThan_atLeast0)
  then have "linked ?pool (Suc k)"
    using Suc.prems(2) nn by (auto simp: linked_def lessThan_Suc)
  moreover have "pool_layout ?pool" using Suc.prems(1) by simp
  ultimately obtain pool' where "link_objects n (slot ?pool (Suc k)) ?pool = Some pool'"
    "linked pool' (Suc k + n)" "pool_layout pool'"
    "mp_allocated_count pool' = mp_allocated_count pool" "mp_total_count pool' = mp_total_count pool"
    "mp_memory pool' = mp_memory pool" "mp_object_size pool' = mp_object_size pool"
    "mp_memory_size pool' = mp_memory_size pool"
    using Suc.IH [of ?pool "Suc k"] Suc.prems(3) by auto
  with ib show ?case by (simp add: slot_Suc)
qed

text \<open>A slot outside the block is written whenever the loop gets to it.\<close>

lemma link_objects_out:
  "i < n \<Longrightarrow> \<not> in_block (mp_memory pool) (mp_memory_size pool) (p + word_of_nat i * mp_object_size pool) \<Longrightarrow>
   link_objects n p pool = None"
proof (induction n arbitrary: i p pool)
  case 0
  then show ?case by simp
next
  case (Suc n)
  show ?case
  proof (cases "in_block (mp_memory pool) (mp_memory_size pool) p")
    case True
    with Suc.prems obtain j where j: "i = Suc j" "j < n" by (cases i) auto
    let ?pool = "pool\<lparr>mp_cells := (mp_cells pool)(p \<mapsto> mp_free_list pool), mp_free_list := p\<rparr>"
    have "link_objects n (p + mp_object_size pool) ?pool = None"
      using Suc.prems(2) j by (intro Suc.IH [of j]) (simp_all add: algebra_simps)
    then show ?thesis using True by simp
  qed simp
qed

text \<open>
  What the theorems on creation assume of malloc: two fresh non-null blocks, the second of which
  does not wrap around the address space. \<open>actual_size\<close> is the object size after rounding up.
\<close>

definition actual_size :: "size_t \<Rightarrow> size_t" where
  "actual_size object_size =
     align_up (if object_size < sizeof_ptr then sizeof_ptr else object_size) sizeof_ptr"

definition malloc_ok :: "ptr \<Rightarrow> ptr \<Rightarrow> size_t \<Rightarrow> ptr set \<Rightarrow> bool" where
  "malloc_ok blk mem n live \<longleftrightarrow> blk \<noteq> NULL \<and> mem \<noteq> NULL \<and> blk \<noteq> mem \<and> blk \<notin> live \<and> mem \<notin> live \<and>
     unat mem + unat n \<le> 2 ^ 64"

lemma actual_size:
  assumes "unat object_size + 8 \<le> 2 ^ 64"
  shows "unat object_size \<le> unat (actual_size object_size)" "8 \<le> unat (actual_size object_size)"
    "8 dvd unat (actual_size object_size)"
proof -
  let ?o = "if object_size < sizeof_ptr then sizeof_ptr else object_size"
  have e: "sizeof_ptr = 2 ^ 3" "unat sizeof_ptr = 8" by (simp_all add: sizeof_ptr_def)
  have o: "unat object_size \<le> unat ?o" "8 \<le> unat ?o"
    using e(2) by (auto simp: word_less_nat_alt)
  have "unat ?o + unat sizeof_ptr \<le> 2 ^ 64" using assms e(2) by simp
  from align_up [OF e(1) _ this] e(2) o
  show "unat object_size \<le> unat (actual_size object_size)" "8 \<le> unat (actual_size object_size)"
    "8 dvd unat (actual_size object_size)" by (auto simp: actual_size_def)
qed

lemma memory_pool_create_unfold:
  assumes "object_size \<noteq> 0" "initial_count \<noteq> 0" "malloc_ok blk mem n live"
  shows "memory_pool_create blk mem lock_ret object_size initial_count live =
    (if lock_ret \<noteq> 0 then Returns live None
     else case link_objects (unat initial_count) mem
       \<lparr>mp_memory = mem, mp_memory_size = actual_size object_size * initial_count,
        mp_object_size = actual_size object_size, mp_total_count = initial_count,
        mp_free_list = NULL, mp_allocated_count = 0, mp_cells = (\<lambda>_. None)\<rparr>
     of None \<Rightarrow> Undefined | Some pool \<Rightarrow> Returns (insert mem (insert blk live)) (Some pool))"
proof -
  have "insert mem (insert blk live) - {mem} - {blk} = live" using assms(3) by (auto simp: malloc_ok_def)
  with assms show ?thesis
    by (simp add: memory_pool_create_def Let_def actual_size_def malloc_ok_def)
qed

text \<open>
  When the size computations do not overflow, \<open>memory_pool_create\<close> writes only inside its block
  and returns a well-formed pool with every slot free: \<open>initial_count\<close> disjoint slots of at least
  the requested size, rounded to a multiple of eight, the first allocation giving the last slot.
\<close>

lemma memory_pool_create_wf:
  assumes "object_size \<noteq> 0" "initial_count \<noteq> 0"
    and "malloc_ok blk mem (actual_size object_size * initial_count) live"
    and "unat object_size + 8 \<le> 2 ^ 64"
    and "unat (actual_size object_size) * unat initial_count < 2 ^ 64"
  shows "\<exists>pool. memory_pool_create blk mem 0 object_size initial_count live =
      Returns (insert mem (insert blk live)) (Some pool) \<and>
    pool_wf pool \<and> outstanding pool = {} \<and> card (slots pool) = unat initial_count \<and>
    mp_object_size pool = actual_size object_size \<and>
    unat object_size \<le> unat (mp_object_size pool) \<and> 8 dvd unat (mp_object_size pool) \<and>
    mp_free_list pool = slot pool (unat initial_count - 1)"
proof -
  let ?pool = "\<lparr>mp_memory = mem, mp_memory_size = actual_size object_size * initial_count,
        mp_object_size = actual_size object_size, mp_total_count = initial_count,
        mp_free_list = NULL, mp_allocated_count = 0, mp_cells = (\<lambda>_. None)\<rparr>"
  let ?n = "unat initial_count"
  have ms: "unat (actual_size object_size * initial_count) = unat (actual_size object_size) * ?n"
    using assms(5) by (simp add: unat_word_ariths)
  then have l: "pool_layout ?pool"
    using assms(3) actual_size [OF assms(4)] by (simp add: pool_layout_def malloc_ok_def mult.commute)
  have "linked ?pool 0" by (simp add: linked_def)
  from link_objects_ok [OF l this, of ?n] obtain pool where
    p: "link_objects ?n mem ?pool = Some pool" "linked pool ?n" "pool_layout pool"
    "mp_allocated_count pool = 0" "mp_total_count pool = initial_count"
    "mp_object_size pool = actual_size object_size"
    by (auto simp: slot_def)
  let ?fs = "map (slot pool) (rev [0..<?n])"
  have ch: "chain (mp_cells pool) (mp_free_list pool) ?fs" using p(2) by (simp add: linked_def)
  have dm: "dom (mp_cells pool) = slots pool" using p(2,5) by (simp add: linked_def slots_def)
  have "pool_wf pool"
    unfolding pool_wf_def using p(3,4,5) ch dm
    by (intro conjI exI [of _ ?fs]) (auto simp: slots_def lessThan_atLeast0)
  moreover have "mp_free_list pool = slot pool (?n - 1)"
  proof -
    have "?n = Suc (?n - 1)" using assms(2) by (simp add: unat_gt_0)
    then have "?fs = slot pool (?n - 1) # map (slot pool) (rev [0..<?n - 1])"
      by (metis list.simps(9) rev.simps(2) rev_append rev_rev_ident upt_Suc_append append_Cons
          append_Nil zero_le)
    with ch show ?thesis by (metis chain_Cons)
  qed
  ultimately show ?thesis
    using memory_pool_create_unfold [OF assms(1-3), of 0] p dm card_slots [OF p(3)]
      actual_size [OF assms(4)] by (simp add: outstanding_def)
qed

lemma memory_pool_create_wf_witness:
  "\<exists>pool. memory_pool_create 16 4096 0 5 3 {} = Returns {4096, 16} (Some pool) \<and> pool_wf pool \<and>
     card (slots pool) = 3"
proof -
  have m: "malloc_ok 16 4096 (actual_size 5 * 3) {}"
    by (simp add: malloc_ok_def actual_size_def sizeof_ptr_def align_up_def)
  have b: "unat (actual_size 5) * unat (3 :: size_t) < 2 ^ 64"
    by (simp add: actual_size_def sizeof_ptr_def align_up_def)
  have "\<exists>pool. memory_pool_create 16 4096 0 5 3 {} = Returns (insert 4096 (insert 16 {})) (Some pool) \<and>
     pool_wf pool \<and> outstanding pool = {} \<and> card (slots pool) = unat (3 :: size_t) \<and>
     mp_object_size pool = actual_size 5 \<and> unat (5 :: size_t) \<le> unat (mp_object_size pool) \<and>
     8 dvd unat (mp_object_size pool) \<and> mp_free_list pool = slot pool (unat (3 :: size_t) - 1)"
    by (rule memory_pool_create_wf [OF _ _ m _ b]) simp_all
  then show ?thesis by (elim exE conjE) (intro exI conjI, assumption+, simp)
qed


lemma actual_size_bound:
  assumes "unat object_size < 2 ^ 62"
  shows "unat (actual_size object_size) < 2 ^ 63"
proof -
  define ob where "ob = (if object_size < sizeof_ptr then sizeof_ptr else object_size)"
  have "unat ob < 2 ^ 62" using assms by (simp add: ob_def sizeof_ptr_def)
  moreover have e: "unat sizeof_ptr = 8" by (simp add: sizeof_ptr_def)
  ultimately have "unat ob + unat sizeof_ptr \<le> 2 ^ 64" "unat ob + 8 < 2 ^ 63" by simp_all
  moreover have "actual_size object_size = align_up ob sizeof_ptr" "sizeof_ptr = 2 ^ 3"
    by (simp_all add: actual_size_def ob_def sizeof_ptr_def)
  ultimately show ?thesis using align_up(2) [of sizeof_ptr 3 ob] e by simp
qed

text \<open>The first slot whose pointer does not fit into a block of \<open>m\<close> bytes.\<close>

lemma first_slot_past:
  assumes "8 \<le> os"
  shows "\<exists>i. i * os \<le> m + os \<and> m < i * os + (8 :: nat)"
proof (cases "m < 8")
  case True
  then show ?thesis by (intro exI [of _ 0]) simp
next
  case False
  define q where "q = (m - 8) div os * os"
  have "m - 8 < os + q" using assms dividend_less_div_times [of os "m - 8"] by (simp add: q_def)
  moreover have "q \<le> m - 8" by (simp add: q_def)
  ultimately have "os + q \<le> m + os \<and> m < os + q + 8" using False by linarith
  then show ?thesis by (intro exI [of _ "Suc ((m - 8) div os)"]) (simp add: q_def)
qed

lemma slot_outside:
  assumes "i < 2 ^ 64" and "i * unat os < 2 ^ 64" and "unat bytes < i * unat os + 8"
  shows "\<not> in_block mem bytes (mem + word_of_nat i * os)"
proof -
  have "unat (word_of_nat i :: 64 word) = i" using assms(1) by (rule unat_of_nat_small)
  then have u: "unat (word_of_nat i * os) = i * unat os" using assms(2) by (simp add: unat_word_ariths)
  show ?thesis
  proof (cases "unat mem + i * unat os < 2 ^ 64")
    case True
    then have "unat (mem + word_of_nat i * os) = unat mem + i * unat os" by (simp add: unat_word_ariths(1) u)
    then show ?thesis using assms(3) by (simp add: in_block_def)
  next
    case False
    have "unat (mem + word_of_nat i * os) = unat mem + i * unat os - 2 ^ 64"
      using False assms(2) unat_bound64 [of mem] by (simp add: unat_word_ariths(1) u le_mod_geq)
    then have "unat (mem + word_of_nat i * os) < unat mem" using assms(2) False by simp
    then show ?thesis by (simp add: in_block_def)
  qed
qed



text \<open>
  Creation leaks nothing: when it returns NULL, for whatever reason, the live blocks are those
  from before, and when it returns a pool, destroying it gives the blocks back, each freed once.
\<close>

lemma memory_pool_create_no_leak:
  assumes "blk \<notin> live" "mem \<notin> live" "blk \<noteq> mem"
    and "memory_pool_create blk mem lock_ret object_size initial_count live = Returns live' res"
  shows "case res of None \<Rightarrow> live' = live
    | Some pool \<Rightarrow> memory_pool_destroy blk pool live' = Returns live ()"
proof -
  have mem: "link_objects n p pool = Some pool' \<Longrightarrow> mp_memory pool' = mp_memory pool" for n p pool pool'
    by (induction n arbitrary: p pool) (auto split: if_splits)
  have "insert blk live - {blk} = live" "insert mem (insert blk live) - {mem} - {blk} = live"
    using assms(1-3) by auto
  with assms show ?thesis
    by (auto simp: memory_pool_create_def memory_pool_destroy_def Let_def dest!: mem
        split: if_splits option.splits)
qed

lemma memory_pool_create_no_leak_witness:
  "memory_pool_create 16 4096 1 5 3 {} = Returns {} None"
proof -
  have "\<exists>live' res. memory_pool_create 16 4096 1 5 3 {} = Returns live' res \<and> res = None"
    by (simp add: memory_pool_create_def Let_def)
  then obtain live' where r: "memory_pool_create 16 4096 1 5 3 {} = Returns live' None" by blast
  from memory_pool_create_no_leak [OF _ _ _ r] have "live' = {}" by simp
  with r show ?thesis by simp
qed

section \<open>Concurrent use\<close>

text \<open>The objects that the logged calls have handed out and not taken back, the last one first.\<close>

fun live_step :: "tid \<times> pool_op \<times> pool_res \<Rightarrow> ptr list \<Rightarrow> ptr list" where
  "live_step (t, Alloc, PtrRes p) xs = (if p = NULL then xs else p # xs)"
| "live_step (t, Free p, r) xs = removeAll p xs"
| "live_step e xs = xs"

definition live_objects :: "(tid \<times> pool_op \<times> pool_res) list \<Rightarrow> ptr list" where
  "live_objects es = fold live_step es []"

lemma live_objects_snoc: "live_objects (es @ [e]) = live_step e (live_objects es)"
  by (simp add: live_objects_def)

lemma live_objects_step:
  assumes wf: "pool_wf d" and cl: "claims pool_monitor op \<inter> used pool_monitor d = {}"
    and inv: "distinct (live_objects es) \<and> set (live_objects es) = outstanding d"
    and run: "run_section (sect pool_monitor op) d = Returns d' r"
  shows "distinct (live_objects (es @ [(t, op, r)])) \<and>
    set (live_objects (es @ [(t, op, r)])) = outstanding d'"
proof (cases op)
  case Alloc
  show ?thesis
  proof (cases "mp_free_list d = NULL")
    case True
    then have "d' = d" "r = PtrRes NULL" using Alloc run by (auto simp: run_section_def section_defs)
    with Alloc inv show ?thesis by (simp add: live_objects_snoc)
  next
    case False
    from alloc_wf [OF wf False] obtain nxt where n: "mp_cells d (mp_free_list d) = Some nxt" by blast
    then have "r = PtrRes (mp_free_list d)" and d': "d' = d\<lparr>mp_free_list := nxt,
        mp_allocated_count := mp_allocated_count d + 1,
        mp_cells := (mp_cells d)(mp_free_list d := None)\<rparr>"
      using Alloc run False by (auto simp: run_section_def section_defs Let_def)
    moreover have "outstanding d' = insert (mp_free_list d) (outstanding d)"
      "mp_free_list d \<notin> outstanding d"
      using outstanding_alloc [OF wf n] unfolding d' by blast+
    ultimately show ?thesis using Alloc False inv by (simp add: live_objects_snoc)
  qed
next
  case (Free p)
  with cl have "p \<in> outstanding d" by simp
  from free_wf [OF wf this] have "d' = d\<lparr>mp_cells := (mp_cells d)(p \<mapsto> mp_free_list d),
      mp_free_list := p, mp_allocated_count := mp_allocated_count d - 1\<rparr>"
    using Free run by (auto simp: run_section_def section_defs)
  then have "outstanding d' = outstanding d - {p}" by (simp only: outstanding_free)
  with Free inv show ?thesis by (simp add: live_objects_snoc distinct_removeAll)
next
  case Allocated
  then have "d' = d" using run by (simp add: run_section_def section_defs)
  with Allocated inv show ?thesis by (simp add: live_objects_snoc)
next
  case Available
  then have "d' = d" using run by (simp add: run_section_def section_defs)
  with Available inv show ?thesis by (simp add: live_objects_snoc)
qed


text \<open>A pool of two objects of eight bytes, as created.\<close>

definition example_pool :: memory_pool where
  "example_pool = \<lparr>mp_memory = 4096, mp_memory_size = 16, mp_object_size = 8, mp_total_count = 2,
     mp_free_list = 4104, mp_allocated_count = 0, mp_cells = [4096 \<mapsto> 0, 4104 \<mapsto> 4096]\<rparr>"

lemma two_loops: "link_objects 2 p pool = link_objects (Suc (Suc 0)) p pool" "{..<2 :: nat} = {0, 1}"
  by (simp only: numeral_2_eq_2) auto

lemma example_pool_created: "memory_pool_create 16 4096 0 8 2 {} = Returns {4096, 16} (Some example_pool)"
  by (simp add: memory_pool_create_def Let_def sizeof_ptr_def align_up_def in_block_def
      example_pool_def two_loops)

lemma slots_example [simp]:
  "mp_memory pool = 4096 \<Longrightarrow> mp_object_size pool = 8 \<Longrightarrow> mp_total_count pool = 2 \<Longrightarrow> slots pool = {4096, 4104}"
  by (auto simp: slots_def slot_def two_loops)

lemma example_pool_wf: "pool_wf example_pool" "outstanding example_pool = {}"
proof -
  have s: "slots example_pool = {4096, 4104}" by (simp add: example_pool_def)
  show "outstanding example_pool = {}"
    unfolding outstanding_def s by (simp add: example_pool_def)
  show "pool_wf example_pool"
    unfolding pool_wf_def s
    by (intro conjI exI [of _ "[4104, 4096]"]) (auto simp: example_pool_def pool_layout_def)
qed

text \<open>Two threads allocate at the same time, then the first one frees its object.\<close>

definition example_pool_run :: "(tid \<times> pool_op action) list" where
  "example_pool_run =
     [(0, Call Alloc), (1, Call Alloc), (0, Go), (0, Go), (0, Go), (0, Go), (0, Go), (0, Go), (0, Return),
      (1, Go), (1, Go), (1, Go), (1, Go), (1, Go), (1, Go), (0, Call (Free 4104)), (0, Go), (0, Go),
      (0, Go), (0, Go)]"


end
