(* ===== verification/Pthread.thy ===== *)
theory Pthread
  imports Platform
begin

text \<open>
  The pthread mutexes and condition variables as the library uses them through sync.c, with the
  behaviour POSIX documents. A mutex knows its type and its owner; a condition variable knows the
  threads that wait on it, each with its deadline if it has one. What the system decides (whether
  an initialisation succeeds, which waiter a signal wakes) is an argument. A call that sleeps is
  split in two: the part up to the sleep, with result None, and the part after the wake-up.
\<close>

datatype mutex_type = PTHREAD_MUTEX_NORMAL | PTHREAD_MUTEX_ERRORCHECK

record pthread_mutex =
  pm_type :: mutex_type
  pm_owner :: "tid option"

record pthread_cond =
  pc_waiters :: "tid \<Rightarrow> timespec option option"

definition pthread_mutex_init :: "int \<Rightarrow> mutex_type \<Rightarrow> pthread_mutex \<Rightarrow> (pthread_mutex, int) outcome" where
  "pthread_mutex_init ret ty m =
     Returns (if ret = 0 then \<lparr>pm_type = ty, pm_owner = None\<rparr> else m) ret"

definition pthread_mutex_destroy :: "pthread_mutex \<Rightarrow> (pthread_mutex, int) outcome" where
  "pthread_mutex_destroy m = (case pm_owner m of None \<Rightarrow> Returns m 0 | Some _ \<Rightarrow> Returns m EBUSY)"

definition pthread_mutex_lock :: "platform \<Rightarrow> tid \<Rightarrow> pthread_mutex \<Rightarrow> (pthread_mutex, int) outcome" where
  "pthread_mutex_lock p self m =
     (case pm_owner m of
        None \<Rightarrow> Returns (m\<lparr>pm_owner := Some self\<rparr>) 0
      | Some t \<Rightarrow>
          if t = self \<and> pm_type m = PTHREAD_MUTEX_ERRORCHECK then Returns m (EDEADLK p) else Blocks)"

definition pthread_mutex_trylock :: "tid \<Rightarrow> pthread_mutex \<Rightarrow> (pthread_mutex, int) outcome" where
  "pthread_mutex_trylock self m =
     (case pm_owner m of
        None \<Rightarrow> Returns (m\<lparr>pm_owner := Some self\<rparr>) 0
      | Some t \<Rightarrow> Returns m EBUSY)"

definition pthread_mutex_unlock :: "tid \<Rightarrow> pthread_mutex \<Rightarrow> (pthread_mutex, int) outcome" where
  "pthread_mutex_unlock self m =
     (if pm_owner m = Some self then Returns (m\<lparr>pm_owner := None\<rparr>) 0
      else if pm_type m = PTHREAD_MUTEX_ERRORCHECK then Returns m EPERM
      else Undefined)"

definition pthread_cond_init :: "int \<Rightarrow> pthread_cond \<Rightarrow> (pthread_cond, int) outcome" where
  "pthread_cond_init ret c = Returns (if ret = 0 then \<lparr>pc_waiters = Map.empty\<rparr> else c) ret"

text \<open>Destroying a condition variable that threads wait on is undefined.\<close>

definition pthread_cond_destroy :: "pthread_cond \<Rightarrow> (pthread_cond, int) outcome" where
  "pthread_cond_destroy c = (if pc_waiters c = Map.empty then Returns c 0 else Undefined)"

definition pthread_cond_wait ::
  "tid \<Rightarrow> timespec option \<Rightarrow> pthread_cond \<times> pthread_mutex \<Rightarrow>
   (pthread_cond \<times> pthread_mutex, int option) outcome" where
  "pthread_cond_wait self deadline cm =
     (let c = fst cm; m = snd cm in
      if pm_owner m = Some self
      then Returns (c\<lparr>pc_waiters := (pc_waiters c)(self \<mapsto> deadline)\<rparr>, m\<lparr>pm_owner := None\<rparr>) None
      else if pm_type m = PTHREAD_MUTEX_ERRORCHECK then Returns cm (Some EPERM)
      else Undefined)"

text \<open>After the wake-up (\<open>ret\<close> is 0, or ETIMEDOUT for a passed deadline) the mutex is locked again.\<close>

definition pthread_cond_resume ::
  "tid \<Rightarrow> int \<Rightarrow> pthread_cond \<times> pthread_mutex \<Rightarrow> (pthread_cond \<times> pthread_mutex, int) outcome" where
  "pthread_cond_resume self ret cm =
     (case pm_owner (snd cm) of
        None \<Rightarrow> Returns ((fst cm)\<lparr>pc_waiters := (pc_waiters (fst cm))(self := None)\<rparr>,
                  (snd cm)\<lparr>pm_owner := Some self\<rparr>) ret
      | Some _ \<Rightarrow> Blocks)"

text \<open>\<open>w\<close> is the waiter the system picks.\<close>

definition pthread_cond_signal :: "tid \<Rightarrow> pthread_cond \<Rightarrow> (pthread_cond, int) outcome" where
  "pthread_cond_signal w c = Returns (c\<lparr>pc_waiters := (pc_waiters c)(w := None)\<rparr>) 0"

definition pthread_cond_broadcast :: "pthread_cond \<Rightarrow> (pthread_cond, int) outcome" where
  "pthread_cond_broadcast c = Returns (c\<lparr>pc_waiters := Map.empty\<rparr>) 0"

named_theorems pthread_defs \<open>definitions of the pthread calls\<close>

lemmas [pthread_defs] = pthread_mutex_init_def pthread_mutex_destroy_def pthread_mutex_lock_def
  pthread_mutex_trylock_def pthread_mutex_unlock_def pthread_cond_init_def pthread_cond_destroy_def
  pthread_cond_wait_def pthread_cond_resume_def pthread_cond_signal_def pthread_cond_broadcast_def

end
