(* ===== verification/Monitor_Wakeup.thy ===== *)
theory Monitor_Wakeup
  imports Monitor_Laws
begin

text \<open>
  Freedom from lost wake-ups. \<open>avail c d\<close> says how many threads that wait on the condition variable
  \<open>c\<close> could proceed in \<open>d\<close>: the items of a queue for its consumers, the free slots for its
  producers, infinitely many when the loop condition is off for good. The invariant: while threads
  sleep on \<open>c\<close>, at most as many could proceed as are already on their way (\<open>ready\<close>) or are about
  to be woken by the thread in the critical section (\<open>due\<close>).
\<close>

definition sleepers :: "'c \<Rightarrow> ('op, 'd, 'c, 'r) msys \<Rightarrow> tid set" where
  "sleepers c s = {t. \<exists>op. mpcs s t = Asleep op c}"

definition ready :: "('op, 'd, 'c, 'r) monitor \<Rightarrow> 'c \<Rightarrow> ('op, 'd, 'c, 'r) msys \<Rightarrow> tid set" where
  "ready M c s = {t. \<exists>op. mpcs s t = Woken op c \<or>
     can_wait M op c \<and> (mpcs s t = Testing op \<or> mpcs s t = Acting op)}"

fun notices :: "'c \<Rightarrow> 'c notice list \<Rightarrow> enat" where
  "notices c [] = 0"
| "notices c (Signal c' # ns) = (if c' = c then 1 else 0) + notices c ns"
| "notices c (Broadcast c' # ns) = (if c' = c then \<infinity> else notices c ns)"

fun pc_notices :: "'c \<Rightarrow> ('op, 'c, 'r) mpc \<Rightarrow> enat" where
  "pc_notices c (Notifying op ns r) = notices c ns"
| "pc_notices c p = 0"

definition due :: "'c \<Rightarrow> ('op, 'd, 'c, 'r) msys \<Rightarrow> enat" where
  "due c s = (case owner s of None \<Rightarrow> 0 | Some t \<Rightarrow> pc_notices c (mpcs s t))"

definition wake_inv ::
  "('op, 'd, 'c, 'r) monitor \<Rightarrow> ('c \<Rightarrow> 'd \<Rightarrow> enat) \<Rightarrow> ('op, 'd, 'c, 'r) msys \<Rightarrow> bool" where
  "wake_inv M avail s \<longleftrightarrow>
     (\<forall>c. sleepers c s \<noteq> {} \<longrightarrow> avail c (mdata s) \<le> enat (card (ready M c s)) + due c s)"

lemma finite_ready: "finite {t. mpcs s t \<noteq> Outside} \<Longrightarrow> finite (ready M c s)"
  by (rule rev_finite_subset) (auto simp: ready_def)

lemma pc_notices_wake [simp]: "pc_notices c (wake c' p) = pc_notices c p"
  by (cases p) auto

text \<open>A step that only adds to those on their way keeps the account.\<close>

lemma wake_account_mono:
  assumes "avail c (mdata s) \<le> enat (card (ready M c s)) + due c s"
    and "mdata s' = mdata s" and "ready M c s \<subseteq> ready M c s'" and "finite (ready M c s')"
    and "due c s \<le> due c s'"
  shows "avail c (mdata s') \<le> enat (card (ready M c s')) + due c s'"
proof -
  have "enat (card (ready M c s)) \<le> enat (card (ready M c s'))"
    using assms(3,4) by (simp add: card_mono)
  then have "enat (card (ready M c s)) + due c s \<le> enat (card (ready M c s')) + due c s'"
    using assms(5) by (rule add_mono)
  with assms(1) show ?thesis unfolding assms(2) by (rule order_trans)
qed

lemma lock_inv_owner: "lock_inv s \<Longrightarrow> holding (mpcs s t) \<Longrightarrow> owner s = Some t"
  by (simp add: lock_inv_def)

lemma enat_minus_one_card:
  assumes "a \<le> enat (Suc n)" shows "a - 1 \<le> enat n"
  using assms by (cases a) (auto simp: one_enat_def)

text \<open>
  The quiet steps: all but falling asleep, waking others, leaving the loop and running the body.
\<close>

lemma step_quiet:
  assumes st: "mstep M t s s'" and li: "lock_inv s" and nc: "\<forall>op. mpcs s' t \<noteq> Crashed op"
    and q: "(\<forall>op. mpcs s t \<noteq> Acting op)" "(\<forall>op n ns r. mpcs s t \<noteq> Notifying op (n # ns) r)"
      "(\<forall>op c. mpcs s' t \<noteq> Asleep op c)"
  shows "mdata s' = mdata s \<and> sleepers c s' \<subseteq> sleepers c s \<and>
    due c s' = due c s \<and> (tests_inv M s \<longrightarrow> ready M c s \<subseteq> ready M c s')"
  using st
proof (cases rule: mstep.cases)
  case (lock op)
  then show ?thesis by (auto simp: sleepers_def ready_def due_def)
next
  case (entry_return op r)
  then show ?thesis using lock_inv_owner [OF li, of t] by (auto simp: sleepers_def ready_def due_def)
next
  case (entry_pass op)
  then show ?thesis using lock_inv_owner [OF li, of t] by (auto simp: sleepers_def ready_def due_def)
next
  case (pass op)
  then show ?thesis using lock_inv_owner [OF li, of t] by (auto simp: sleepers_def ready_def due_def)
next
  case (spurious op c')
  then have "owner s \<noteq> Some t" using li by (metis holding.simps(9) lock_inv_def)
  with spurious show ?thesis
    by (auto simp: sleepers_def ready_def due_def split: option.splits)
next
  case (relock op c')
  then show ?thesis by (auto simp: sleepers_def ready_def due_def tests_inv_def)
next
  case (notified op r)
  then show ?thesis using lock_inv_owner [OF li, of t] by (auto simp: sleepers_def ready_def due_def)
next
  case (unlock op r)
  then show ?thesis using lock_inv_owner [OF li, of t] by (auto simp: sleepers_def ready_def due_def)
qed (use q nc in auto)


text \<open>Waking one or all sleepers of \<open>c\<close> moves them from asleep to on their way.\<close>

lemma signal_account:
  assumes st: "mpcs s t = Notifying op (Signal c # ns) r" "mpcs s w = Asleep op' c"
    and li: "lock_inv s" and fin: "finite (ready M b s)"
    and s': "s' = s\<lparr>mpcs := (mpcs s)(t := Notifying op ns r, w := Woken op' c)\<rparr>"
    and inv: "sleepers b s \<noteq> {} \<longrightarrow> avail b (mdata s) \<le> enat (card (ready M b s)) + due b s"
  shows "sleepers b s' \<noteq> {} \<longrightarrow> avail b (mdata s') \<le> enat (card (ready M b s')) + due b s'"
proof
  assume ne: "sleepers b s' \<noteq> {}"
  have "w \<noteq> t" using st by auto
  have o: "owner s = Some t" using lock_inv_owner [OF li, of t] st by simp
  have sub: "sleepers b s' \<subseteq> sleepers b s" using \<open>w \<noteq> t\<close> by (auto simp: s' sleepers_def split: if_splits)
  with ne inv have a: "avail b (mdata s) \<le> enat (card (ready M b s)) + due b s" by blast
  show "avail b (mdata s') \<le> enat (card (ready M b s')) + due b s'"
  proof (cases "b = c")
    case True
    have "ready M b s' = insert w (ready M b s)"
      using \<open>w \<noteq> t\<close> st True by (auto simp: s' ready_def)
    moreover have "w \<notin> ready M b s" using st by (auto simp: ready_def)
    ultimately have "enat (card (ready M b s')) = enat (card (ready M b s)) + 1"
      using fin by (simp add: one_enat_def)
    moreover have "due b s = 1 + due b s'" using o st \<open>w \<noteq> t\<close> True by (simp add: due_def s')
    ultimately show ?thesis using a by (simp add: s' add.assoc)
  next
    case False
    have "ready M b s' = ready M b s" using \<open>w \<noteq> t\<close> st False by (auto simp: s' ready_def)
    moreover have "due b s' = due b s" using o st \<open>w \<noteq> t\<close> False by (simp add: due_def s')
    ultimately show ?thesis using a by (simp add: s')
  qed
qed

lemma other_notice_account:
  assumes st: "mpcs s t = Notifying op (n # ns) r" and n: "n = Signal c \<or> n = Broadcast c"
    and li: "lock_inv s" and b: "b \<noteq> c"
    and s': "s' = s\<lparr>mpcs := p(t := Notifying op ns r)\<rparr>" and p: "p = mpcs s \<or> p = wake c \<circ> mpcs s"
    and inv: "sleepers b s \<noteq> {} \<longrightarrow> avail b (mdata s) \<le> enat (card (ready M b s)) + due b s"
  shows "sleepers b s' \<noteq> {} \<longrightarrow> avail b (mdata s') \<le> enat (card (ready M b s')) + due b s'"
proof -
  have o: "owner s = Some t" using lock_inv_owner [OF li, of t] st by simp
  have "sleepers b s' = sleepers b s" using st p b by (auto simp: s' sleepers_def)
  moreover have "ready M b s' = ready M b s" using st p b by (auto simp: s' ready_def)
  moreover have "due b s' = due b s" using o st n b by (auto simp: due_def s')
  ultimately show ?thesis using inv by (simp add: s')
qed

section \<open>The laws of wake-ups\<close>

locale monitor_wakeup = monitor_laws M I
  for M :: "('op, 'd, 'c, 'r) monitor" and I :: "'d \<Rightarrow> bool" +
  fixes avail :: "'c \<Rightarrow> 'd \<Rightarrow> enat"
  assumes one_cond: "can_wait M op c \<Longrightarrow> can_wait M op c' \<Longrightarrow> c' = c"
    and guard_avail: "I d \<Longrightarrow> can_wait M op c \<Longrightarrow> cs_guard (sect M op) d = Some c \<longleftrightarrow> avail c d = 0"
    and leave_avail: "I d \<Longrightarrow> can_wait M op c \<Longrightarrow> cs_guard (sect M op) d = None \<Longrightarrow>
      cs_leave (sect M op) d = Some r \<Longrightarrow> avail c d = \<infinity>"
    and body_avail: "I d \<Longrightarrow> cs_entry (sect M op) d = None \<Longrightarrow> cs_guard (sect M op) d = None \<Longrightarrow>
      cs_leave (sect M op) d = None \<Longrightarrow> cs_body (sect M op) d = Some (d', r) \<Longrightarrow>
      avail c d' \<le> (avail c d - (if can_wait M op c then 1 else 0))
        + notices c (cs_notify (sect M op) d')"
begin

lemma sleep_account:
  assumes st: "mpcs s t = Testing op" "cs_guard (sect M op) (mdata s) = Some c"
    and li: "lock_inv s" and i: "I (mdata s)"
    and s': "s' = s\<lparr>owner := None, mpcs := (mpcs s)(t := Asleep op c)\<rparr>"
    and inv: "sleepers b s \<noteq> {} \<longrightarrow> avail b (mdata s) \<le> enat (card (ready M b s)) + due b s"
  shows "sleepers b s' \<noteq> {} \<longrightarrow> avail b (mdata s') \<le> enat (card (ready M b s')) + due b s'"
proof (cases "b = c")
  case True
  have "can_wait M op c" using st by (auto simp: can_wait_def)
  with guard_avail [OF i] st have "avail c (mdata s) = 0" by blast
  with True show ?thesis by (simp add: s')
next
  case False
  have "\<not> can_wait M op b" using st one_cond [of op c b] False by (auto simp: can_wait_def)
  then have "ready M b s' = ready M b s" using st False by (auto simp: s' ready_def)
  moreover have "sleepers b s' = sleepers b s" using st False by (auto simp: s' sleepers_def)
  moreover have "due b s' = due b s"
    using lock_inv_owner [OF li, of t] st by (simp add: due_def s')
  ultimately show ?thesis using inv by (simp add: s')
qed

lemma leave_account:
  assumes st: "mpcs s t = Acting op" "cs_leave (sect M op) (mdata s) = Some r"
    and g: "cs_guard (sect M op) (mdata s) = None"
    and li: "lock_inv s" and i: "I (mdata s)" and fin: "finite (ready M b s)"
    and s': "s' = s\<lparr>mpcs := (mpcs s)(t := Releasing op r), mlog := l\<rparr>"
    and inv: "sleepers b s \<noteq> {} \<longrightarrow> avail b (mdata s) \<le> enat (card (ready M b s)) + due b s"
  shows "sleepers b s' \<noteq> {} \<longrightarrow> avail b (mdata s') \<le> enat (card (ready M b s')) + due b s'"
proof -
  have o: "owner s = Some t" using lock_inv_owner [OF li, of t] st by simp
  have sl: "sleepers b s' = sleepers b s" using st by (auto simp: s' sleepers_def)
  have du: "due b s = 0" "due b s' = 0" using o st by (auto simp: due_def s')
  show ?thesis
  proof (cases "can_wait M op b")
    case True
    with leave_avail [OF i _ g st(2)] have "avail b (mdata s) = \<infinity>" by blast
    with inv du have "sleepers b s = {}" by auto
    with sl show ?thesis by simp
  next
    case False
    then have "ready M b s' = ready M b s" using st by (auto simp: s' ready_def)
    with sl du inv show ?thesis by (simp add: s')
  qed
qed

lemma act_account:
  assumes st: "mpcs s t = Acting op" "cs_leave (sect M op) (mdata s) = None"
      "cs_body (sect M op) (mdata s) = Some (d', r)"
    and li: "lock_inv s" and i: "I (mdata s)" and ti: "tests_inv M s" and fin: "finite (ready M b s)"
    and s': "s' = s\<lparr>mdata := d', mpcs := (mpcs s)(t := Notifying op (cs_notify (sect M op) d') r),
      mlog := l\<rparr>"
    and inv: "sleepers b s \<noteq> {} \<longrightarrow> avail b (mdata s) \<le> enat (card (ready M b s)) + due b s"
  shows "sleepers b s' \<noteq> {} \<longrightarrow> avail b (mdata s') \<le> enat (card (ready M b s')) + due b s'"
proof
  assume "sleepers b s' \<noteq> {}"
  moreover have "sleepers b s' = sleepers b s" using st by (auto simp: s' sleepers_def)
  moreover have o: "owner s = Some t" using lock_inv_owner [OF li, of t] st by simp
  then have du: "due b s = 0" "due b s' = notices b (cs_notify (sect M op) d')"
    using st by (auto simp: due_def s')
  ultimately have a: "avail b (mdata s) \<le> enat (card (ready M b s))" using inv by simp
  have rd: "ready M b s' = ready M b s - {t}" using st by (auto simp: s' ready_def)
  let ?k = "if can_wait M op b then 1 else 0 :: enat"
  have "avail b (mdata s) - ?k \<le> enat (card (ready M b s'))"
  proof (cases "can_wait M op b")
    case True
    then have "t \<in> ready M b s" using st by (auto simp: ready_def)
    with fin have "card (ready M b s) = Suc (card (ready M b s'))"
      unfolding rd by (rule card_remove_Suc)
    with a True show ?thesis by (simp add: enat_minus_one_card)
  next
    case False
    then have "t \<notin> ready M b s" using st by (auto simp: ready_def)
    then have "ready M b s' = ready M b s" using rd by simp
    with a False show ?thesis by simp
  qed
  then have "(avail b (mdata s) - ?k) + notices b (cs_notify (sect M op) d') \<le>
      enat (card (ready M b s')) + due b s'"
    unfolding du by (rule add_right_mono)
  moreover have "avail b d' \<le> (avail b (mdata s) - ?k) + notices b (cs_notify (sect M op) d')"
    using acting_entry [OF ti st(1,2)] by (intro body_avail [OF i _ _ st(2,3)]) auto
  ultimately show "avail b (mdata s') \<le> enat (card (ready M b s')) + due b s'"
    by (simp add: s')
qed

lemma wake_inv_step:
  assumes st: "mstep M t s s'" and li: "lock_inv s" and g: "good d0 s" and g': "good d0 s'"
    and fin: "finite {t. mpcs s t \<noteq> Outside}" and fin': "finite {t. mpcs s' t \<noteq> Outside}"
    and inv: "wake_inv M avail s"
  shows "wake_inv M avail s'"
  unfolding wake_inv_def
proof
  fix b
  have ti: "tests_inv M s" and i: "I (mdata s)" using g by (auto simp: good_def)
  have nc: "\<forall>op. mpcs s' t \<noteq> Crashed op" using g' by (auto simp: good_def)
  have fr: "finite (ready M b s)" by (rule finite_ready [OF fin])
  have inv: "sleepers b s \<noteq> {} \<longrightarrow> avail b (mdata s) \<le> enat (card (ready M b s)) + due b s"
    using inv by (simp add: wake_inv_def)
  have quiet: "sleepers b s' \<noteq> {} \<longrightarrow> avail b (mdata s') \<le> enat (card (ready M b s')) + due b s'"
    if "(\<forall>op. mpcs s t \<noteq> Acting op)"
      "(\<forall>op n ns r. mpcs s t \<noteq> Notifying op (n # ns) r)" "(\<forall>op c. mpcs s' t \<noteq> Asleep op c)"
    using step_quiet [OF st li nc that, of b] ti inv
      wake_account_mono [of avail b s M s', OF _ _ _ finite_ready [OF fin']] by auto
  show "sleepers b s' \<noteq> {} \<longrightarrow> avail b (mdata s') \<le> enat (card (ready M b s')) + due b s'"
    using st
  proof (cases rule: mstep.cases)
    case (sleep op c)
    then show ?thesis by (intro sleep_account [OF sleep(2,3) li i sleep(1) inv])
  next
    case (leave_return op r)
    then have "cs_guard (sect M op) (mdata s) = None" using ti by (simp add: tests_inv_def)
    with leave_return show ?thesis by (intro leave_account [OF leave_return(2,3) _ li i fr leave_return(1) inv])
  next
    case (act op d' r)
    then show ?thesis by (intro act_account [OF act(2-4) li i ti fr act(1) inv])
  next
    case (crash op)
    then show ?thesis using nc by simp
  next
    case (signal_wakes op c ns r w op')
    then show ?thesis by (intro signal_account [where avail = avail and b = b, OF signal_wakes(2,3) li fr signal_wakes(1) inv])
  next
    case (signal_idle op c ns r)
    show ?thesis
    proof (cases "b = c")
      case True
      then show ?thesis using signal_idle by (auto simp: sleepers_def split: if_splits)
    next
      case False
      then show ?thesis by (intro other_notice_account [where avail = avail and b = b, OF signal_idle(2) _ li _ signal_idle(1) _ inv]) auto
    qed
  next
    case (broadcast op c ns r)
    show ?thesis
    proof (cases "b = c")
      case True
      then show ?thesis using broadcast by (auto simp: sleepers_def split: if_splits)
    next
      case False
      then show ?thesis by (intro other_notice_account [where avail = avail and b = b, OF broadcast(2) _ li _ broadcast(1) _ inv]) auto
    qed
  qed (rule quiet; simp)+
qed

lemma reach_wake_inv:
  assumes "mreach M d0 s" and "I d0"
  shows "wake_inv M avail s"
  using assms
proof (induction rule: mreach.induct)
  case init
  then show ?case by (simp add: wake_inv_def init_msys_def sleepers_def)
next
  case (inside s t s')
  have r': "mreach M d0 s'" using inside.hyps by (rule mreach.inside)
  show ?case
    using inside finite_inside [OF r'] finite_inside [OF inside.hyps(1)] good_reach [OF r']
    by (intro wake_inv_step [OF inside.hyps(2) lock_inv_reach [OF inside.hyps(1)]
          good_reach [OF inside.hyps(1)]]) auto
next
  case (call s t op)
  then have "mpcs s t = Outside" by (simp add: can_call_def)
  then have "sleepers c (m_call t op s) = sleepers c s" "ready M c (m_call t op s) = ready M c s"
    "due c (m_call t op s) = due c s" for c
    by (auto simp: m_call_def sleepers_def ready_def due_def split: option.splits)
  with call show ?case by (simp add: wake_inv_def m_call_def)
next
  case (return s t op r)
  then have "sleepers c (m_return t s) = sleepers c s" "ready M c (m_return t s) = ready M c s"
    "due c (m_return t s) = due c s" for c
    by (auto simp: m_return_def sleepers_def ready_def due_def split: option.splits)
  with return show ?case by (simp add: wake_inv_def m_return_def)
qed

text \<open>
  No wake-up is lost: a sleeper whose loop condition is off always has company, a thread on its way
  from the same condition variable or a notice that the lock's owner is about to give.
\<close>

lemma sleeper_has_company:
  assumes r: "mreach M d0 s" and i: "I d0" and sl: "mpcs s t = Asleep op c"
    and g: "cs_guard (sect M op) (mdata s) \<noteq> Some c"
  shows "ready M c s \<noteq> {} \<or> due c s \<noteq> 0"
proof (rule ccontr)
  assume "\<not> ?thesis"
  then have e: "ready M c s = {}" "due c s = 0" by auto
  have "can_wait M op c" using good_reach [OF r i] sl by (auto simp: good_def tests_inv_def)
  with guard_avail [OF reach_invariant [OF r i]] g have "avail c (mdata s) \<noteq> 0" by blast
  moreover have "sleepers c s \<noteq> {}" using sl by (auto simp: sleepers_def)
  then have "avail c (mdata s) \<le> 0"
    using reach_wake_inv [OF r i] e unfolding wake_inv_def
    by (metis add.right_neutral card.empty zero_enat_def)
  ultimately show False by simp
qed

text \<open>When every thread is outside or asleep, each sleeper's loop condition really holds.\<close>

lemma quiescent_sleepers_blocked:
  assumes r: "mreach M d0 s" and i: "I d0" and sl: "mpcs s t = Asleep op c"
    and q: "\<forall>u. mpcs s u = Outside \<or> (\<exists>op c. mpcs s u = Asleep op c) \<or>
      (\<exists>op r. mpcs s u = Returning op r)"
  shows "cs_guard (sect M op) (mdata s) = Some c"
proof (rule ccontr)
  assume g: "cs_guard (sect M op) (mdata s) \<noteq> Some c"
  have "u \<notin> ready M c s" for u using q [rule_format, of u] by (auto simp: ready_def)
  then have "ready M c s = {}" by blast
  moreover have "due c s = 0"
  proof (cases "owner s")
    case (Some u)
    then have "holding (mpcs s u)" using lock_inv_reach [OF r] by (simp add: lock_inv_def)
    with q [rule_format, of u] show ?thesis by auto
  qed (simp add: due_def)
  ultimately show False using sleeper_has_company [OF r i sl g] by blast
qed

text \<open>A sleeper whose loop condition is off is never the end: a thread that is awake can step.\<close>

lemma sleeper_progress:
  assumes r: "mreach M d0 s" and i: "I d0" and sl: "mpcs s t = Asleep op c"
    and g: "cs_guard (sect M op) (mdata s) \<noteq> Some c"
  shows "\<exists>u s'. mstep M u s s' \<and> (\<forall>op c. mpcs s u \<noteq> Asleep op c)"
proof -
  have "\<exists>u. mpcs s u \<noteq> Outside \<and> (\<forall>op c. mpcs s u \<noteq> Asleep op c) \<and>
      (\<forall>op r. mpcs s u \<noteq> Returning op r)"
    using sleeper_has_company [OF r i sl g]
  proof
    assume "ready M c s \<noteq> {}"
    then show ?thesis by (auto simp: ready_def) (metis mpc.distinct mpc.exhaust)+
  next
    assume d: "due c s \<noteq> 0"
    then obtain u where "owner s = Some u" "pc_notices c (mpcs s u) \<noteq> 0"
      by (auto simp: due_def split: option.splits)
    then show ?thesis by (intro exI [of _ u]) (cases "mpcs s u"; simp)
  qed
  then obtain u where "mpcs s u \<noteq> Outside" "\<forall>op c. mpcs s u \<noteq> Asleep op c"
    "\<forall>op r. mpcs s u \<noteq> Returning op r" by blast
  from some_thread_moves [OF r this] reach_no_crash [OF r i] show ?thesis by blast
qed

end

end
