(* ===== verification/Sync.thy ===== *)
theory Sync
  imports Pthread Monitor_Wakeup Monitor_Exec
begin

text \<open>
  sync.c: mutexes, condition variables and semaphores. Objects live in a heap, one per type; a
  pointer to a block that is not live makes the call undefined. Mutexes and condition variables
  wrap the pthread objects; a semaphore is a counter with its own lock and condition variable, and
  its operations are the critical sections of a monitor.
\<close>

section \<open>Heaps of objects\<close>

type_synonym 'a heap = "ptr \<Rightarrow> 'a option"

definition deref :: "'a heap \<Rightarrow> ptr \<Rightarrow> ('a \<Rightarrow> ('a, 'r) outcome) \<Rightarrow> ('a heap, 'r) outcome" where
  "deref h p f = (case h p of None \<Rightarrow> Undefined
     | Some x \<Rightarrow> bind_outcome (f x) (\<lambda>x' r. Returns (h(p \<mapsto> x')) r))"

lemma deref_live [simp]: "h p = Some x \<Longrightarrow> deref h p f = bind_outcome (f x) (\<lambda>x' r. Returns (h(p \<mapsto> x')) r)"
  by (simp add: deref_def)

section \<open>Mutexes\<close>

record sync_mutex =
  sm_lock :: pthread_mutex
  sm_initialized :: bool

definition sync_mutex_init :: "platform \<Rightarrow> int \<Rightarrow> ptr \<Rightarrow> sync_mutex heap \<Rightarrow> (sync_mutex heap, int) outcome" where
  "sync_mutex_init p init_ret mutex h =
     (if mutex = NULL then Returns h ERROR_INVALID
      else deref h mutex (\<lambda>m.
        bind_outcome (pthread_mutex_init init_ret PTHREAD_MUTEX_ERRORCHECK (sm_lock m)) (\<lambda>l ret.
          let m1 = m\<lparr>sm_lock := l\<rparr>;
              m2 = (if ret = 0 then m1\<lparr>sm_initialized := True\<rparr> else m1)
          in Returns m2 (map_pthread_error p ret))))"

definition sync_mutex_destroy :: "platform \<Rightarrow> ptr \<Rightarrow> sync_mutex heap \<Rightarrow> (sync_mutex heap, int) outcome" where
  "sync_mutex_destroy p mutex h =
     (if mutex = NULL then Returns h ERROR_INVALID
      else deref h mutex (\<lambda>m.
        if \<not> sm_initialized m then Returns m ERROR_INVALID
        else bind_outcome (pthread_mutex_destroy (sm_lock m)) (\<lambda>l ret.
          let m1 = m\<lparr>sm_lock := l\<rparr>;
              m2 = (if ret = 0 then m1\<lparr>sm_initialized := False\<rparr> else m1)
          in Returns m2 (map_pthread_error p ret))))"

text \<open>Lines 60 to 82: lock, trylock and unlock differ in the pthread call only.\<close>

definition sync_mutex_op ::
  "platform \<Rightarrow> (pthread_mutex \<Rightarrow> (pthread_mutex, int) outcome) \<Rightarrow> ptr \<Rightarrow> sync_mutex heap \<Rightarrow>
   (sync_mutex heap, int) outcome" where
  "sync_mutex_op p f mutex h =
     (if mutex = NULL then Returns h ERROR_INVALID
      else deref h mutex (\<lambda>m.
        if \<not> sm_initialized m then Returns m ERROR_INVALID
        else bind_outcome (f (sm_lock m)) (\<lambda>l ret.
          Returns (m\<lparr>sm_lock := l\<rparr>) (map_pthread_error p ret))))"

definition sync_mutex_lock :: "platform \<Rightarrow> tid \<Rightarrow> ptr \<Rightarrow> sync_mutex heap \<Rightarrow> (sync_mutex heap, int) outcome" where
  "sync_mutex_lock p self = sync_mutex_op p (pthread_mutex_lock p self)"

definition sync_mutex_trylock :: "platform \<Rightarrow> tid \<Rightarrow> ptr \<Rightarrow> sync_mutex heap \<Rightarrow> (sync_mutex heap, int) outcome" where
  "sync_mutex_trylock p self = sync_mutex_op p (pthread_mutex_trylock self)"

definition sync_mutex_unlock :: "platform \<Rightarrow> tid \<Rightarrow> ptr \<Rightarrow> sync_mutex heap \<Rightarrow> (sync_mutex heap, int) outcome" where
  "sync_mutex_unlock p self = sync_mutex_op p (pthread_mutex_unlock self)"

named_theorems sync_defs \<open>definitions of sync.c\<close>

lemmas [sync_defs] = sync_mutex_init_def sync_mutex_destroy_def sync_mutex_op_def
  sync_mutex_lock_def sync_mutex_trylock_def sync_mutex_unlock_def

section \<open>Condition variables\<close>

record sync_cond =
  sc_cond :: pthread_cond
  sc_initialized :: bool

definition sync_cond_init :: "platform \<Rightarrow> int \<Rightarrow> ptr \<Rightarrow> sync_cond heap \<Rightarrow> (sync_cond heap, int) outcome" where
  "sync_cond_init p init_ret cond h =
     (if cond = NULL then Returns h ERROR_INVALID
      else deref h cond (\<lambda>c.
        bind_outcome (pthread_cond_init init_ret (sc_cond c)) (\<lambda>k ret.
          let c1 = c\<lparr>sc_cond := k\<rparr>;
              c2 = (if ret = 0 then c1\<lparr>sc_initialized := True\<rparr> else c1)
          in Returns c2 (map_pthread_error p ret))))"

definition sync_cond_destroy :: "platform \<Rightarrow> ptr \<Rightarrow> sync_cond heap \<Rightarrow> (sync_cond heap, int) outcome" where
  "sync_cond_destroy p cond h =
     (if cond = NULL then Returns h ERROR_INVALID
      else deref h cond (\<lambda>c.
        if \<not> sc_initialized c then Returns c ERROR_INVALID
        else bind_outcome (pthread_cond_destroy (sc_cond c)) (\<lambda>k ret.
          let c1 = c\<lparr>sc_cond := k\<rparr>;
              c2 = (if ret = 0 then c1\<lparr>sc_initialized := False\<rparr> else c1)
          in Returns c2 (map_pthread_error p ret))))"

text \<open>
  Both waits check the condition variable, then the mutex, then sleep; the checks dereference in
  this order. The result None is: asleep.
\<close>

definition sync_cond_wait_until ::
  "platform \<Rightarrow> tid \<Rightarrow> timespec option \<Rightarrow> ptr \<Rightarrow> ptr \<Rightarrow> sync_cond heap \<times> sync_mutex heap \<Rightarrow>
   (sync_cond heap \<times> sync_mutex heap, int option) outcome" where
  "sync_cond_wait_until p self deadline cond mutex h =
     (if cond = NULL then Returns h (Some ERROR_INVALID)
      else case fst h cond of None \<Rightarrow> Undefined | Some c \<Rightarrow>
      if \<not> sc_initialized c \<or> mutex = NULL then Returns h (Some ERROR_INVALID)
      else case snd h mutex of None \<Rightarrow> Undefined | Some m \<Rightarrow>
      if \<not> sm_initialized m then Returns h (Some ERROR_INVALID)
      else bind_outcome (pthread_cond_wait self deadline (sc_cond c, sm_lock m)) (\<lambda>kl ret.
        Returns ((fst h)(cond \<mapsto> c\<lparr>sc_cond := fst kl\<rparr>), (snd h)(mutex \<mapsto> m\<lparr>sm_lock := snd kl\<rparr>))
          (map_option (map_pthread_error p) ret)))"

definition sync_cond_wait ::
  "platform \<Rightarrow> tid \<Rightarrow> ptr \<Rightarrow> ptr \<Rightarrow> sync_cond heap \<times> sync_mutex heap \<Rightarrow>
   (sync_cond heap \<times> sync_mutex heap, int option) outcome" where
  "sync_cond_wait p self = sync_cond_wait_until p self None"

definition sync_cond_timedwait ::
  "platform \<Rightarrow> tid \<Rightarrow> timespec \<Rightarrow> u32 \<Rightarrow> ptr \<Rightarrow> ptr \<Rightarrow> sync_cond heap \<times> sync_mutex heap \<Rightarrow>
   (sync_cond heap \<times> sync_mutex heap, int option) outcome" where
  "sync_cond_timedwait p self now timeout_ms =
     sync_cond_wait_until p self (Some (platform_get_abstime p now timeout_ms))"

text \<open>What is left of a wait after the wake-up: lock again, translate the code.\<close>

definition sync_cond_resume ::
  "platform \<Rightarrow> tid \<Rightarrow> int \<Rightarrow> ptr \<Rightarrow> ptr \<Rightarrow> sync_cond heap \<times> sync_mutex heap \<Rightarrow>
   (sync_cond heap \<times> sync_mutex heap, int) outcome" where
  "sync_cond_resume p self ret cond mutex h =
     (case fst h cond of None \<Rightarrow> Undefined | Some c \<Rightarrow>
      case snd h mutex of None \<Rightarrow> Undefined | Some m \<Rightarrow>
      bind_outcome (pthread_cond_resume self ret (sc_cond c, sm_lock m)) (\<lambda>kl ret.
        Returns ((fst h)(cond \<mapsto> c\<lparr>sc_cond := fst kl\<rparr>), (snd h)(mutex \<mapsto> m\<lparr>sm_lock := snd kl\<rparr>))
          (map_pthread_error p ret)))"

definition sync_cond_notify ::
  "platform \<Rightarrow> (pthread_cond \<Rightarrow> (pthread_cond, int) outcome) \<Rightarrow> ptr \<Rightarrow> sync_cond heap \<Rightarrow>
   (sync_cond heap, int) outcome" where
  "sync_cond_notify p f cond h =
     (if cond = NULL then Returns h ERROR_INVALID
      else deref h cond (\<lambda>c.
        if \<not> sc_initialized c then Returns c ERROR_INVALID
        else bind_outcome (f (sc_cond c)) (\<lambda>k ret.
          Returns (c\<lparr>sc_cond := k\<rparr>) (map_pthread_error p ret))))"

definition sync_cond_signal :: "platform \<Rightarrow> tid \<Rightarrow> ptr \<Rightarrow> sync_cond heap \<Rightarrow> (sync_cond heap, int) outcome" where
  "sync_cond_signal p w = sync_cond_notify p (pthread_cond_signal w)"

definition sync_cond_broadcast :: "platform \<Rightarrow> ptr \<Rightarrow> sync_cond heap \<Rightarrow> (sync_cond heap, int) outcome" where
  "sync_cond_broadcast p = sync_cond_notify p pthread_cond_broadcast"

lemmas [sync_defs] = sync_cond_init_def sync_cond_destroy_def sync_cond_wait_until_def
  sync_cond_wait_def sync_cond_timedwait_def sync_cond_resume_def sync_cond_notify_def
  sync_cond_signal_def sync_cond_broadcast_def

section \<open>Mutexes used by many threads\<close>

datatype mutex_call = MLock | MTrylock | MUnlock

fun mutex_step ::
  "platform \<Rightarrow> ptr \<Rightarrow> tid \<times> mutex_call \<Rightarrow> sync_mutex heap \<Rightarrow> (sync_mutex heap, int) outcome" where
  "mutex_step p mutex (t, MLock) h = sync_mutex_lock p t mutex h"
| "mutex_step p mutex (t, MTrylock) h = sync_mutex_trylock p t mutex h"
| "mutex_step p mutex (t, MUnlock) h = sync_mutex_unlock p t mutex h"

text \<open>
  Calls that returned, in the order they took effect, with their results; None if some call could
  not have returned there.
\<close>

fun mutex_trace ::
  "platform \<Rightarrow> ptr \<Rightarrow> (tid \<times> mutex_call) list \<Rightarrow> sync_mutex heap \<Rightarrow> (sync_mutex heap \<times> int list) option" where
  "mutex_trace p mutex [] h = Some (h, [])"
| "mutex_trace p mutex (e # es) h =
     (case mutex_step p mutex e h of
        Returns h' r \<Rightarrow> map_option (\<lambda>(h'', rs). (h'', r # rs)) (mutex_trace p mutex es h')
      | _ \<Rightarrow> None)"

text \<open>How often thread \<open>t\<close> has acquired the mutex, less how often it has released it.\<close>

fun mutex_gain :: "tid \<Rightarrow> (tid \<times> mutex_call) \<times> int \<Rightarrow> int" where
  "mutex_gain t ((u, c), r) = (if u \<noteq> t \<or> r \<noteq> SUCCESS then 0 else if c = MUnlock then - 1 else 1)"

definition mutex_balance :: "tid \<Rightarrow> (tid \<times> mutex_call) list \<Rightarrow> int list \<Rightarrow> int" where
  "mutex_balance t es rs = sum_list (map (mutex_gain t) (zip es rs))"

definition owns :: "tid \<Rightarrow> sync_mutex \<Rightarrow> int" where
  "owns t m = (if pm_owner (sm_lock m) = Some t then 1 else 0)"

definition checked_mutex :: "sync_mutex \<Rightarrow> bool" where
  "checked_mutex m \<longleftrightarrow> sm_initialized m \<and> pm_type (sm_lock m) = PTHREAD_MUTEX_ERRORCHECK"

lemma mutex_step_effect:
  assumes "mutex \<noteq> NULL" "h mutex = Some m" "checked_mutex m" "mutex_step p mutex (u, c) h = Returns h' r"
  shows "\<exists>m'. h' = h(mutex \<mapsto> m') \<and> checked_mutex m' \<and>
    (r \<noteq> SUCCESS \<and> m' = m \<or>
     r = SUCCESS \<and> c \<noteq> MUnlock \<and> pm_owner (sm_lock m) = None \<and> pm_owner (sm_lock m') = Some u \<or>
     r = SUCCESS \<and> c = MUnlock \<and> pm_owner (sm_lock m) = Some u \<and> pm_owner (sm_lock m') = None)"
  using assms
  by (intro exI [of _ "the (h' mutex)"], cases c)
    (auto simp: sync_defs pthread_defs checked_mutex_def split: option.splits if_splits)

lemma mutex_step_gain:
  assumes "mutex \<noteq> NULL" "h mutex = Some m" "checked_mutex m" "mutex_step p mutex e h = Returns h' r"
  shows "\<exists>m'. h' = h(mutex \<mapsto> m') \<and> checked_mutex m' \<and> (\<forall>t. mutex_gain t (e, r) + owns t m = owns t m')"
proof -
  obtain u c where e: "e = (u, c)" by (cases e)
  from mutex_step_effect [OF assms(1-3) assms(4) [unfolded e]] show ?thesis
    unfolding e by (elim exE, rule_tac x = m' in exI) (auto simp: owns_def)
qed

lemma mutex_step_defined:
  assumes "mutex \<noteq> NULL" "h mutex = Some m" "checked_mutex m"
  shows "mutex_step p mutex (t, c) h \<noteq> Undefined"
    and "mutex_step p mutex (t, c) h = Blocks \<longleftrightarrow> c = MLock \<and> (\<exists>u. u \<noteq> t \<and> owns u m = 1)"
  using assms
  by (cases c; auto simp: sync_defs pthread_defs checked_mutex_def owns_def split: option.splits)+

lemma mutex_trace_balance:
  assumes "mutex \<noteq> NULL" "h mutex = Some m" "checked_mutex m" "mutex_trace p mutex es h = Some (h', rs)"
  shows "\<exists>m'. h' = h(mutex \<mapsto> m') \<and> checked_mutex m' \<and> length rs = length es \<and>
    (\<forall>t. mutex_balance t es rs + owns t m = owns t m')"
  using assms(2-4)
proof (induction es arbitrary: h m rs)
  case Nil
  then have "h' = h(mutex \<mapsto> m)" "rs = []" by auto
  with Nil show ?case by (auto simp: mutex_balance_def)
next
  case (Cons e es)
  then obtain h1 r rs' where s: "mutex_step p mutex e h = Returns h1 r"
    and tr: "mutex_trace p mutex es h1 = Some (h', rs')" and rs: "rs = r # rs'"
    by (auto split: outcome.splits)
  obtain m1 where m1: "h1 = h(mutex \<mapsto> m1)" "checked_mutex m1"
    and g: "\<forall>t. mutex_gain t (e, r) + owns t m = owns t m1"
    using mutex_step_gain [OF assms(1) Cons.prems(1,2) s] by blast
  then have "h1 mutex = Some m1" by simp
  from Cons.IH [OF this m1(2) tr] obtain m' where "h' = h1(mutex \<mapsto> m')" "checked_mutex m'"
    "length rs' = length es" "\<forall>t. mutex_balance t es rs' + owns t m1 = owns t m'" by blast
  with m1 g show ?case unfolding rs mutex_balance_def
    by (intro exI [of _ m']) (auto simp: add.assoc, metis add.commute add.assoc)
qed

text \<open>
  C18. Mutual exclusion. From the initialisation on, in whatever order the threads' calls of lock,
  trylock and unlock take effect and whatever they return, every thread has released the mutex as
  often as it has acquired it, except at most one thread, which is one acquisition ahead: the
  owner. No call of any thread is undefined, and a call can block only when it is a lock of a
  thread other than the owner; no other mutex is touched.
\<close>

theorem sync_mutex_mutual_exclusion:
  assumes "mutex \<noteq> NULL" and "h mutex = Some m"
    and "sync_mutex_init p 0 mutex h = Returns h0 r"
    and "mutex_trace p mutex es h0 = Some (h', rs)"
  shows "r = SUCCESS \<and> (\<exists>holder. \<forall>t. mutex_balance t es rs = (if holder = Some t then 1 else 0)) \<and>
    mutex_step p mutex (t, c) h' \<noteq> Undefined \<and>
    (mutex_step p mutex (t, c) h' = Blocks \<longleftrightarrow> c = MLock \<and> (\<exists>u. u \<noteq> t \<and> mutex_balance u es rs = 1)) \<and>
    (\<forall>a. a \<noteq> mutex \<longrightarrow> h' a = h a)"
proof -
  define m0 where "m0 = m\<lparr>sm_lock := \<lparr>pm_type = PTHREAD_MUTEX_ERRORCHECK, pm_owner = None\<rparr>,
    sm_initialized := True\<rparr>"
  have h0: "h0 = h(mutex \<mapsto> m0)" "r = SUCCESS"
    using assms(1-3) by (auto simp: sync_defs pthread_defs Let_def m0_def)
  then have "h0 mutex = Some m0" "checked_mutex m0" by (simp_all add: checked_mutex_def m0_def)
  from mutex_trace_balance [OF assms(1) this assms(4)] obtain m' where
    h': "h' = h0(mutex \<mapsto> m')" "checked_mutex m'" "\<forall>t. mutex_balance t es rs + owns t m0 = owns t m'"
    by blast
  have b: "mutex_balance t es rs = owns t m'" for t using h'(3) by (simp add: owns_def m0_def)
  have l: "h' mutex = Some m'" by (simp add: h')
  have "\<exists>holder. \<forall>t. mutex_balance t es rs = (if holder = Some t then 1 else 0)"
    by (intro exI [of _ "pm_owner (sm_lock m')"]) (simp add: b owns_def)
  with h0 h' mutex_step_defined [where h = h' and m = m' and mutex = mutex, OF assms(1) l h'(2), of p t c] show ?thesis by (simp add: b)
qed

lemma sync_mutex_mutual_exclusion_witness:
  "\<exists>h'. mutex_trace Linux 8 [(1, MLock), (2, MTrylock), (2, MUnlock), (1, MLock)]
      [8 \<mapsto> \<lparr>sm_lock = \<lparr>pm_type = PTHREAD_MUTEX_ERRORCHECK, pm_owner = None\<rparr>, sm_initialized = True\<rparr>] =
      Some (h', [SUCCESS, ERROR_BUSY, ERROR_SYSTEM, ERROR_SYSTEM]) \<and>
    mutex_step Linux 8 (2, MLock) h' = Blocks"
proof -
  let ?h = "[8 \<mapsto> \<lparr>sm_lock = \<lparr>pm_type = PTHREAD_MUTEX_NORMAL, pm_owner = None\<rparr>, sm_initialized = False\<rparr>]
    :: sync_mutex heap"
  let ?es = "[(1, MLock), (2, MTrylock), (2, MUnlock), (1, MLock)]"
  let ?rs = "[SUCCESS, ERROR_BUSY, ERROR_SYSTEM, ERROR_SYSTEM]"
  have i: "sync_mutex_init Linux 0 8 ?h =
    Returns [8 \<mapsto> \<lparr>sm_lock = \<lparr>pm_type = PTHREAD_MUTEX_ERRORCHECK, pm_owner = None\<rparr>, sm_initialized = True\<rparr>] SUCCESS"
    by (simp add: sync_defs pthread_defs Let_def)
  have "\<exists>h'. mutex_trace Linux 8 ?es
      [8 \<mapsto> \<lparr>sm_lock = \<lparr>pm_type = PTHREAD_MUTEX_ERRORCHECK, pm_owner = None\<rparr>, sm_initialized = True\<rparr>] =
      Some (h', ?rs)"
    by (simp add: sync_defs pthread_defs map_pthread_error_def errno_defs)
  then obtain h' where t: "mutex_trace Linux 8 ?es
      [8 \<mapsto> \<lparr>sm_lock = \<lparr>pm_type = PTHREAD_MUTEX_ERRORCHECK, pm_owner = None\<rparr>, sm_initialized = True\<rparr>] =
      Some (h', ?rs)" by blast
  have "mutex_balance 1 ?es ?rs = 1" by (simp add: mutex_balance_def)
  with sync_mutex_mutual_exclusion [OF _ _ i t, of _ 2 MLock] have "mutex_step Linux 8 (2, MLock) h' = Blocks"
    by force
  with t show ?thesis by blast
qed

section \<open>Misuse of a mutex\<close>

text \<open>
  A held mutex reports every misuse and stays as it is: a second lock by its owner, which the
  error-checking type detects as a deadlock, is reported as STHREAD_ERROR_SYSTEM (the code
  STHREAD_ERROR_DEADLOCK is never returned), a trylock of any thread as BUSY, an unlock of another
  thread as STHREAD_ERROR_SYSTEM, a destroy as BUSY; after a destroy of the free mutex all calls
  answer INVALID.
\<close>

lemma sync_mutex_misuse:
  assumes "mutex \<noteq> NULL" and "h mutex = Some m" and "checked_mutex m"
    and "pm_owner (sm_lock m) = Some t" and "u \<noteq> t"
  shows "sync_mutex_lock p t mutex h = Returns h ERROR_SYSTEM \<and>
    sync_mutex_trylock p v mutex h = Returns h ERROR_BUSY \<and>
    sync_mutex_unlock p u mutex h = Returns h ERROR_SYSTEM \<and>
    sync_mutex_destroy p mutex h = Returns h ERROR_BUSY \<and>
    (\<exists>h1 h2. sync_mutex_unlock p t mutex h = Returns h1 SUCCESS \<and>
      sync_mutex_destroy p mutex h1 = Returns h2 SUCCESS \<and>
      mutex_step p mutex (v, c) h2 = Returns h2 ERROR_INVALID)"
proof -
  have h: "h(mutex \<mapsto> m) = h" using assms(2) by auto
  have "m\<lparr>sm_lock := sm_lock m\<rparr> = m" by simp
  moreover have "\<exists>h1 h2. sync_mutex_unlock p t mutex h = Returns h1 SUCCESS \<and>
      sync_mutex_destroy p mutex h1 = Returns h2 SUCCESS \<and>
      mutex_step p mutex (v, c) h2 = Returns h2 ERROR_INVALID"
    using assms by (cases c) (simp_all add: sync_defs pthread_defs checked_mutex_def Let_def)
  ultimately show ?thesis
    using assms h by (simp add: sync_defs pthread_defs checked_mutex_def Let_def)
qed

lemma sync_mutex_misuse_witness:
  "sync_mutex_lock MacOS 1 8 [8 \<mapsto> \<lparr>sm_lock = \<lparr>pm_type = PTHREAD_MUTEX_ERRORCHECK, pm_owner = Some 1\<rparr>, sm_initialized = True\<rparr>] =
   Returns [8 \<mapsto> \<lparr>sm_lock = \<lparr>pm_type = PTHREAD_MUTEX_ERRORCHECK, pm_owner = Some 1\<rparr>, sm_initialized = True\<rparr>] ERROR_SYSTEM"
  using sync_mutex_misuse [of 8 "[8 \<mapsto> \<lparr>sm_lock = \<lparr>pm_type = PTHREAD_MUTEX_ERRORCHECK, pm_owner = Some 1\<rparr>, sm_initialized = True\<rparr>]"
      "\<lparr>sm_lock = \<lparr>pm_type = PTHREAD_MUTEX_ERRORCHECK, pm_owner = Some 1\<rparr>, sm_initialized = True\<rparr>" 1 2 MacOS]
  by (simp add: checked_mutex_def)

section \<open>Waiting on a condition variable\<close>

lemma cond_wait_sleeps:
  assumes "cond \<noteq> NULL" "mutex \<noteq> NULL" "fst h cond = Some c" "snd h mutex = Some m"
    and "sc_initialized c" "sm_initialized m" "pm_owner (sm_lock m) = Some self"
    and "pc_waiters (sc_cond c) self = None" and "ret = 0 \<or> ret = ETIMEDOUT p"
  shows "\<exists>h1 c1 m1. sync_cond_wait_until p self dl cond mutex h = Returns h1 None \<and>
    fst h1 cond = Some c1 \<and> snd h1 mutex = Some m1 \<and> pm_owner (sm_lock m1) = None \<and>
    pc_waiters (sc_cond c1) self = Some dl \<and>
    sync_cond_resume p self ret cond mutex h1 = Returns h (map_pthread_error p ret)"
proof -
  have "(fst h)(cond \<mapsto> c) = fst h" using assms(3) by auto
  moreover have "m\<lparr>sm_lock := sm_lock m\<lparr>pm_owner := Some self\<rparr>\<rparr> = m" using assms(7) by simp
  then have "(snd h)(mutex \<mapsto> m\<lparr>sm_lock := sm_lock m\<lparr>pm_owner := Some self\<rparr>\<rparr>) = snd h"
    using assms(4) by auto
  moreover have "(pc_waiters (sc_cond c))(self := None) = pc_waiters (sc_cond c)"
    using assms(8) by auto
  ultimately show ?thesis
    using assms(1-7) by (simp add: sync_defs pthread_defs Let_def)
qed

text \<open>
  C37. A timed wait of the mutex's owner releases the mutex and goes to sleep with a deadline
  exactly \<open>timeout_ms\<close> milliseconds after the clock's reading; when it comes back it owns the mutex
  again, everything is as before the call, and the result is SUCCESS after a wake-up and TIMEOUT
  after the deadline. A wait of a thread that does not own the mutex changes nothing and fails.
\<close>

theorem sync_cond_timedwait_returns:
  assumes "cond \<noteq> NULL" "mutex \<noteq> NULL" "fst h cond = Some c" "snd h mutex = Some m"
    and "sc_initialized c" "checked_mutex m" "pc_waiters (sc_cond c) self = None"
    and "valid_clock p now"
  shows "(pm_owner (sm_lock m) = Some self \<longrightarrow>
      (\<exists>h1 c1 m1 d. sync_cond_timedwait p self now timeout_ms cond mutex h = Returns h1 None \<and>
        fst h1 cond = Some c1 \<and> snd h1 mutex = Some m1 \<and> pm_owner (sm_lock m1) = None \<and>
        pc_waiters (sc_cond c1) self = Some (Some d) \<and>
        tv_sec d * 1000000000 + tv_nsec d = clock_ns p now + uint timeout_ms * 1000000 \<and>
        sync_cond_resume p self 0 cond mutex h1 = Returns h SUCCESS \<and>
        sync_cond_resume p self (ETIMEDOUT p) cond mutex h1 = Returns h ERROR_TIMEOUT)) \<and>
    (pm_owner (sm_lock m) \<noteq> Some self \<longrightarrow>
      sync_cond_timedwait p self now timeout_ms cond mutex h = Returns h (Some ERROR_SYSTEM))"
proof (intro conjI impI)
  let ?d = "platform_get_abstime p now timeout_ms"
  have m: "sm_initialized m" using assms(6) by (simp add: checked_mutex_def)
  assume "pm_owner (sm_lock m) = Some self"
  note w = cond_wait_sleeps [OF assms(1-5) m this assms(7), of _ p "Some ?d"]
  obtain h1 c1 m1 where h1: "sync_cond_wait_until p self (Some ?d) cond mutex h = Returns h1 None"
    "fst h1 cond = Some c1" "snd h1 mutex = Some m1" "pm_owner (sm_lock m1) = None"
    "pc_waiters (sc_cond c1) self = Some (Some ?d)"
    "sync_cond_resume p self 0 cond mutex h1 = Returns h SUCCESS"
    using w [of 0] by auto
  have "sync_cond_resume p self (ETIMEDOUT p) cond mutex h1 = Returns h ERROR_TIMEOUT"
    using w [of "ETIMEDOUT p"] h1(1) by auto
  with h1 abstime_exact [OF assms(8)] show "\<exists>h1 c1 m1 d.
        sync_cond_timedwait p self now timeout_ms cond mutex h = Returns h1 None \<and>
        fst h1 cond = Some c1 \<and> snd h1 mutex = Some m1 \<and> pm_owner (sm_lock m1) = None \<and>
        pc_waiters (sc_cond c1) self = Some (Some d) \<and>
        tv_sec d * 1000000000 + tv_nsec d = clock_ns p now + uint timeout_ms * 1000000 \<and>
        sync_cond_resume p self 0 cond mutex h1 = Returns h SUCCESS \<and>
        sync_cond_resume p self (ETIMEDOUT p) cond mutex h1 = Returns h ERROR_TIMEOUT"
    unfolding sync_cond_timedwait_def by blast
next
  assume "pm_owner (sm_lock m) \<noteq> Some self"
  moreover have "(fst h)(cond \<mapsto> c) = fst h" "(snd h)(mutex \<mapsto> m) = snd h" using assms(3,4) by auto
  ultimately show "sync_cond_timedwait p self now timeout_ms cond mutex h = Returns h (Some ERROR_SYSTEM)"
    using assms(1-6) by (simp add: sync_defs pthread_defs Let_def checked_mutex_def)
qed

lemma sync_cond_timedwait_returns_witness:
  "\<exists>h1. sync_cond_timedwait Linux 1 \<lparr>tv_sec = 5, tv_nsec = 0\<rparr> 250 16 8
      ([16 \<mapsto> \<lparr>sc_cond = \<lparr>pc_waiters = Map.empty\<rparr>, sc_initialized = True\<rparr>],
       [8 \<mapsto> \<lparr>sm_lock = \<lparr>pm_type = PTHREAD_MUTEX_ERRORCHECK, pm_owner = Some 1\<rparr>, sm_initialized = True\<rparr>]) =
      Returns h1 None \<and>
    sync_cond_resume Linux 1 (ETIMEDOUT Linux) 16 8 h1 = Returns
      ([16 \<mapsto> \<lparr>sc_cond = \<lparr>pc_waiters = Map.empty\<rparr>, sc_initialized = True\<rparr>],
       [8 \<mapsto> \<lparr>sm_lock = \<lparr>pm_type = PTHREAD_MUTEX_ERRORCHECK, pm_owner = Some 1\<rparr>, sm_initialized = True\<rparr>])
      ERROR_TIMEOUT"
  using sync_cond_timedwait_returns [of 16 8
      "([16 \<mapsto> \<lparr>sc_cond = \<lparr>pc_waiters = Map.empty\<rparr>, sc_initialized = True\<rparr>],
       [8 \<mapsto> \<lparr>sm_lock = \<lparr>pm_type = PTHREAD_MUTEX_ERRORCHECK, pm_owner = Some 1\<rparr>, sm_initialized = True\<rparr>])"
      "\<lparr>sc_cond = \<lparr>pc_waiters = Map.empty\<rparr>, sc_initialized = True\<rparr>"
      "\<lparr>sm_lock = \<lparr>pm_type = PTHREAD_MUTEX_ERRORCHECK, pm_owner = Some 1\<rparr>, sm_initialized = True\<rparr>"
      1 Linux "\<lparr>tv_sec = 5, tv_nsec = 0\<rparr>" 250]
  by (auto simp: checked_mutex_def valid_clock_def)

end
