(* ===== verification/Semaphore.thy ===== *)
theory Semaphore
  imports Sync
begin

text \<open>
  sync.c, the semaphore: a 32-bit counter with its own lock and condition variable. The four
  operations are critical sections; initialisation and destruction are sequential.
\<close>

section \<open>The object\<close>

record sync_sem =
  ss_count :: u32
  ss_max_count :: u32
  ss_initialized :: bool

text \<open>
  \<open>lock_ret\<close> and \<open>cond_ret\<close> are the answers of pthread_mutex_init and pthread_cond_init. The lock
  and the condition variable themselves are part of the monitor below; here only whether they are
  initialised when the function returns, \<open>live\<close>, is tracked.
\<close>

datatype sem_part = Sem_Lock | Sem_Cond_Var

definition sync_sem_init ::
  "platform \<Rightarrow> int \<Rightarrow> int \<Rightarrow> ptr \<Rightarrow> u32 \<Rightarrow> sync_sem heap \<times> sem_part set \<Rightarrow>
   (sync_sem heap \<times> sem_part set, int) outcome" where
  "sync_sem_init p lock_ret cond_ret sem value h =
     (if sem = NULL then Returns h ERROR_INVALID
      else case fst h sem of None \<Rightarrow> Undefined | Some x \<Rightarrow>
      if lock_ret \<noteq> 0 then Returns h (map_pthread_error p lock_ret)
      else
        let live = insert Sem_Lock (snd h) in
        if cond_ret \<noteq> 0 then Returns (fst h, live - {Sem_Lock}) (map_pthread_error p cond_ret)
        else Returns
          ((fst h)(sem \<mapsto> x\<lparr>ss_count := value, ss_max_count := value, ss_initialized := True\<rparr>),
           insert Sem_Cond_Var live) SUCCESS)"

text \<open>\<open>cond_ret\<close> and \<open>lock_ret\<close>: the answers of the two destroy calls.\<close>

definition sync_sem_destroy ::
  "platform \<Rightarrow> int \<Rightarrow> int \<Rightarrow> ptr \<Rightarrow> sync_sem heap \<times> sem_part set \<Rightarrow>
   (sync_sem heap \<times> sem_part set, int) outcome" where
  "sync_sem_destroy p cond_ret lock_ret sem h =
     (if sem = NULL then Returns h ERROR_INVALID
      else case fst h sem of None \<Rightarrow> Undefined | Some x \<Rightarrow>
      if \<not> ss_initialized x then Returns h ERROR_INVALID
      else if cond_ret \<noteq> 0 then Returns h (map_pthread_error p cond_ret)
      else
        let live = snd h - {Sem_Cond_Var} in
        if lock_ret = 0
        then Returns ((fst h)(sem \<mapsto> x\<lparr>ss_initialized := False\<rparr>), live - {Sem_Lock}) (map_pthread_error p lock_ret)
        else Returns (fst h, live) (map_pthread_error p lock_ret))"

section \<open>The critical sections\<close>

datatype sem_op = SemWait | SemTrywait | SemPost | SemGetvalue
datatype sem_res = Code int | Value int
datatype sem_cond = Sem_Cond

definition sem_wait_section :: "(sync_sem, sem_cond, sem_res) crit" where
  "sem_wait_section = \<lparr>
     cs_entry = (\<lambda>_. None),
     cs_guard = (\<lambda>sem. if ss_count sem = 0 then Some Sem_Cond else None),
     cs_leave = (\<lambda>_. None),
     cs_body = (\<lambda>sem. Some (sem\<lparr>ss_count := ss_count sem - 1\<rparr>, Code SUCCESS)),
     cs_notify = (\<lambda>_. [])\<rparr>"

definition sem_trywait_section :: "(sync_sem, sem_cond, sem_res) crit" where
  "sem_trywait_section = \<lparr>
     cs_entry = (\<lambda>sem. if ss_count sem = 0 then Some (Code ERROR_BUSY) else None),
     cs_guard = (\<lambda>_. None),
     cs_leave = (\<lambda>_. None),
     cs_body = (\<lambda>sem. Some (sem\<lparr>ss_count := ss_count sem - 1\<rparr>, Code SUCCESS)),
     cs_notify = (\<lambda>_. [])\<rparr>"

definition sem_post_section :: "(sync_sem, sem_cond, sem_res) crit" where
  "sem_post_section = \<lparr>
     cs_entry = (\<lambda>_. None),
     cs_guard = (\<lambda>_. None),
     cs_leave = (\<lambda>_. None),
     cs_body = (\<lambda>sem. Some (sem\<lparr>ss_count := ss_count sem + 1\<rparr>, Code SUCCESS)),
     cs_notify = (\<lambda>_. [Signal Sem_Cond])\<rparr>"

text \<open>The conversion to \<open>int\<close> is two's complement on both platforms.\<close>

definition sem_getvalue_section :: "(sync_sem, sem_cond, sem_res) crit" where
  "sem_getvalue_section = \<lparr>
     cs_entry = (\<lambda>_. None), cs_guard = (\<lambda>_. None), cs_leave = (\<lambda>_. None),
     cs_body = (\<lambda>sem. Some (sem, Value (sint (ss_count sem)))),
     cs_notify = (\<lambda>_. [])\<rparr>"

lemmas [section_defs] = sem_wait_section_def sem_trywait_section_def sem_post_section_def
  sem_getvalue_section_def

fun sem_section :: "sem_op \<Rightarrow> (sync_sem, sem_cond, sem_res) crit" where
  "sem_section SemWait = sem_wait_section"
| "sem_section SemTrywait = sem_trywait_section"
| "sem_section SemPost = sem_post_section"
| "sem_section SemGetvalue = sem_getvalue_section"

text \<open>The checks before the lock. \<open>sem\<close> is None for NULL; the flag is read outside the lock.\<close>

definition sem_enter :: "sem_op \<Rightarrow> sync_sem option \<Rightarrow> sem_res + sem_op" where
  "sem_enter op sem =
     (case sem of None \<Rightarrow> Inl (Code ERROR_INVALID)
      | Some x \<Rightarrow> if \<not> ss_initialized x then Inl (Code ERROR_INVALID) else Inr op)"

text \<open>The C functions called alone, on a heap; \<open>op\<close> is the section they run.\<close>

definition sync_sem_call :: "sem_op \<Rightarrow> ptr \<Rightarrow> sync_sem heap \<Rightarrow> (sync_sem heap, sem_res) outcome" where
  "sync_sem_call op sem h =
     (if sem = NULL then Returns h (Code ERROR_INVALID)
      else deref h sem (\<lambda>x. invoke sem_section (sem_enter op (Some x)) x))"

definition sync_sem_wait :: "ptr \<Rightarrow> sync_sem heap \<Rightarrow> (sync_sem heap, sem_res) outcome" where
  "sync_sem_wait = sync_sem_call SemWait"

definition sync_sem_trywait :: "ptr \<Rightarrow> sync_sem heap \<Rightarrow> (sync_sem heap, sem_res) outcome" where
  "sync_sem_trywait = sync_sem_call SemTrywait"

definition sync_sem_post :: "ptr \<Rightarrow> sync_sem heap \<Rightarrow> (sync_sem heap, sem_res) outcome" where
  "sync_sem_post = sync_sem_call SemPost"

text \<open>The result \<open>Value v\<close>: \<open>*value\<close> is set to v and the call returns STHREAD_SUCCESS.\<close>

definition sync_sem_getvalue :: "ptr \<Rightarrow> ptr \<Rightarrow> sync_sem heap \<Rightarrow> (sync_sem heap, sem_res) outcome" where
  "sync_sem_getvalue sem value h =
     (if sem = NULL then Returns h (Code ERROR_INVALID)
      else case h sem of None \<Rightarrow> Undefined | Some x \<Rightarrow>
      if \<not> ss_initialized x \<or> value = NULL then Returns h (Code ERROR_INVALID)
      else sync_sem_call SemGetvalue sem h)"

definition sem_monitor :: "(sem_op, sync_sem, sem_cond, sem_res) monitor" where
  "sem_monitor = \<lparr>sect = sem_section, claims = (\<lambda>_. {}), used = (\<lambda>_. {})\<rparr>"

lemma sem_monitor_simps [simp]:
  "sect sem_monitor = sem_section" "claims sem_monitor op = {}" "used sem_monitor d = {}"
  by (simp_all add: sem_monitor_def)

section \<open>The laws\<close>

definition sem_avail :: "sem_cond \<Rightarrow> sync_sem \<Rightarrow> enat" where
  "sem_avail c sem = enat (unat (ss_count sem))"

lemma sem_can_wait: "can_wait sem_monitor op c \<longleftrightarrow> op = SemWait"
proof
  assume "op = SemWait"
  then have "cs_guard (sem_section op) \<lparr>ss_count = 0, ss_max_count = 0, ss_initialized = True\<rparr> = Some c"
    by (cases c) (simp add: section_defs)
  then show "can_wait sem_monitor op c" by (auto simp: can_wait_def)
qed (cases op; simp add: can_wait_def section_defs)

lemma unat_dec_enat: "(w :: u32) \<noteq> 0 \<Longrightarrow> enat (unat (w - 1)) = enat (unat w) - 1"
  by (simp add: unat_minus_one_pos one_enat_def)

lemma unat_inc_enat: "enat (unat ((w :: u32) + 1)) \<le> enat (unat w) + 1"
  using unat_plus_one_le [of w] by (simp add: one_enat_def)

interpretation sem: monitor_wakeup sem_monitor "\<lambda>_. True" sem_avail
proof unfold_locales
  fix op c d r
  assume "can_wait sem_monitor op c" "cs_entry (sect sem_monitor op) d = Some r"
  then show "cs_leave (sect sem_monitor op) d = Some r" by (simp add: sem_can_wait section_defs)
next
  fix op d
  show "\<exists>d' r. cs_body (sect sem_monitor op) d = Some (d', r) \<and> True \<and>
      used sem_monitor d' \<subseteq> used sem_monitor d \<union> claims sem_monitor op"
    by (cases op) (simp_all add: section_defs)
next
  fix op c c' assume "can_wait sem_monitor op c" "can_wait sem_monitor op c'"
  show "c' = c" by (cases c; cases c') simp
next
  fix d op c assume "can_wait sem_monitor op c"
  then show "(cs_guard (sect sem_monitor op) d = Some c) = (sem_avail c d = 0)"
    by (cases c) (simp add: sem_can_wait section_defs sem_avail_def zero_enat_def unat_eq_zero)
next
  fix d op c r assume "can_wait sem_monitor op c" "cs_leave (sect sem_monitor op) d = Some r"
  then show "sem_avail c d = \<infinity>" by (simp add: sem_can_wait section_defs)
next
  fix d op d' r c
  assume e: "cs_entry (sect sem_monitor op) d = None" and g: "cs_guard (sect sem_monitor op) d = None"
    and b: "cs_body (sect sem_monitor op) d = Some (d', r)"
  show "sem_avail c d' \<le> (sem_avail c d - (if can_wait sem_monitor op c then 1 else 0))
      + notices c (cs_notify (sect sem_monitor op) d')"
  proof (cases op)
    case SemWait
    with g b show ?thesis
      by (auto simp: sem_can_wait section_defs sem_avail_def unat_dec_enat split: if_splits)
  next
    case SemTrywait
    with e b have "d' = d\<lparr>ss_count := ss_count d - 1\<rparr>" "ss_count d \<noteq> 0"
      by (auto simp: section_defs split: if_splits)
    with SemTrywait show ?thesis
      by (simp add: sem_can_wait section_defs sem_avail_def unat_minus_one_pos)
  next
    case SemPost
    with b show ?thesis
      by (cases c) (auto simp: sem_can_wait section_defs sem_avail_def unat_inc_enat)
  next
    case SemGetvalue
    with b show ?thesis by (auto simp: sem_can_wait section_defs sem_avail_def)
  qed
qed

section \<open>Calls of one thread\<close>

text \<open>
  Each call alone: wait takes a unit or blocks when there is none, trywait takes a unit or
  returns BUSY and never blocks, post adds one, getvalue reads; a semaphore that is not
  initialised is refused by all four.
\<close>

lemma sync_sem_calls:
  assumes "sem \<noteq> NULL" and "h sem = Some x" and "value \<noteq> NULL"
  shows "sync_sem_wait sem h =
      (if \<not> ss_initialized x then Returns h (Code ERROR_INVALID)
       else if ss_count x = 0 then Blocks
       else Returns (h(sem \<mapsto> x\<lparr>ss_count := ss_count x - 1\<rparr>)) (Code SUCCESS)) \<and>
    sync_sem_trywait sem h =
      (if \<not> ss_initialized x then Returns h (Code ERROR_INVALID)
       else if ss_count x = 0 then Returns h (Code ERROR_BUSY)
       else Returns (h(sem \<mapsto> x\<lparr>ss_count := ss_count x - 1\<rparr>)) (Code SUCCESS)) \<and>
    sync_sem_post sem h =
      (if \<not> ss_initialized x then Returns h (Code ERROR_INVALID)
       else Returns (h(sem \<mapsto> x\<lparr>ss_count := ss_count x + 1\<rparr>)) (Code SUCCESS)) \<and>
    sync_sem_getvalue sem value h =
      (if \<not> ss_initialized x then Returns h (Code ERROR_INVALID)
       else Returns h (Value (sint (ss_count x))))"
proof -
  have "h(sem \<mapsto> x) = h" using assms(2) by auto
  with assms show ?thesis
    by (simp add: sync_sem_wait_def sync_sem_trywait_def sync_sem_post_def sync_sem_getvalue_def
        sync_sem_call_def sem_enter_def run_section_def section_defs)
qed

lemma sync_sem_calls_witness:
  "sync_sem_trywait 8 [8 \<mapsto> \<lparr>ss_count = 0, ss_max_count = 1, ss_initialized = True\<rparr>] =
     Returns [8 \<mapsto> \<lparr>ss_count = 0, ss_max_count = 1, ss_initialized = True\<rparr>] (Code ERROR_BUSY) \<and>
   sync_sem_wait 8 [8 \<mapsto> \<lparr>ss_count = 0, ss_max_count = 1, ss_initialized = True\<rparr>] = Blocks"
  using sync_sem_calls [of 8 "[8 \<mapsto> \<lparr>ss_count = 0, ss_max_count = 1, ss_initialized = True\<rparr>]"
      "\<lparr>ss_count = 0, ss_max_count = 1, ss_initialized = True\<rparr>" 16] by simp

text \<open>
  C39. \<open>max_count\<close> is written by the initialisation and never read: one post takes the counter of a
  fresh semaphore above it, and the post at the largest counter value wraps to zero, so that all
  units are lost; both return STHREAD_SUCCESS.
\<close>

theorem sync_sem_post_unbounded:
  assumes "sem \<noteq> NULL" and "sync_sem_init p 0 0 sem n (h, live) = Returns (h', live') SUCCESS"
  shows "\<exists>h''. sync_sem_post sem h' = Returns h'' (Code SUCCESS) \<and>
    (\<exists>x. h'' sem = Some x \<and> ss_max_count x = n \<and> ss_count x = n + 1 \<and>
      (if n = - 1 then ss_count x = 0 \<and> sync_sem_wait sem h'' = Blocks else ss_max_count x < ss_count x))"
proof -
  from assms obtain x0 where h': "h' = h(sem \<mapsto> x0\<lparr>ss_count := n, ss_max_count := n, ss_initialized := True\<rparr>)"
    by (auto simp: sync_sem_init_def Let_def split: option.splits)
  define x where "x = x0\<lparr>ss_count := n, ss_max_count := n, ss_initialized := True\<rparr>"
  have x: "h' sem = Some x" "ss_count x = n" "ss_max_count x = n" "ss_initialized x"
    by (simp_all add: h' x_def)
  have lt: "n < n + 1" if "n \<noteq> - 1"
  proof -
    have "1 + n \<noteq> 0" using that by (metis add.commute add_eq_0_iff)
    then show ?thesis using unatSuc [of n] by (simp add: word_less_nat_alt add.commute)
  qed
  show ?thesis
    using assms(1) x lt
    by (simp add: sync_sem_post_def sync_sem_wait_def sync_sem_call_def sem_enter_def run_section_def
        section_defs)
qed

lemma sync_sem_post_unbounded_witness:
  "\<exists>h''. sync_sem_post 8 [8 \<mapsto> \<lparr>ss_count = - 1, ss_max_count = - 1, ss_initialized = True\<rparr>] =
    Returns h'' (Code SUCCESS) \<and> sync_sem_wait 8 h'' = Blocks"
proof -
  have "sync_sem_init Linux 0 0 8 (- 1) ([8 \<mapsto> \<lparr>ss_count = 0, ss_max_count = 0, ss_initialized = False\<rparr>], {}) =
    Returns ([8 \<mapsto> \<lparr>ss_count = - 1, ss_max_count = - 1, ss_initialized = True\<rparr>], {Sem_Cond_Var, Sem_Lock}) SUCCESS"
    by (simp add: sync_sem_init_def Let_def)
  from sync_sem_post_unbounded [OF _ this] show ?thesis by auto
qed

lemma sem_init_failed:
  assumes "Sem_Lock \<notin> live" and "sem = NULL \<or> lr \<noteq> 0 \<or> cr \<noteq> 0" "sync_sem_init p lr cr sem n (h, live) = Returns (h', live') r"
  shows "r \<noteq> SUCCESS \<and> h' = h \<and> live' = live"
  using assms by (cases "h sem") (auto simp: sync_sem_init_def Let_def split: if_splits)


lemma sem_init_succeeded:
  assumes "\<not> (sem = NULL \<or> lr \<noteq> 0 \<or> cr \<noteq> 0)" "sync_sem_init p lr cr sem n (h, live) = Returns (h', live') r"
  shows "\<exists>x. h sem = Some x \<and> h' = h(sem \<mapsto> x\<lparr>ss_count := n, ss_max_count := n, ss_initialized := True\<rparr>) \<and> live' = insert Sem_Cond_Var (insert Sem_Lock live) \<and> r = SUCCESS"
  using assms by (cases "h sem") (simp_all add: sync_sem_init_def Let_def)


lemma sem_destroy_succeeds:
  assumes nn: "sem \<noteq> NULL" and "Sem_Lock \<notin> live" "Sem_Cond_Var \<notin> live" and x: "h' sem = Some x" "ss_initialized x" 
    and r: "live' = insert Sem_Cond_Var (insert Sem_Lock live)"
  shows "sync_sem_destroy p 0 0 sem (h', live') = Returns (h'(sem \<mapsto> x\<lparr>ss_initialized := False\<rparr>), live) SUCCESS"
  using assms by (simp add: sync_sem_destroy_def Let_def insert_Diff_if)

lemma sem_wait_destroyed:
  assumes nn: "sem \<noteq> NULL" 
  shows "sync_sem_wait sem (h'(sem \<mapsto> x\<lparr>ss_initialized := False\<rparr>))
        = Returns (h'(sem \<mapsto> x\<lparr>ss_initialized := False\<rparr>)) (Code ERROR_INVALID)"
  using nn by (simp add: sync_sem_wait_def sync_sem_call_def sem_enter_def)

lemma sem_destroy_half:
  assumes nn: "sem \<noteq> NULL" and "Sem_Lock \<notin> live" "Sem_Cond_Var \<notin> live" and x: "h' sem = Some x" "ss_initialized x" 
    and r: "live' = insert Sem_Cond_Var (insert Sem_Lock live)" "e \<noteq> 0"
  shows "sync_sem_destroy p 0 e sem (h', live') = Returns (h', insert Sem_Lock live) (map_pthread_error p e)"
  using assms by (simp add: sync_sem_destroy_def Let_def insert_Diff_if)

text \<open>
  C38. Initialisation is all or nothing: when it fails, neither the lock nor the condition variable
  is left initialised and the object is untouched; when it succeeds, a destroy that succeeds takes
  both down again. A destroy whose second half fails leaves the object marked as initialised
  although its condition variable is gone.
\<close>

theorem sync_sem_init_destroy:
  assumes "live \<inter> {Sem_Lock, Sem_Cond_Var} = {}"
    and "sync_sem_init p lr cr sem n (h, live) = Returns (h', live') r"
  shows "(r \<noteq> SUCCESS \<longrightarrow> h' = h \<and> live' = live) \<and>
    (r = SUCCESS \<longrightarrow> live' = live \<union> {Sem_Lock, Sem_Cond_Var} \<and>
      (\<exists>h''. sync_sem_destroy p 0 0 sem (h', live') = Returns (h'', live) SUCCESS \<and>
        sync_sem_wait sem h'' = Returns h'' (Code ERROR_INVALID)) \<and>
      (\<forall>e. e \<noteq> 0 \<longrightarrow> sync_sem_destroy p 0 e sem (h', live') =
        Returns (h', live \<union> {Sem_Lock}) (map_pthread_error p e)))"
proof -
  have n: "Sem_Lock \<notin> live" "Sem_Cond_Var \<notin> live" using assms(1) by auto
  show ?thesis
  proof (cases "sem = NULL \<or> lr \<noteq> 0 \<or> cr \<noteq> 0")
    case True
    from sem_init_failed [OF n(1) True assms(2)] show ?thesis by blast
  next
    case False
    then have nn: "sem \<noteq> NULL" by blast
    from sem_init_succeeded [OF False assms(2)] obtain x where
      h': "h' = h(sem \<mapsto> x\<lparr>ss_count := n, ss_max_count := n, ss_initialized := True\<rparr>)"
      and r: "live' = insert Sem_Cond_Var (insert Sem_Lock live)" "r = SUCCESS" by blast
    have x: "h' sem = Some (x\<lparr>ss_count := n, ss_max_count := n, ss_initialized := True\<rparr>)"
      "ss_initialized (x\<lparr>ss_count := n, ss_max_count := n, ss_initialized := True\<rparr>)"
      by (simp_all add: h')
    have "live' = live \<union> {Sem_Lock, Sem_Cond_Var}" "live \<union> {Sem_Lock} = insert Sem_Lock live"
      unfolding r by auto
    then show ?thesis
      using sem_destroy_succeeds [where h' = h' and sem = sem, OF nn n x r(1)] sem_wait_destroyed [OF nn]
        sem_destroy_half [where h' = h' and sem = sem, OF nn n x r(1)] r(2) by metis
  qed
qed

lemma sync_sem_init_destroy_witness:
  "sync_sem_destroy Linux 0 0 8 ([8 \<mapsto> \<lparr>ss_count = 3, ss_max_count = 3, ss_initialized = True\<rparr>],
      {Sem_Lock, Sem_Cond_Var}) =
    Returns ([8 \<mapsto> \<lparr>ss_count = 3, ss_max_count = 3, ss_initialized = False\<rparr>], {}) SUCCESS"
proof -
  have "sync_sem_init Linux 0 0 8 3 ([8 \<mapsto> \<lparr>ss_count = 0, ss_max_count = 0, ss_initialized = False\<rparr>], {}) =
    Returns ([8 \<mapsto> \<lparr>ss_count = 3, ss_max_count = 3, ss_initialized = True\<rparr>], {Sem_Lock, Sem_Cond_Var}) SUCCESS"
    by (auto simp: sync_sem_init_def Let_def)
  from sync_sem_init_destroy [OF _ this] show ?thesis
    by (auto simp: sync_sem_destroy_def Let_def)
qed

section \<open>Calls of many threads\<close>

text \<open>The units that the logged calls have added and taken.\<close>

definition sem_posts :: "(tid \<times> sem_op \<times> sem_res) list \<Rightarrow> nat" where
  "sem_posts es = length (filter (\<lambda>(t, op, r). op = SemPost \<and> r = Code SUCCESS) es)"

definition sem_takes :: "(tid \<times> sem_op \<times> sem_res) list \<Rightarrow> nat" where
  "sem_takes es = length (filter (\<lambda>(t, op, r). (op = SemWait \<or> op = SemTrywait) \<and> r = Code SUCCESS) es)"

lemma unat_dec_Suc: "(w :: u32) \<noteq> 0 \<Longrightarrow> unat w = Suc (unat (w - 1))"
  by (simp add: unat_minus_one_pos unat_gt_0)

lemma unat_inc_cases: "(w :: u32) + 1 = 0 \<and> unat w = 2 ^ 32 - 1 \<or> unat (w + 1) = unat w + 1"
proof (cases "1 + w = 0")
  case True
  then have "w = - 1" by (metis add.commute add_eq_0_iff)
  then show ?thesis using unat_max32 by simp
qed (simp add: unatSuc add.commute)

lemma sem_account_step:
  assumes inv: "unat (ss_count d) + sem_takes es \<le> n + sem_posts es \<and>
      (n + sem_posts es < 2 ^ 32 \<longrightarrow> unat (ss_count d) + sem_takes es = n + sem_posts es)"
    and run: "run_section (sem_section op) d = Returns d' r"
  shows "unat (ss_count d') + sem_takes (es @ [(t, op, r)]) \<le> n + sem_posts (es @ [(t, op, r)]) \<and>
      (n + sem_posts (es @ [(t, op, r)]) < 2 ^ 32 \<longrightarrow>
        unat (ss_count d') + sem_takes (es @ [(t, op, r)]) = n + sem_posts (es @ [(t, op, r)]))"
proof (cases op)
  case SemWait
  with run have "ss_count d \<noteq> 0" "d' = d\<lparr>ss_count := ss_count d - 1\<rparr>" "r = Code SUCCESS"
    by (auto simp: run_section_def section_defs split: if_splits)
  with SemWait inv show ?thesis
    using unat_dec_Suc [of "ss_count d"] by (auto simp: sem_posts_def sem_takes_def)
next
  case SemTrywait
  with run have "ss_count d = 0 \<and> d' = d \<and> r = Code ERROR_BUSY \<or>
      ss_count d \<noteq> 0 \<and> d' = d\<lparr>ss_count := ss_count d - 1\<rparr> \<and> r = Code SUCCESS"
    by (auto simp: run_section_def section_defs split: if_splits)
  with SemTrywait inv show ?thesis
    using unat_dec_Suc [of "ss_count d"] by (auto simp: sem_posts_def sem_takes_def)
next
  case SemPost
  with run have "d' = d\<lparr>ss_count := ss_count d + 1\<rparr>" "r = Code SUCCESS"
    by (auto simp: run_section_def section_defs)
  with SemPost inv show ?thesis
    using unat_inc_cases [of "ss_count d"] by (auto simp: sem_posts_def sem_takes_def)
next
  case SemGetvalue
  with run have "d' = d" by (auto simp: run_section_def section_defs)
  with SemGetvalue inv show ?thesis by (auto simp: sem_posts_def sem_takes_def)
qed

text \<open>
  C29. However the calls of any number of threads interleave, the units taken never exceed the
  initial value and the units posted, and while those fit the 32-bit counter nothing is lost
  either: the counter is exactly what remains.
\<close>

theorem sync_sem_accounting:
  assumes "mreach sem_monitor d0 s"
  shows "unat (ss_count (mdata s)) + sem_takes (mlog s) \<le> unat (ss_count d0) + sem_posts (mlog s) \<and>
    (unat (ss_count d0) + sem_posts (mlog s) < 2 ^ 32 \<longrightarrow>
      unat (ss_count (mdata s)) + sem_takes (mlog s) = unat (ss_count d0) + sem_posts (mlog s))"
  by (rule sem.reach_log_induct [OF assms, where P = "\<lambda>d es.
        unat (ss_count d) + sem_takes es \<le> unat (ss_count d0) + sem_posts es \<and>
        (unat (ss_count d0) + sem_posts es < 2 ^ 32 \<longrightarrow>
          unat (ss_count d) + sem_takes es = unat (ss_count d0) + sem_posts es)"])
    (use sem_account_step in \<open>simp_all add: sem_posts_def sem_takes_def\<close>)

text \<open>Thread 0 waits on an empty semaphore, thread 1 posts and wakes it.\<close>

definition empty_sem :: sync_sem where
  "empty_sem = \<lparr>ss_count = 0, ss_max_count = 0, ss_initialized = True\<rparr>"

definition wait_post_run :: "(tid \<times> sem_op action) list" where
  "wait_post_run = [(0, Call SemWait), (0, Go), (0, Go), (0, Go),
     (1, Call SemPost), (1, Go), (1, Go), (1, Go), (1, Go)]"

lemma sync_sem_accounting_witness:
  "\<exists>s. exec sem_monitor 2 (wait_post_run @ [(1, Go), (1, Go), (1, Go), (0, Go), (0, Go), (0, Go)]) (init_msys empty_sem) = Some s \<and>
     sem_takes (mlog s) = 1 \<and> sem_posts (mlog s) = 1 \<and> unat (ss_count (mdata s)) = 0"
proof -
  obtain s where s: "exec sem_monitor 2 (wait_post_run @ [(1, Go), (1, Go), (1, Go), (0, Go), (0, Go), (0, Go)]) (init_msys empty_sem) = Some s"
    and l: "sem_takes (mlog s) = 1" "sem_posts (mlog s) = 1"
    by (simp add: wait_post_run_def empty_sem_def init_msys_def m_call_def section_defs
        sem_posts_def sem_takes_def upt_rec)
  from sync_sem_accounting [OF exec_reach [OF s]] l have "unat (ss_count (mdata s)) = 0"
    by (simp add: empty_sem_def)
  with s l show ?thesis by blast
qed

text \<open>
  C30. No post is lost on a sleeper: whenever a thread sleeps in wait, at most as many units are
  there as threads are on their way to take one or about to be woken; so while the counter is not
  zero, some thread that is awake can take a step.
\<close>

theorem sync_sem_no_lost_wakeup:
  assumes "mreach sem_monitor d0 s" and "mpcs s t = Asleep op Sem_Cond"
  shows "enat (unat (ss_count (mdata s))) \<le>
      enat (card (ready sem_monitor Sem_Cond s)) + due Sem_Cond s \<and>
    (ss_count (mdata s) \<noteq> 0 \<longrightarrow>
      (\<exists>u s'. mstep sem_monitor u s s' \<and> (\<forall>op c. mpcs s u \<noteq> Asleep op c)))"
proof
  have "sleepers Sem_Cond s \<noteq> {}" using assms(2) by (auto simp: sleepers_def)
  then show "enat (unat (ss_count (mdata s))) \<le>
      enat (card (ready sem_monitor Sem_Cond s)) + due Sem_Cond s"
    using sem.reach_wake_inv [OF assms(1)] by (simp add: wake_inv_def sem_avail_def)
  have "op = SemWait"
    using sem.good_reach [OF assms(1)] assms(2) by (auto simp: sem.good_def tests_inv_def sem_can_wait)
  then show "ss_count (mdata s) \<noteq> 0 \<longrightarrow>
      (\<exists>u s'. mstep sem_monitor u s s' \<and> (\<forall>op c. mpcs s u \<noteq> Asleep op c))"
    using sem.sleeper_progress [OF assms(1) _ assms(2)] by (simp add: section_defs)
qed

lemma sync_sem_no_lost_wakeup_witness:
  "\<exists>s. exec sem_monitor 2 wait_post_run (init_msys empty_sem) = Some s \<and>
     ss_count (mdata s) = 1 \<and> mpcs s 0 = Asleep SemWait Sem_Cond \<and> due Sem_Cond s \<noteq> 0 \<and>
     (\<exists>u s'. mstep sem_monitor u s s' \<and> (\<forall>op c. mpcs s u \<noteq> Asleep op c))"
proof -
  obtain s where s: "exec sem_monitor 2 wait_post_run (init_msys empty_sem) = Some s"
    and l: "ss_count (mdata s) = 1" "mpcs s 0 = Asleep SemWait Sem_Cond" "due Sem_Cond s \<noteq> 0"
    by (simp add: wait_post_run_def empty_sem_def init_msys_def m_call_def section_defs
        due_def upt_rec)
  from sync_sem_no_lost_wakeup [OF exec_reach [OF s] l(2)] s l show ?thesis by simp
qed

end
