(* ===== verification/Scheduler.thy ===== *)
theory Scheduler
  imports Heap_List Monitor_Wakeup Monitor_Exec Platform
begin

text \<open>
  scheduler.c: the task queue. A NULL-terminated list of malloc'd nodes with head and tail
  pointers, a lock and two condition variables; push, pop, try_pop, size and shutdown are critical
  sections. \<open>q_nodes\<close> is the part of the heap that holds the queue's nodes: a node enters it when
  push links it and leaves it when pop unlinks it, reads it and frees it.
\<close>

section \<open>Tasks and nodes\<close>

datatype task_priority =
  TASK_PRIORITY_LOW | TASK_PRIORITY_NORMAL | TASK_PRIORITY_HIGH | TASK_PRIORITY_CRITICAL

primrec priority_value :: "task_priority \<Rightarrow> nat" where
  "priority_value TASK_PRIORITY_LOW = 0"
| "priority_value TASK_PRIORITY_NORMAL = 1"
| "priority_value TASK_PRIORITY_HIGH = 2"
| "priority_value TASK_PRIORITY_CRITICAL = 3"

instantiation task_priority :: linorder
begin

definition less_eq_task_priority :: "task_priority \<Rightarrow> task_priority \<Rightarrow> bool" where
  "less_eq_task_priority x y \<longleftrightarrow> priority_value x \<le> priority_value y"

definition less_task_priority :: "task_priority \<Rightarrow> task_priority \<Rightarrow> bool" where
  "less_task_priority x y \<longleftrightarrow> priority_value x < priority_value y"

instance
proof
  fix x y :: task_priority
  assume "x \<le> y" "y \<le> x"
  then have "priority_value x = priority_value y" by (simp add: less_eq_task_priority_def)
  then show "x = y" by (cases x; cases y; simp)
qed (auto simp: less_eq_task_priority_def less_task_priority_def)

end

record task =
  t_func :: ptr
  t_arg :: ptr
  t_priority :: task_priority
  t_submit_time :: u64

record task_node = task +
  tn_next :: ptr

record task_queue =
  q_head :: ptr
  q_tail :: ptr
  q_count :: size_t
  q_capacity :: size_t
  q_shutdown :: bool
  q_nodes :: "ptr \<Rightarrow> task_node option"

section \<open>Creation and destruction\<close>

datatype queue_part = Queue_Lock | Queue_Not_Empty | Queue_Not_Full

definition zero_queue :: task_queue where
  "zero_queue = \<lparr>q_head = NULL, q_tail = NULL, q_count = 0, q_capacity = 0, q_shutdown = False,
     q_nodes = Map.empty\<rparr>"

text \<open>
  \<open>ret1\<close>, \<open>ret2\<close>, \<open>ret3\<close>: the answers of pthread_mutex_init and of the two pthread_cond_init. The
  second component of the state are the pthread objects that are initialised.
\<close>

definition task_queue_init ::
  "int \<Rightarrow> int \<Rightarrow> int \<Rightarrow> ptr \<Rightarrow> size_t \<Rightarrow> task_queue \<times> queue_part set \<Rightarrow>
   (task_queue \<times> queue_part set, int) outcome" where
  "task_queue_init ret1 ret2 ret3 queue capacity st =
     (if queue = NULL then Returns st (- 1)
      else
        let q = zero_queue\<lparr>q_capacity := capacity, q_shutdown := False\<rparr>; live = snd st in
        if ret1 \<noteq> 0 then Returns (q, live) (- 1)
        else
          let live = insert Queue_Lock live in
          if ret2 \<noteq> 0 then Returns (q, live - {Queue_Lock}) (- 1)
          else
            let live = insert Queue_Not_Empty live in
            if ret3 \<noteq> 0 then Returns (q, live - {Queue_Not_Empty} - {Queue_Lock}) (- 1)
            else Returns (q, insert Queue_Not_Full live) 0)"

text \<open>The loop that frees the nodes. None: it reads or frees a block that is not live, or never ends.\<close>

partial_function (option) free_nodes ::
  "ptr \<Rightarrow> (ptr \<Rightarrow> task_node option) \<Rightarrow> (ptr \<Rightarrow> task_node option) option" where
  "free_nodes node nodes =
     (if node = NULL then Some nodes
      else case nodes node of None \<Rightarrow> None
      | Some nd \<Rightarrow> free_nodes (tn_next nd) (nodes(node := None)))"

declare free_nodes.simps [code]

definition task_queue_destroy ::
  "ptr \<Rightarrow> task_queue \<times> queue_part set \<Rightarrow> (task_queue \<times> queue_part set, unit) outcome" where
  "task_queue_destroy queue st =
     (if queue = NULL then Returns st ()
      else case free_nodes (q_head (fst st)) (q_nodes (fst st)) of
        None \<Rightarrow> Undefined
      | Some nodes \<Rightarrow>
          Returns ((fst st)\<lparr>q_head := NULL, q_tail := NULL, q_count := 0, q_nodes := nodes\<rparr>,
            snd st - {Queue_Not_Full} - {Queue_Not_Empty} - {Queue_Lock}) ())"

section \<open>The critical sections\<close>

datatype queue_op = Push ptr task | Pop | Try_Pop | Size | Shutdown
datatype queue_res = Q_Int int | Q_Task ptr ptr | Q_Size size_t | Q_Unit
datatype queue_cond = Not_Empty | Not_Full

text \<open>The body of push; \<open>node\<close> is the malloc'd node, whose fields were set before the lock.\<close>

definition link_tail :: "ptr \<Rightarrow> task \<Rightarrow> task_queue \<Rightarrow> task_queue option" where
  "link_tail node t q =
     (let nodes = (q_nodes q)(node \<mapsto> task.extend t \<lparr>tn_next = NULL\<rparr>) in
      if q_tail q \<noteq> NULL then
        (case nodes (q_tail q) of None \<Rightarrow> None
         | Some l \<Rightarrow> Some (q\<lparr>q_nodes := nodes(q_tail q \<mapsto> l\<lparr>tn_next := node\<rparr>), q_tail := node,
             q_count := q_count q + 1\<rparr>))
      else Some (q\<lparr>q_nodes := nodes, q_head := node, q_tail := node, q_count := q_count q + 1\<rparr>))"

text \<open>The body of pop and try_pop, with the reads and the free after the unlock.\<close>

definition unlink_head :: "task_queue \<Rightarrow> (task_queue \<times> queue_res) option" where
  "unlink_head q =
     (let node = q_head q in
      case q_nodes q node of None \<Rightarrow> None
      | Some nd \<Rightarrow> Some
          (q\<lparr>q_head := tn_next nd, q_tail := (if tn_next nd = NULL then NULL else q_tail q),
             q_count := q_count q - 1, q_nodes := (q_nodes q)(node := None)\<rparr>,
           Q_Task (t_func nd) (t_arg nd)))"

definition push_section :: "ptr \<Rightarrow> task \<Rightarrow> (task_queue, queue_cond, queue_res) crit" where
  "push_section node t = \<lparr>
     cs_entry = (\<lambda>q. if q_shutdown q then Some (Q_Int (- 1)) else None),
     cs_guard = (\<lambda>q. if 0 < q_capacity q \<and> q_capacity q \<le> q_count q \<and> \<not> q_shutdown q
       then Some Not_Full else None),
     cs_leave = (\<lambda>q. if q_shutdown q then Some (Q_Int (- 1)) else None),
     cs_body = (\<lambda>q. map_option (\<lambda>q'. (q', Q_Int 0)) (link_tail node t q)),
     cs_notify = (\<lambda>_. [Signal Not_Empty])\<rparr>"

definition notify_not_full :: "task_queue \<Rightarrow> queue_cond notice list" where
  "notify_not_full q = (if 0 < q_capacity q then [Signal Not_Full] else [])"

definition pop_section :: "(task_queue, queue_cond, queue_res) crit" where
  "pop_section = \<lparr>
     cs_entry = (\<lambda>_. None),
     cs_guard = (\<lambda>q. if q_count q = 0 \<and> \<not> q_shutdown q then Some Not_Empty else None),
     cs_leave = (\<lambda>q. if q_count q = 0 \<and> q_shutdown q then Some (Q_Int (- 1)) else None),
     cs_body = unlink_head,
     cs_notify = notify_not_full\<rparr>"

definition try_pop_section :: "(task_queue, queue_cond, queue_res) crit" where
  "try_pop_section = \<lparr>
     cs_entry = (\<lambda>q. if q_count q = 0 then Some (Q_Int (- 1)) else None),
     cs_guard = (\<lambda>_. None),
     cs_leave = (\<lambda>_. None),
     cs_body = unlink_head,
     cs_notify = notify_not_full\<rparr>"

definition size_section :: "(task_queue, queue_cond, queue_res) crit" where
  "size_section = \<lparr>
     cs_entry = (\<lambda>_. None), cs_guard = (\<lambda>_. None), cs_leave = (\<lambda>_. None),
     cs_body = (\<lambda>q. Some (q, Q_Size (q_count q))), cs_notify = (\<lambda>_. [])\<rparr>"

definition shutdown_section :: "(task_queue, queue_cond, queue_res) crit" where
  "shutdown_section = \<lparr>
     cs_entry = (\<lambda>_. None), cs_guard = (\<lambda>_. None), cs_leave = (\<lambda>_. None),
     cs_body = (\<lambda>q. Some (q\<lparr>q_shutdown := True\<rparr>, Q_Unit)),
     cs_notify = (\<lambda>_. [Broadcast Not_Empty, Broadcast Not_Full])\<rparr>"

lemmas [section_defs] = push_section_def pop_section_def try_pop_section_def size_section_def
  shutdown_section_def notify_not_full_def

fun queue_section :: "queue_op \<Rightarrow> (task_queue, queue_cond, queue_res) crit" where
  "queue_section (Push node t) = push_section node t"
| "queue_section Pop = pop_section"
| "queue_section Try_Pop = try_pop_section"
| "queue_section Size = size_section"
| "queue_section Shutdown = shutdown_section"

text \<open>
  The checks before the lock. \<open>node\<close> is malloc's answer, \<open>now\<close> that of \<open>platform_get_time_ns\<close>. A
  push that returns -1 from its section frees the node, which never became part of the queue.
\<close>

definition task_queue_push ::
  "ptr \<Rightarrow> ptr \<Rightarrow> ptr \<Rightarrow> task_priority \<Rightarrow> ptr \<Rightarrow> u64 \<Rightarrow> queue_res + queue_op" where
  "task_queue_push queue func arg priority node now =
     (if queue = NULL \<or> func = NULL then Inl (Q_Int (- 1))
      else if node = NULL then Inl (Q_Int (- 1))
      else Inr (Push node \<lparr>t_func = func, t_arg = arg, t_priority = priority, t_submit_time = now\<rparr>))"

definition task_queue_pop :: "ptr \<Rightarrow> ptr \<Rightarrow> ptr \<Rightarrow> queue_res + queue_op" where
  "task_queue_pop queue out_func out_arg =
     (if queue = NULL \<or> out_func = NULL \<or> out_arg = NULL then Inl (Q_Int (- 1)) else Inr Pop)"

definition task_queue_try_pop :: "ptr \<Rightarrow> ptr \<Rightarrow> ptr \<Rightarrow> queue_res + queue_op" where
  "task_queue_try_pop queue out_func out_arg =
     (if queue = NULL \<or> out_func = NULL \<or> out_arg = NULL then Inl (Q_Int (- 1)) else Inr Try_Pop)"

definition task_queue_size :: "ptr \<Rightarrow> queue_res + queue_op" where
  "task_queue_size queue = (if queue = NULL then Inl (Q_Size 0) else Inr Size)"

definition task_queue_shutdown :: "ptr \<Rightarrow> queue_res + queue_op" where
  "task_queue_shutdown queue = (if queue = NULL then Inl Q_Unit else Inr Shutdown)"

fun queue_claims :: "queue_op \<Rightarrow> ptr set" where
  "queue_claims (Push node t) = {node}"
| "queue_claims _ = {}"

definition queue_monitor :: "(queue_op, task_queue, queue_cond, queue_res) monitor" where
  "queue_monitor = \<lparr>sect = queue_section, claims = queue_claims,
     used = (\<lambda>q. insert NULL (dom (q_nodes q)))\<rparr>"

lemma queue_monitor_simps [simp]:
  "sect queue_monitor = queue_section" "claims queue_monitor = queue_claims"
  "used queue_monitor q = insert NULL (dom (q_nodes q))"
  by (simp_all add: queue_monitor_def)

section \<open>Well-formed queues\<close>

definition next_of :: "(ptr \<Rightarrow> task_node option) \<Rightarrow> ptr \<Rightarrow> ptr option" where
  "next_of nodes p = map_option tn_next (nodes p)"

text \<open>
  \<open>xs\<close> are the nodes of the queue in order: all of its nodes, as many as \<open>count\<close> says, the last
  one being the tail, and not more than the capacity allows.
\<close>

definition queue_repr :: "task_queue \<Rightarrow> ptr list \<Rightarrow> bool" where
  "queue_repr q xs \<longleftrightarrow> chain (next_of (q_nodes q)) (q_head q) xs \<and> set xs = dom (q_nodes q) \<and>
     unat (q_count q) = length xs \<and> q_tail q = (if xs = [] then NULL else last xs) \<and>
     (q_capacity q \<noteq> 0 \<longrightarrow> length xs \<le> unat (q_capacity q))"

definition queue_wf :: "task_queue \<Rightarrow> bool" where
  "queue_wf q \<longleftrightarrow> (\<exists>xs. queue_repr q xs)"

text \<open>The queue's contents, read off by following the list.\<close>

fun node_list :: "nat \<Rightarrow> ptr \<Rightarrow> (ptr \<Rightarrow> task_node option) \<Rightarrow> ptr list" where
  "node_list 0 p nodes = []"
| "node_list (Suc n) p nodes =
     (case nodes p of None \<Rightarrow> [] | Some nd \<Rightarrow> p # node_list n (tn_next nd) nodes)"

definition contents :: "task_queue \<Rightarrow> task list" where
  "contents q = map (\<lambda>p. task.truncate (the (q_nodes q p)))
     (node_list (unat (q_count q)) (q_head q) (q_nodes q))"

lemma next_of_upd [simp]: "next_of (nodes(p \<mapsto> nd)) = (next_of nodes)(p \<mapsto> tn_next nd)"
  "next_of (nodes(p := None)) = (next_of nodes)(p := None)"
  by (auto simp: next_of_def)

lemma node_list_chain: "chain (next_of nodes) p xs \<Longrightarrow> node_list (length xs) p nodes = xs"
  by (induction xs arbitrary: p) (auto simp: next_of_def)

lemma contents_repr:
  "queue_repr q xs \<Longrightarrow> contents q = map (\<lambda>p. task.truncate (the (q_nodes q p))) xs"
  unfolding contents_def queue_repr_def by (metis node_list_chain)

lemma contents_empty: "queue_wf q \<Longrightarrow> contents q = [] \<longleftrightarrow> q_count q = 0"
  by (auto simp: queue_wf_def contents_repr) (auto simp: queue_repr_def unat_eq_zero)

lemma length_contents: "queue_wf q \<Longrightarrow> length (contents q) = unat (q_count q)"
  by (auto simp: queue_wf_def contents_repr) (simp add: queue_repr_def)

lemma truncate_next [simp]: "task.truncate (nd\<lparr>tn_next := a\<rparr>) = task.truncate nd"
  "task.truncate (task.extend t m) = task.truncate t" "task.truncate (t :: task) = t"
  "tn_next (task.extend t \<lparr>tn_next = a\<rparr>) = a"
  by (simp_all add: task.defs)

text \<open>Linking and unlinking a node.\<close>

lemma repr_count_inc:
  assumes "queue_repr q xs" and "chain nx p (xs @ [a])"
  shows "unat (q_count q + 1) = length xs + 1"
proof -
  have "length xs + 1 < 2 ^ 64" using chain_length [OF assms(2)] by simp
  then have "unat (q_count q) + 1 < 2 ^ LENGTH(64)" using assms(1) by (simp add: queue_repr_def)
  then have "unat (q_count q + 1) = Suc (unat (q_count q))" by (rule unat_Suc_no_wrap)
  then show ?thesis using assms(1) by (simp add: queue_repr_def)
qed

lemma link_tail_repr:
  assumes r: "queue_repr q xs" and a: "a \<notin> dom (q_nodes q)" "a \<noteq> NULL"
    and cap: "q_capacity q \<noteq> 0 \<longrightarrow> length xs < unat (q_capacity q)"
  shows "\<exists>q'. link_tail a t q = Some q' \<and> queue_repr q' (xs @ [a]) \<and> contents q' = contents q @ [t] \<and>
    q_capacity q' = q_capacity q \<and> q_shutdown q' = q_shutdown q \<and> q_count q' = q_count q + 1 \<and>
    dom (q_nodes q') = insert a (dom (q_nodes q))"
proof (cases "xs = []")
  case True
  let ?q = "q\<lparr>q_nodes := (q_nodes q)(a \<mapsto> task.extend t \<lparr>tn_next = NULL\<rparr>), q_head := a, q_tail := a,
    q_count := q_count q + 1\<rparr>"
  have l: "link_tail a t q = Some ?q" using r True by (simp add: link_tail_def queue_repr_def)
  have d: "dom (q_nodes q) = {}" "q_count q = 0" using r True by (auto simp: queue_repr_def unat_eq_zero)
  then have r': "queue_repr ?q [a]"
    using a(2) cap True by (auto simp: queue_repr_def)
  then have "contents ?q = [t]" by (simp add: contents_repr)
  moreover have "contents q = []" using r True by (simp add: contents_repr)
  ultimately show ?thesis using l r' True by auto
next
  case False
  let ?z = "last xs"
  have ne: "?z \<noteq> NULL" "?z \<noteq> a" "q_tail q = ?z" "a \<notin> set xs" "?z \<in> set xs"
    using r a False last_in_set [OF False] by (auto simp: queue_repr_def dest: chain_no_NULL)
  obtain l where l: "q_nodes q ?z = Some l"
    using r ne by (auto simp: queue_repr_def)
  let ?ns = "(q_nodes q)(a \<mapsto> task.extend t \<lparr>tn_next = NULL\<rparr>, ?z \<mapsto> l\<lparr>tn_next := a\<rparr>)"
  let ?q = "q\<lparr>q_nodes := ?ns, q_tail := a, q_count := q_count q + 1\<rparr>"
  have lt: "link_tail a t q = Some ?q" using ne l by (simp add: link_tail_def Let_def)
  have "chain ((next_of (q_nodes q))(a \<mapsto> NULL, ?z \<mapsto> a)) (q_head q) (xs @ [a])"
    using r ne a False by (intro chain_snoc) (auto simp: queue_repr_def)
  then have c: "chain (next_of ?ns) (q_head q) (xs @ [a])" by simp
  have d: "dom ?ns = insert a (dom (q_nodes q))" using l by auto
  have r': "queue_repr ?q (xs @ [a])"
    unfolding queue_repr_def using c d r cap repr_count_inc [OF r c] by (auto simp: queue_repr_def)
  have "map (\<lambda>p. task.truncate (the (?ns p))) xs = map (\<lambda>p. task.truncate (the (q_nodes q p))) xs"
    using l ne(4) by auto
  moreover have "task.truncate (the (?ns a)) = t" using ne(2) by simp
  ultimately have "contents ?q = contents q @ [t]"
    unfolding contents_repr [OF r'] contents_repr [OF r] by simp
  with lt r' d show ?thesis by auto
qed

lemma unlink_head_repr:
  assumes r: "queue_repr q xs" and ne: "q_count q \<noteq> 0"
  shows "\<exists>q' t. unlink_head q = Some (q', Q_Task (t_func t) (t_arg t)) \<and> queue_repr q' (tl xs) \<and>
    contents q = t # contents q' \<and>
    q_capacity q' = q_capacity q \<and> q_shutdown q' = q_shutdown q \<and> q_count q' = q_count q - 1 \<and>
    dom (q_nodes q') = dom (q_nodes q) - {q_head q}"
proof -
  have "xs \<noteq> []" using r ne by (auto simp: queue_repr_def unat_eq_zero)
  then obtain x ys where xs: "xs = x # ys" by (cases xs) auto
  then obtain nd where nd: "q_nodes q x = Some nd" and h: "q_head q = x" "x \<noteq> NULL"
    and c: "chain (next_of (q_nodes q)) (tn_next nd) ys"
    using r by (auto simp: queue_repr_def next_of_def)
  have x: "x \<notin> set ys"
    using chain_distinct [of "next_of (q_nodes q)" "q_head q" xs] r xs by (simp add: queue_repr_def)
  let ?q = "q\<lparr>q_head := tn_next nd, q_tail := (if tn_next nd = NULL then NULL else q_tail q),
             q_count := q_count q - 1, q_nodes := (q_nodes q)(x := None)\<rparr>"
  have u: "unlink_head q = Some (?q, Q_Task (t_func nd) (t_arg nd))"
    using nd h by (simp add: unlink_head_def)
  have n: "tn_next nd = NULL \<longleftrightarrow> ys = []" using c by (cases ys) auto
  have "chain ((next_of (q_nodes q))(x := None)) (tn_next nd) ys" using c x by simp
  moreover have "unat (q_count q - 1) = length ys"
    using r xs unat_minus_one_pos [OF ne] by (simp add: queue_repr_def)
  moreover have "set ys = dom (q_nodes q) - {x}" using r xs x by (auto simp: queue_repr_def)
  ultimately have r': "queue_repr ?q ys"
    using r xs n by (auto simp: queue_repr_def)
  have "map (\<lambda>p. task.truncate (the (((q_nodes q)(x := None)) p))) ys =
      map (\<lambda>p. task.truncate (the (q_nodes q p))) ys"
    using x by auto
  then have "contents q = task.truncate nd # contents ?q"
    unfolding contents_repr [OF r'] contents_repr [OF r] using xs nd by simp
  moreover have "t_func (task.truncate nd) = t_func nd" "t_arg (task.truncate nd) = t_arg nd"
    by (simp_all add: task.defs)
  ultimately show ?thesis using u r' xs h
    by (intro exI [of _ ?q] exI [of _ "task.truncate nd"]) auto
qed

section \<open>The laws\<close>

lemma queue_can_wait:
  "can_wait queue_monitor op c \<longleftrightarrow>
     op = Pop \<and> c = Not_Empty \<or> (\<exists>a t. op = Push a t) \<and> c = Not_Full"
proof
  assume "op = Pop \<and> c = Not_Empty \<or> (\<exists>a t. op = Push a t) \<and> c = Not_Full"
  moreover have "cs_guard (queue_section Pop) zero_queue = Some Not_Empty"
    "cs_guard (queue_section (Push a t)) (zero_queue\<lparr>q_capacity := 1, q_count := 1\<rparr>) = Some Not_Full" for a t
    by (simp_all add: section_defs zero_queue_def)
  ultimately show "can_wait queue_monitor op c" by (auto simp: can_wait_def simp del: queue_section.simps)
qed (cases op; auto simp: can_wait_def section_defs split: if_splits)

text \<open>How many waiters a queue has work for: producers for the free slots, consumers for the tasks.\<close>

definition queue_avail :: "queue_cond \<Rightarrow> task_queue \<Rightarrow> enat" where
  "queue_avail c q =
     (if q_shutdown q then \<infinity>
      else case c of
        Not_Empty \<Rightarrow> enat (unat (q_count q))
      | Not_Full \<Rightarrow> if q_capacity q = 0 then \<infinity> else enat (unat (q_capacity q) - unat (q_count q)))"

lemma push_guard: "cs_guard (queue_section (Push a t)) q = None \<Longrightarrow> \<not> q_shutdown q \<Longrightarrow>
    q_capacity q \<noteq> 0 \<longrightarrow> unat (q_count q) < unat (q_capacity q)"
  by (auto simp: section_defs word_gt_0 word_le_nat_alt split: if_splits)

lemma push_wf:
  assumes wf: "queue_wf q" and a: "a \<notin> dom (q_nodes q)" "a \<noteq> NULL"
    and g: "cs_guard (queue_section (Push a t)) q = None" "\<not> q_shutdown q"
  shows "\<exists>q'. link_tail a t q = Some q' \<and> queue_wf q' \<and> contents q' = contents q @ [t] \<and>
    q_capacity q' = q_capacity q \<and> q_shutdown q' = q_shutdown q \<and> q_count q' = q_count q + 1 \<and>
    unat (q_count q') = unat (q_count q) + 1 \<and> dom (q_nodes q') = insert a (dom (q_nodes q))"
proof -
  obtain xs where r: "queue_repr q xs" using wf by (auto simp: queue_wf_def)
  then have n: "unat (q_count q) = length xs" by (simp add: queue_repr_def)
  from link_tail_repr [OF r a, of t] push_guard [OF g] n obtain q' where
    q': "link_tail a t q = Some q'" "queue_repr q' (xs @ [a])" "contents q' = contents q @ [t]"
    "q_capacity q' = q_capacity q" "q_shutdown q' = q_shutdown q" "q_count q' = q_count q + 1"
    "dom (q_nodes q') = insert a (dom (q_nodes q))" by auto
  from q'(2) n have "unat (q_count q') = unat (q_count q) + 1" by (simp add: queue_repr_def)
  with q' show ?thesis by (auto simp: queue_wf_def)
qed

lemma pop_wf:
  assumes wf: "queue_wf q" and ne: "q_count q \<noteq> 0"
  shows "\<exists>q' t. unlink_head q = Some (q', Q_Task (t_func t) (t_arg t)) \<and> queue_wf q' \<and>
    contents q = t # contents q' \<and>
    q_capacity q' = q_capacity q \<and> q_shutdown q' = q_shutdown q \<and> q_count q' = q_count q - 1 \<and>
    dom (q_nodes q') = dom (q_nodes q) - {q_head q}"
proof -
  obtain xs where r: "queue_repr q xs" using wf by (auto simp: queue_wf_def)
  from unlink_head_repr [OF r ne] show ?thesis by (auto simp: queue_wf_def)
qed

lemma shutdown_wf [simp]: "queue_wf (q\<lparr>q_shutdown := b\<rparr>) = queue_wf q"
  "contents (q\<lparr>q_shutdown := b\<rparr>) = contents q"
  by (simp_all add: queue_wf_def queue_repr_def contents_def)

lemma enat_minus_inc: "enat (c - (m - 1)) \<le> enat (c - m) + 1"
  by (simp add: one_enat_def)

interpretation queue: monitor_wakeup queue_monitor queue_wf queue_avail
proof unfold_locales
  fix op c d r
  assume "can_wait queue_monitor op c" "cs_entry (sect queue_monitor op) d = Some r"
  then show "cs_leave (sect queue_monitor op) d = Some r"
    by (auto simp: queue_can_wait section_defs)
next
  fix op d
  assume wf: "queue_wf d" and cl: "claims queue_monitor op \<inter> used queue_monitor d = {}"
    and e: "cs_entry (sect queue_monitor op) d = None" and g: "cs_guard (sect queue_monitor op) d = None"
    and l: "cs_leave (sect queue_monitor op) d = None"
  show "\<exists>d' r. cs_body (sect queue_monitor op) d = Some (d', r) \<and> queue_wf d' \<and>
      used queue_monitor d' \<subseteq> used queue_monitor d \<union> claims queue_monitor op"
  proof (cases op)
    case (Push a t)
    have "\<not> q_shutdown d" using e Push by (auto simp: section_defs split: if_splits)
    from push_wf [OF wf _ _ g [unfolded Push queue_monitor_simps] this] cl Push obtain q' where
      "link_tail a t d = Some q'" "queue_wf q'" "dom (q_nodes q') = insert a (dom (q_nodes d))" by auto
    with Push show ?thesis by (auto simp: section_defs)
  next
    case Pop
    have "q_count d \<noteq> 0" using g l Pop by (auto simp: section_defs split: if_splits)
    from pop_wf [OF wf this] Pop show ?thesis by (auto simp: section_defs)
  next
    case Try_Pop
    have "q_count d \<noteq> 0" using e Try_Pop by (auto simp: section_defs split: if_splits)
    from pop_wf [OF wf this] Try_Pop show ?thesis by (auto simp: section_defs)
  next
    case Size
    with wf show ?thesis by (auto simp: section_defs)
  next
    case Shutdown
    with wf show ?thesis by (auto simp: section_defs)
  qed
next
  fix op c c' assume "can_wait queue_monitor op c" "can_wait queue_monitor op c'"
  then show "c' = c" by (auto simp: queue_can_wait)
next
  fix d op c assume "can_wait queue_monitor op c"
  then show "(cs_guard (sect queue_monitor op) d = Some c) = (queue_avail c d = 0)"
    by (auto simp: queue_can_wait section_defs queue_avail_def zero_enat_def unat_eq_zero word_gt_0
        word_le_nat_alt split: if_splits)
next
  fix d op c r assume "can_wait queue_monitor op c" "cs_leave (sect queue_monitor op) d = Some r"
  then show "queue_avail c d = \<infinity>"
    by (auto simp: queue_can_wait section_defs queue_avail_def split: if_splits)
next
  fix d op d' r c
  assume wf: "queue_wf d"
    and e: "cs_entry (sect queue_monitor op) d = None" and g: "cs_guard (sect queue_monitor op) d = None"
    and l: "cs_leave (sect queue_monitor op) d = None"
    and b: "cs_body (sect queue_monitor op) d = Some (d', r)"
  have pop: "queue_avail c d' \<le> (queue_avail c d - (if c = Not_Empty \<and> op = Pop then 1 else 0)) +
      notices c (notify_not_full d')" if u: "unlink_head d = Some (d', r)" "q_count d \<noteq> 0"
  proof -
    from pop_wf [OF wf u(2)] u(1) have d': "q_capacity d' = q_capacity d" "q_shutdown d' = q_shutdown d"
      "q_count d' = q_count d - 1" by auto
    have "unat (q_count d') = unat (q_count d) - 1" "unat (q_count d) > 0"
      using u(2) d' by (simp_all add: unat_minus_one_pos unat_gt_0)
    then show ?thesis
      using d' enat_minus_inc
      by (cases c) (auto simp: queue_avail_def notify_not_full_def one_enat_def word_gt_0)
  qed
  show "queue_avail c d' \<le> (queue_avail c d - (if can_wait queue_monitor op c then 1 else 0))
      + notices c (cs_notify (sect queue_monitor op) d')"
  proof (cases op)
    case (Push a t)
    have sh: "\<not> q_shutdown d" using e Push by (auto simp: section_defs split: if_splits)
    from b Push have lt: "link_tail a t d = Some d'" by (auto simp: section_defs)
    then have d': "q_capacity d' = q_capacity d" "q_shutdown d' = q_shutdown d"
      "q_count d' = q_count d + 1"
      by (auto simp: link_tail_def Let_def split: if_splits option.splits)
    have full: "q_capacity d \<noteq> 0 \<longrightarrow> unat (q_count d) < unat (q_capacity d)"
      using push_guard [OF _ sh] g Push by simp
    then have "q_capacity d \<noteq> 0 \<longrightarrow> unat (q_count d') = Suc (unat (q_count d))"
      using unat_bound64 [of "q_capacity d"] unfolding d'(3) by (auto intro!: unat_Suc_no_wrap)
    moreover have "unat (q_count d') \<le> Suc (unat (q_count d))"
      unfolding d'(3) by (rule unat_plus_one_le)
    ultimately show ?thesis using Push d' sh
      by (cases c) (auto simp: queue_can_wait queue_avail_def section_defs one_enat_def)
  next
    case Pop
    then have "q_count d \<noteq> 0" using g l by (auto simp: section_defs split: if_splits)
    with pop b Pop show ?thesis by (cases c) (auto simp: queue_can_wait section_defs)
  next
    case Try_Pop
    then have "q_count d \<noteq> 0" using e by (auto simp: section_defs split: if_splits)
    with pop b Try_Pop show ?thesis by (cases c) (auto simp: queue_can_wait section_defs)
  next
    case Size
    with b show ?thesis by (auto simp: queue_can_wait section_defs)
  next
    case Shutdown
    with b show ?thesis by (cases c) (auto simp: section_defs queue_avail_def)
  qed
qed

end
