(* ===== verification/Fifo.thy ===== *)
theory Fifo
  imports Scheduler
begin

text \<open>
  What the task queue promises: a bounded FIFO channel that can be shut down. \<open>fifo_step\<close> is the
  contract, on lists; the linked list of scheduler.c implements it, alone and under any
  interleaving of its callers.
\<close>

section \<open>The contract\<close>

record fifo =
  f_capacity :: nat
  f_tasks :: "task list"
  f_shutdown :: bool

fun fifo_step :: "queue_op \<Rightarrow> fifo \<Rightarrow> (fifo, queue_res) outcome" where
  "fifo_step (Push node t) f =
     (if f_shutdown f then Returns f (Q_Int (- 1))
      else if 0 < f_capacity f \<and> f_capacity f \<le> length (f_tasks f) then Blocks
      else Returns (f\<lparr>f_tasks := f_tasks f @ [t]\<rparr>) (Q_Int 0))"
| "fifo_step Pop f =
     (case f_tasks f of
        [] \<Rightarrow> if f_shutdown f then Returns f (Q_Int (- 1)) else Blocks
      | t # ts \<Rightarrow> Returns (f\<lparr>f_tasks := ts\<rparr>) (Q_Task (t_func t) (t_arg t)))"
| "fifo_step Try_Pop f =
     (case f_tasks f of
        [] \<Rightarrow> Returns f (Q_Int (- 1))
      | t # ts \<Rightarrow> Returns (f\<lparr>f_tasks := ts\<rparr>) (Q_Task (t_func t) (t_arg t)))"
| "fifo_step Size f = Returns f (Q_Size (word_of_nat (length (f_tasks f))))"
| "fifo_step Shutdown f = Returns (f\<lparr>f_shutdown := True\<rparr>) Q_Unit"

definition queue_abs :: "task_queue \<Rightarrow> fifo" where
  "queue_abs q = \<lparr>f_capacity = unat (q_capacity q), f_tasks = contents q, f_shutdown = q_shutdown q\<rparr>"

lemma queue_abs_simps [simp]:
  "f_capacity (queue_abs q) = unat (q_capacity q)" "f_tasks (queue_abs q) = contents q"
  "f_shutdown (queue_abs q) = q_shutdown q"
  by (simp_all add: queue_abs_def)

lemma queue_empty_iff: "queue_wf q \<Longrightarrow> q_count q = 0 \<longleftrightarrow> contents q = []"
  by (simp add: contents_empty)

lemma queue_section_refines:
  assumes wf: "queue_wf q" and cl: "queue_claims op \<inter> insert NULL (dom (q_nodes q)) = {}"
  shows "map_outcome queue_abs (run_section (queue_section op) q) = fifo_step op (queue_abs q)"
proof (cases op)
  case (Push a t)
  show ?thesis
  proof (cases "q_shutdown q \<or> cs_guard (queue_section (Push a t)) q \<noteq> None")
    case True
    with Push length_contents [OF wf] show ?thesis
      by (auto simp: run_section_def section_defs word_gt_0 unat_gt_0 word_le_nat_alt split: if_splits)
  next
    case False
    then have g: "cs_guard (queue_section (Push a t)) q = None" "\<not> q_shutdown q" by auto
    from push_wf [OF wf _ _ this] cl Push obtain q' where
      q': "link_tail a t q = Some q'" "contents q' = contents q @ [t]" "q_capacity q' = q_capacity q"
      "q_shutdown q' = q_shutdown q" by auto
    with Push g push_guard [OF g] length_contents [OF wf] show ?thesis
      by (auto simp: run_section_def section_defs queue_abs_def unat_gt_0 split: if_splits)
  qed
next
  case Pop
  show ?thesis
  proof (cases "q_count q = 0")
    case True
    with Pop wf show ?thesis by (simp add: run_section_def section_defs queue_empty_iff)
  next
    case False
    from pop_wf [OF wf this] Pop False show ?thesis
      by (auto simp: run_section_def section_defs queue_abs_def)
  qed
next
  case Try_Pop
  show ?thesis
  proof (cases "q_count q = 0")
    case True
    with Try_Pop wf show ?thesis by (simp add: run_section_def section_defs queue_empty_iff)
  next
    case False
    from pop_wf [OF wf this] Try_Pop False show ?thesis
      by (auto simp: run_section_def section_defs queue_abs_def)
  qed
next
  case Size
  with length_contents [OF wf] show ?thesis by (simp add: run_section_def section_defs)
next
  case Shutdown
  then show ?thesis by (simp add: run_section_def section_defs queue_abs_def)
qed

interpretation fifo: monitor_spec queue_monitor queue_wf fifo_step queue_abs
  by unfold_locales (simp add: queue_section_refines)

section \<open>The queue implements the contract\<close>

text \<open>A queue as \<open>task_queue_init\<close> leaves it, with room for one task, and two tasks for the examples.\<close>

definition new_queue :: "size_t \<Rightarrow> task_queue" where
  "new_queue capacity = zero_queue\<lparr>q_capacity := capacity\<rparr>"

lemma new_queue_wf [simp]: "queue_wf (new_queue n)" "contents (new_queue n) = []"
  "q_shutdown (new_queue n) = False" "q_capacity (new_queue n) = n" "q_nodes (new_queue n) = Map.empty"
  by (auto simp: new_queue_def zero_queue_def queue_wf_def queue_repr_def contents_def)

definition example_task :: "ptr \<Rightarrow> task_priority \<Rightarrow> task" where
  "example_task arg pr = \<lparr>t_func = 4096, t_arg = arg, t_priority = pr, t_submit_time = 0\<rparr>"

text \<open>
  C2. On a well-formed queue each of the five operations does what the contract says: it returns
  the contract's result with the contract's new contents, or blocks exactly where the contract
  does; it is never undefined and leaves a well-formed queue of the same capacity.
\<close>

theorem task_queue_refines_fifo:
  assumes "queue_wf q" and "claims queue_monitor op \<inter> used queue_monitor q = {}"
  shows "map_outcome queue_abs (run_section (queue_section op) q) = fifo_step op (queue_abs q) \<and>
    run_section (queue_section op) q \<noteq> Undefined \<and>
    (\<forall>q' r. run_section (queue_section op) q = Returns q' r \<longrightarrow>
      queue_wf q' \<and> q_capacity q' = q_capacity q)"
proof -
  have r: "map_outcome queue_abs (run_section (queue_section op) q) = fifo_step op (queue_abs q)"
    using assms by (simp add: queue_section_refines)
  have c: "fifo_step op f = Returns f' x \<Longrightarrow> f_capacity f' = f_capacity f" for f f' x
    by (cases op) (auto split: if_splits list.splits)
  have u: "fifo_step op f \<noteq> Undefined" for f
    by (cases op) (auto split: if_splits list.splits)
  have w: "queue_wf q'" if "run_section (queue_section op) q = Returns q' x" for q' x
    using that assms(1) queue.body_ok [OF assms] by (auto simp: run_section_def split: option.splits)
  show ?thesis
  proof (intro conjI allI impI)
    show "run_section (queue_section op) q \<noteq> Undefined" using r u [of "queue_abs q"] by auto
  next
    fix q' x assume e: "run_section (queue_section op) q = Returns q' x"
    then show "queue_wf q'" by (rule w)
    from c r e have "unat (q_capacity q') = unat (q_capacity q)"
      by (metis map_outcome.simps(1) queue_abs_simps(1))
    then show "q_capacity q' = q_capacity q" by (rule unsigned_word_eqI)
  qed (rule r)
qed

lemma task_queue_refines_fifo_witness:
  "\<exists>q'. run_section (queue_section (Push 64 (example_task 7 TASK_PRIORITY_HIGH))) (new_queue 1) =
      Returns q' (Q_Int 0) \<and> queue_wf q' \<and> contents q' = [example_task 7 TASK_PRIORITY_HIGH]"
proof -
  let ?op = "Push 64 (example_task 7 TASK_PRIORITY_HIGH)"
  have "claims queue_monitor ?op \<inter> used queue_monitor (new_queue 1) = {}"
    by simp
  note * = task_queue_refines_fifo [OF new_queue_wf(1) this]
  then obtain q' where q': "run_section (queue_section ?op) (new_queue 1) = Returns q' (Q_Int 0)"
    "queue_abs q' = queue_abs (new_queue 1)\<lparr>f_tasks := [example_task 7 TASK_PRIORITY_HIGH]\<rparr>"
    by (cases "run_section (queue_section ?op) (new_queue 1)") auto
  then have "contents q' = [example_task 7 TASK_PRIORITY_HIGH]" by (simp add: queue_abs_def)
  with * q' show ?thesis by blast
qed

section \<open>Concurrent producers and consumers\<close>

text \<open>The tasks (function and argument) that a logged call has put into the queue or taken out.\<close>

fun pushed_by :: "tid \<times> queue_op \<times> queue_res \<Rightarrow> (ptr \<times> ptr) list" where
  "pushed_by (t, Push node k, r) = (if r = Q_Int 0 then [(t_func k, t_arg k)] else [])"
| "pushed_by e = []"

fun popped_by :: "tid \<times> queue_op \<times> queue_res \<Rightarrow> (ptr \<times> ptr) list" where
  "popped_by (t, op, Q_Task f a) = [(f, a)]"
| "popped_by e = []"

definition pushed :: "(tid \<times> queue_op \<times> queue_res) list \<Rightarrow> (ptr \<times> ptr) list" where
  "pushed es = concat (map pushed_by es)"

definition popped :: "(tid \<times> queue_op \<times> queue_res) list \<Rightarrow> (ptr \<times> ptr) list" where
  "popped es = concat (map popped_by es)"

definition task_ref :: "task \<Rightarrow> ptr \<times> ptr" where
  "task_ref k = (t_func k, t_arg k)"

text \<open>What the calls of a run may answer once the queue is shut down.\<close>

fun obeys_shutdown :: "bool \<Rightarrow> (tid \<times> queue_op \<times> queue_res) list \<Rightarrow> bool" where
  "obeys_shutdown sd [] = True"
| "obeys_shutdown sd ((t, Push node k, r) # es) =
     (r = Q_Int (if sd then - 1 else 0) \<and> obeys_shutdown sd es)"
| "obeys_shutdown sd ((t, Pop, r) # es) = ((r = Q_Int (- 1) \<longrightarrow> sd) \<and> obeys_shutdown sd es)"
| "obeys_shutdown sd ((t, Shutdown, r) # es) = obeys_shutdown True es"
| "obeys_shutdown sd (e # es) = obeys_shutdown sd es"

lemma pushed_append [simp]: "pushed (es @ fs) = pushed es @ pushed fs"
  and popped_append [simp]: "popped (es @ fs) = popped es @ popped fs"
  by (simp_all add: pushed_def popped_def)

lemma pushed_simps [simp]: "pushed [] = []" "pushed [e] = pushed_by e" "popped [] = []"
  "popped [e] = popped_by e"
  by (simp_all add: pushed_def popped_def)

lemma fifo_step_order:
  assumes "fifo_step op a = Returns a' r"
  shows "map task_ref (f_tasks a) @ pushed_by (t, op, r) = popped_by (t, op, r) @ map task_ref (f_tasks a')"
  using assms by (cases op) (auto simp: task_ref_def split: if_splits list.splits)

lemma fifo_order_snoc:
  assumes "c @ pushed es = popped es @ map task_ref (f_tasks a)" and "fifo_step op a = Returns a' r"
  shows "c @ pushed (es @ [(t, op, r)]) = popped (es @ [(t, op, r)]) @ map task_ref (f_tasks a')"
proof -
  have "c @ pushed (es @ [(t, op, r)]) = (c @ pushed es) @ pushed_by (t, op, r)" by simp
  also have "\<dots> = popped es @ (map task_ref (f_tasks a) @ pushed_by (t, op, r))"
    unfolding assms(1) by simp
  also have "\<dots> = popped (es @ [(t, op, r)]) @ map task_ref (f_tasks a')"
    unfolding fifo_step_order [OF assms(2)] by simp
  finally show ?thesis .
qed

lemma spec_replay_shutdown:
  "spec_replay fifo_step a es = Some a' \<Longrightarrow> obeys_shutdown (f_shutdown a) es"
proof (induction es arbitrary: a)
  case (Cons e es)
  obtain t op r where e: "e = (t, op, r)" by (cases e)
  from Cons.prems obtain a1 where s: "fifo_step op a = Returns a1 r"
    and r: "spec_replay fifo_step a1 es = Some a'"
    unfolding e by (auto split: outcome.splits if_splits)
  from Cons.IH [OF r] s show ?case unfolding e
    by (cases op) (auto split: if_splits list.splits)
qed simp

text \<open>The answers each operation can give.\<close>

fun answer_of :: "queue_op \<Rightarrow> queue_res \<Rightarrow> bool" where
  "answer_of (Push a k) r = (r = Q_Int 0 \<or> r = Q_Int (- 1))"
| "answer_of Pop r = (r = Q_Int (- 1) \<or> (\<exists>f a. r = Q_Task f a))"
| "answer_of Try_Pop r = (r = Q_Int (- 1) \<or> (\<exists>f a. r = Q_Task f a))"
| "answer_of Size r = (\<exists>n. r = Q_Size n)"
| "answer_of Shutdown r = (r = Q_Unit)"

lemma fifo_answers: "fifo_step op a = Returns a' r \<Longrightarrow> answer_of op r"
  by (cases op) (auto split: if_splits list.splits)

lemma log_answers:
  assumes "mreach queue_monitor q0 s" and "queue_wf q0" and "(t, op, r) \<in> set (mlog s)"
  shows "answer_of op r"
proof -
  have "\<forall>(t, op, r)\<in>set (mlog s). answer_of op r"
    by (rule fifo.spec_log_induct [OF assms(1,2), where P = "\<lambda>a es. \<forall>(t, op, r)\<in>set es. answer_of op r"])
      (auto dest: fifo_answers)
  with assms(3) show ?thesis by auto
qed

text \<open>
  C7. Any number of threads may push, pop, try to pop, ask for the size and shut down at the same
  time: the calls take effect one after the other, each exactly as the FIFO contract says, and no
  call touches a dead node. In particular the queue never exceeds its capacity.
\<close>

theorem task_queue_linearizable:
  assumes "mreach queue_monitor q0 s" and "queue_wf q0"
  shows "spec_replay fifo_step (queue_abs q0) (mlog s) = Some (queue_abs (mdata s)) \<and>
    mpcs s t \<noteq> Crashed op \<and> queue_wf (mdata s) \<and> q_capacity (mdata s) = q_capacity q0 \<and>
    (q_capacity q0 \<noteq> 0 \<longrightarrow> length (contents (mdata s)) \<le> unat (q_capacity q0))"
proof -
  have wf: "queue_wf (mdata s)" by (rule queue.reach_invariant [OF assms])
  have "f_capacity (queue_abs (mdata s)) = f_capacity (queue_abs q0)"
  proof (rule fifo.spec_log_induct [OF assms, where P = "\<lambda>a es. f_capacity a = f_capacity (queue_abs q0)"])
    fix a es t op r a'
    assume "f_capacity a = f_capacity (queue_abs q0)" "fifo_step op a = Returns a' r"
    then show "f_capacity a' = f_capacity (queue_abs q0)"
      by (cases op) (auto split: if_splits list.splits)
  qed simp
  then have c: "q_capacity (mdata s) = q_capacity q0" by (simp add: word_unat_eq_iff)
  obtain xs where "queue_repr (mdata s) xs" using wf by (auto simp: queue_wf_def)
  then have "q_capacity q0 \<noteq> 0 \<longrightarrow> length (contents (mdata s)) \<le> unat (q_capacity q0)"
    using c by (simp add: contents_repr) (simp add: queue_repr_def)
  with wf c fifo.spec_linearizable [OF assms] queue.reach_no_crash [OF assms] show ?thesis by blast
qed

text \<open>Two producers and a consumer on a queue with one place: the second producer has to wait.\<close>

definition example_run :: "(tid \<times> queue_op action) list" where
  "example_run =
     [(0, Call (Push 64 (example_task 1 TASK_PRIORITY_LOW))), (0, Go), (0, Go), (0, Go), (0, Go),
      (0, Go), (0, Go), (0, Go),
      (1, Call (Push 128 (example_task 2 TASK_PRIORITY_CRITICAL))), (1, Go), (1, Go), (1, Go),
      (2, Call Pop), (2, Go), (2, Go), (2, Go), (2, Go), (2, Go), (2, Go), (2, Go), (2, Return),
      (1, Go), (1, Go), (1, Go), (1, Go), (1, Go), (1, Go)]"

lemma example_run_result:
  "\<exists>s. exec queue_monitor 3 example_run (init_msys (new_queue 1)) = Some s \<and>
     contents (mdata s) = [example_task 2 TASK_PRIORITY_CRITICAL] \<and>
     popped (mlog s) = [(4096, 1)] \<and> pushed (mlog s) = [(4096, 1), (4096, 2)]"
  by (simp add: example_run_def init_msys_def new_queue_def zero_queue_def m_call_def m_return_def
      section_defs link_tail_def unlink_head_def Let_def example_task_def task.defs upt_rec
      contents_def pushed_def popped_def)

lemma task_queue_linearizable_witness:
  "\<exists>s. exec queue_monitor 3 example_run (init_msys (new_queue 1)) = Some s \<and>
     spec_replay fifo_step (queue_abs (new_queue 1)) (mlog s) = Some (queue_abs (mdata s)) \<and>
     length (contents (mdata s)) \<le> 1"
proof -
  obtain s where s: "exec queue_monitor 3 example_run (init_msys (new_queue 1)) = Some s"
    using example_run_result by blast
  from task_queue_linearizable [OF exec_reach [OF s] new_queue_wf(1)] s show ?thesis by auto
qed

lemma fifo_order:
  assumes "mreach queue_monitor q0 s" and "queue_wf q0"
  shows "map task_ref (contents q0) @ pushed (mlog s) =
    popped (mlog s) @ map task_ref (contents (mdata s))"
proof -
  have "map task_ref (f_tasks (queue_abs q0)) @ pushed (mlog s) =
      popped (mlog s) @ map task_ref (f_tasks (queue_abs (mdata s)))"
  proof (rule fifo.spec_log_induct [OF assms, where P = "\<lambda>a es.
        map task_ref (f_tasks (queue_abs q0)) @ pushed es = popped es @ map task_ref (f_tasks a)"])
    fix a es t op r a'
    assume "map task_ref (f_tasks (queue_abs q0)) @ pushed es = popped es @ map task_ref (f_tasks a)"
      "fifo_step op a = Returns a' r"
    then show "map task_ref (f_tasks (queue_abs q0)) @ pushed (es @ [(t, op, r)]) =
        popped (es @ [(t, op, r)]) @ map task_ref (f_tasks a')"
      by (rule fifo_order_snoc)
  qed simp
  then show ?thesis by simp
qed

text \<open>
  C11. First in, first out, whatever the interleaving and the priorities: the tasks taken out
  followed by the tasks still queued are the tasks that were there at the start followed by those
  whose push returned 0, in the order the pushes took effect. Nothing is lost, duplicated or
  reordered; the priority of a task has no influence.
\<close>

theorem task_queue_fifo:
  assumes "mreach queue_monitor q0 s" and "queue_wf q0"
  shows "map task_ref (contents q0) @ pushed (mlog s) =
    popped (mlog s) @ map task_ref (contents (mdata s))"
  by (rule fifo_order [OF assms])

lemma task_queue_fifo_witness:
  "\<exists>s. exec queue_monitor 3 example_run (init_msys (new_queue 1)) = Some s \<and>
     pushed (mlog s) = [(4096, 1), (4096, 2)] \<and>
     pushed (mlog s) = popped (mlog s) @ map task_ref (contents (mdata s))"
proof -
  obtain s where s: "exec queue_monitor 3 example_run (init_msys (new_queue 1)) = Some s"
    "pushed (mlog s) = [(4096, 1), (4096, 2)]"
    using example_run_result by blast
  from task_queue_fifo [OF exec_reach [OF s(1)] new_queue_wf(1)] s show ?thesis by auto
qed

lemma shutdown_drains:
  assumes "mreach queue_monitor q0 s" and "queue_wf q0"
  shows "obeys_shutdown (q_shutdown q0) (mlog s) \<and>
    ((t, Pop, Q_Int (- 1)) \<in> set (mlog s) \<longrightarrow> q_shutdown (mdata s) \<and> contents (mdata s) = [] \<and>
      popped (mlog s) = map task_ref (contents q0) @ pushed (mlog s))"
proof -
  have o: "map task_ref (contents q0) @ pushed (mlog s) =
      popped (mlog s) @ map task_ref (f_tasks (queue_abs (mdata s))) \<and>
    ((t, Pop, Q_Int (- 1)) \<in> set (mlog s) \<longrightarrow>
      f_shutdown (queue_abs (mdata s)) \<and> f_tasks (queue_abs (mdata s)) = [])"
  proof (rule fifo.spec_log_induct [OF assms, where P = "\<lambda>a es.
        map task_ref (contents q0) @ pushed es = popped es @ map task_ref (f_tasks a) \<and>
        ((t, Pop, Q_Int (- 1)) \<in> set es \<longrightarrow> f_shutdown a \<and> f_tasks a = [])"])
    fix a es u op r a'
    assume i: "map task_ref (contents q0) @ pushed es = popped es @ map task_ref (f_tasks a) \<and>
        ((t, Pop, Q_Int (- 1)) \<in> set es \<longrightarrow> f_shutdown a \<and> f_tasks a = [])"
      and st: "fifo_step op a = Returns a' r"
    have "f_shutdown a \<and> f_tasks a = [] \<longrightarrow> f_shutdown a' \<and> f_tasks a' = []"
      "op = Pop \<and> r = Q_Int (- 1) \<longrightarrow> f_shutdown a' \<and> f_tasks a' = []"
      using st by (cases op; auto split: if_splits list.splits)+
    moreover have "map task_ref (contents q0) @ pushed (es @ [(u, op, r)]) =
        popped (es @ [(u, op, r)]) @ map task_ref (f_tasks a')"
      using i st by (intro fifo_order_snoc) auto
    ultimately show "map task_ref (contents q0) @ pushed (es @ [(u, op, r)]) =
        popped (es @ [(u, op, r)]) @ map task_ref (f_tasks a') \<and>
        ((t, Pop, Q_Int (- 1)) \<in> set (es @ [(u, op, r)]) \<longrightarrow> f_shutdown a' \<and> f_tasks a' = [])"
      using i by auto
  qed simp
  then show ?thesis
    using spec_replay_shutdown [OF fifo.spec_linearizable [OF assms]] by auto
qed

text \<open>
  C12. Shutdown: a push returns 0 before the first shutdown and -1 after it, and a pop returns -1
  only after it and only when the queue is empty for good: from then on every accepted task has
  been handed out. So shutting down loses no task that was accepted.
\<close>

theorem task_queue_shutdown_drains:
  assumes "mreach queue_monitor q0 s" and "queue_wf q0"
  shows "obeys_shutdown (q_shutdown q0) (mlog s) \<and>
    ((t, Pop, Q_Int (- 1)) \<in> set (mlog s) \<longrightarrow> q_shutdown (mdata s) \<and> contents (mdata s) = [] \<and>
      popped (mlog s) = map task_ref (contents q0) @ pushed (mlog s))"
  by (rule shutdown_drains [OF assms])

definition shutdown_run :: "(tid \<times> queue_op action) list" where
  "shutdown_run =
     [(0, Call (Push 64 (example_task 1 TASK_PRIORITY_LOW))), (0, Go), (0, Go), (0, Go), (0, Go),
      (0, Go), (0, Go), (0, Go),
      (1, Call Shutdown), (1, Go), (1, Go), (1, Go), (1, Go), (1, Go), (1, Go), (1, Go), (1, Go),
      (2, Call Pop), (2, Go), (2, Go), (2, Go), (2, Go), (2, Go), (2, Go), (2, Go), (2, Return),
      (2, Call Pop), (2, Go), (2, Go), (2, Go), (2, Go), (2, Go)]"

lemma shutdown_run_result:
  "\<exists>s. exec queue_monitor 3 shutdown_run (init_msys (new_queue 1)) = Some s \<and>
     (2, Pop, Q_Int (- 1)) \<in> set (mlog s) \<and> pushed (mlog s) = [(4096, 1)]"
  by (simp add: shutdown_run_def init_msys_def new_queue_def zero_queue_def m_call_def m_return_def
      section_defs link_tail_def unlink_head_def Let_def example_task_def task.defs upt_rec pushed_def)

lemma task_queue_shutdown_drains_witness:
  "\<exists>s. exec queue_monitor 3 shutdown_run (init_msys (new_queue 1)) = Some s \<and>
     (2, Pop, Q_Int (- 1)) \<in> set (mlog s) \<and> popped (mlog s) = [(4096, 1)]"
proof -
  obtain s where s: "exec queue_monitor 3 shutdown_run (init_msys (new_queue 1)) = Some s"
    "(2, Pop, Q_Int (- 1)) \<in> set (mlog s)" "pushed (mlog s) = [(4096, 1)]"
    using shutdown_run_result by blast
  from task_queue_shutdown_drains [OF exec_reach [OF s(1)] new_queue_wf(1), of 2] s show ?thesis by auto
qed

section \<open>Sleeping and waking\<close>

text \<open>
  C10. No wake-up is lost: a thread that sleeps in pop or push sleeps on its own condition variable,
  at most as many tasks (or free places) are there as threads are on their way to take one or
  about to be woken, and when its loop condition is off (a task, a place, or a shutdown is there)
  some thread that is awake can take a step.
\<close>

theorem task_queue_no_lost_wakeup:
  assumes "mreach queue_monitor q0 s" and "queue_wf q0" and "mpcs s t = Asleep op c"
  shows "(op = Pop \<and> c = Not_Empty \<or> (\<exists>a k. op = Push a k) \<and> c = Not_Full) \<and>
    queue_avail c (mdata s) \<le> enat (card (ready queue_monitor c s)) + due c s \<and>
    (cs_guard (queue_section op) (mdata s) = None \<longrightarrow>
      (\<exists>u s'. mstep queue_monitor u s s' \<and> (\<forall>op c. mpcs s u \<noteq> Asleep op c)))"
proof (intro conjI impI)
  have "can_wait queue_monitor op c"
    using queue.good_reach [OF assms(1,2)] assms(3) by (auto simp: queue.good_def tests_inv_def)
  then show "op = Pop \<and> c = Not_Empty \<or> (\<exists>a k. op = Push a k) \<and> c = Not_Full"
    by (simp only: queue_can_wait)
  have "sleepers c s \<noteq> {}" using assms(3) by (auto simp: sleepers_def)
  then show "queue_avail c (mdata s) \<le> enat (card (ready queue_monitor c s)) + due c s"
    using queue.reach_wake_inv [OF assms(1,2)] by (simp add: wake_inv_def)
  assume "cs_guard (queue_section op) (mdata s) = None"
  then show "\<exists>u s'. mstep queue_monitor u s s' \<and> (\<forall>op c. mpcs s u \<noteq> Asleep op c)"
    by (intro queue.sleeper_progress [OF assms]) simp
qed

text \<open>A consumer sleeps, then a producer pushes and is about to signal.\<close>

definition sleep_run :: "(tid \<times> queue_op action) list" where
  "sleep_run = [(0, Call Pop), (0, Go), (0, Go), (0, Go),
     (1, Call (Push 64 (example_task 1 TASK_PRIORITY_LOW))), (1, Go), (1, Go), (1, Go), (1, Go)]"

lemma sleep_run_result:
  "\<exists>s. exec queue_monitor 2 sleep_run (init_msys (new_queue 1)) = Some s \<and>
     mpcs s 0 = Asleep Pop Not_Empty \<and> cs_guard (queue_section Pop) (mdata s) = None"
  by (simp add: sleep_run_def init_msys_def new_queue_def zero_queue_def m_call_def m_return_def
      section_defs link_tail_def Let_def example_task_def task.defs upt_rec)

lemma task_queue_no_lost_wakeup_witness:
  "\<exists>s. exec queue_monitor 2 sleep_run (init_msys (new_queue 1)) = Some s \<and>
     mpcs s 0 = Asleep Pop Not_Empty \<and>
     (\<exists>u s'. mstep queue_monitor u s s' \<and> (\<forall>op c. mpcs s u \<noteq> Asleep op c))"
proof -
  obtain s where s: "exec queue_monitor 2 sleep_run (init_msys (new_queue 1)) = Some s"
    "mpcs s 0 = Asleep Pop Not_Empty" "cs_guard (queue_section Pop) (mdata s) = None"
    using sleep_run_result by blast
  from task_queue_no_lost_wakeup [OF exec_reach [OF s(1)] new_queue_wf(1) s(2)] s show ?thesis by blast
qed

text \<open>
  Producers and consumers never wait for each other: when a consumer sleeps because the queue
  was empty and a producer because it was full, some thread that is awake can take a step.
\<close>

lemma task_queue_no_deadlock:
  assumes "mreach queue_monitor q0 s" and "queue_wf q0"
    and "mpcs s t = Asleep Pop Not_Empty" and "mpcs s u = Asleep (Push a k) Not_Full"
  shows "\<exists>v s'. mstep queue_monitor v s s' \<and> (\<forall>op c. mpcs s v \<noteq> Asleep op c)"
proof (cases "q_count (mdata s) = 0")
  case True
  then have "cs_guard (sect queue_monitor (Push a k)) (mdata s) \<noteq> Some Not_Full"
    by (simp add: section_defs not_le word_gt_0)
  then show ?thesis by (rule queue.sleeper_progress [OF assms(1,2,4)])
next
  case False
  then have "cs_guard (sect queue_monitor Pop) (mdata s) \<noteq> Some Not_Empty"
    by (simp add: section_defs)
  then show ?thesis by (rule queue.sleeper_progress [OF assms(1-3)])
qed

definition both_sleep_run :: "(tid \<times> queue_op action) list" where
  "both_sleep_run = sleep_run @
    [(1, Go), (1, Go), (1, Go), (1, Return),
     (1, Call (Push 128 (example_task 2 TASK_PRIORITY_LOW))), (1, Go), (1, Go), (1, Go),
     (2, Call Pop), (2, Go), (2, Go), (2, Go), (2, Go)]"

lemma task_queue_no_deadlock_witness:
  "\<exists>s. exec queue_monitor 4 ([(3, Call Pop), (3, Go), (3, Go), (3, Go)] @ both_sleep_run)
      (init_msys (new_queue 1)) = Some s \<and>
     mpcs s 3 = Asleep Pop Not_Empty \<and> (\<exists>a k. mpcs s 1 = Asleep (Push a k) Not_Full) \<and>
     (\<exists>v s'. mstep queue_monitor v s s' \<and> (\<forall>op c. mpcs s v \<noteq> Asleep op c))"
proof -
  have "\<exists>s. exec queue_monitor 4 ([(3, Call Pop), (3, Go), (3, Go), (3, Go)] @ both_sleep_run)
      (init_msys (new_queue 1)) = Some s \<and>
     mpcs s 3 = Asleep Pop Not_Empty \<and> (\<exists>a k. mpcs s 1 = Asleep (Push a k) Not_Full)"
    by (simp add: both_sleep_run_def sleep_run_def init_msys_def new_queue_def zero_queue_def m_call_def
        m_return_def section_defs link_tail_def unlink_head_def Let_def example_task_def task.defs upt_rec)
  then obtain s a k where s: "exec queue_monitor 4 ([(3, Call Pop), (3, Go), (3, Go), (3, Go)] @ both_sleep_run)
      (init_msys (new_queue 1)) = Some s"
    "mpcs s 3 = Asleep Pop Not_Empty" "mpcs s 1 = Asleep (Push a k) Not_Full" by blast
  from task_queue_no_deadlock [OF exec_reach [OF s(1)] new_queue_wf(1) s(2,3)] s show ?thesis by blast
qed

text \<open>
  A shutdown wakes everybody: once the flag is set and the lock is free again, no thread sleeps
  in push or pop, and no thread that comes later will.
\<close>

lemma task_queue_shutdown_wakes_all:
  assumes "mreach queue_monitor q0 s" and "queue_wf q0"
    and "q_shutdown (mdata s)" and "owner s = None"
  shows "mpcs s t \<noteq> Asleep op c \<and> cs_guard (queue_section op) (mdata s) = None"
proof
  show "cs_guard (queue_section op) (mdata s) = None"
    using assms(3) by (cases op) (simp_all add: section_defs)
  show "mpcs s t \<noteq> Asleep op c"
  proof
    assume "mpcs s t = Asleep op c"
    then have "sleepers c s \<noteq> {}" by (auto simp: sleepers_def)
    then have "queue_avail c (mdata s) \<le> enat (card (ready queue_monitor c s)) + due c s"
      using queue.reach_wake_inv [OF assms(1,2)] by (simp add: wake_inv_def)
    then show False using assms(3,4) by (simp add: queue_avail_def due_def)
  qed
qed

definition wake_all_run :: "(tid \<times> queue_op action) list" where
  "wake_all_run = [(0, Call Pop), (0, Go), (0, Go), (0, Go), (2, Call Pop), (2, Go), (2, Go), (2, Go),
      (1, Call Shutdown), (1, Go), (1, Go), (1, Go), (1, Go), (1, Go), (1, Go), (1, Go), (1, Go)]"

lemma task_queue_shutdown_wakes_all_witness:
  "\<exists>s. exec queue_monitor 3 wake_all_run (init_msys (new_queue 1)) = Some s \<and>
     mpcs s 0 \<noteq> Asleep Pop Not_Empty \<and> mpcs s 2 \<noteq> Asleep Pop Not_Empty"
proof -
  have "\<exists>s. exec queue_monitor 3 wake_all_run (init_msys (new_queue 1)) = Some s \<and>
      q_shutdown (mdata s) \<and> owner s = None"
    by (simp add: wake_all_run_def init_msys_def new_queue_def zero_queue_def m_call_def
        section_defs upt_rec comp_def)
  then obtain s where s: "exec queue_monitor 3 wake_all_run (init_msys (new_queue 1)) = Some s"
    "q_shutdown (mdata s)" "owner s = None" by blast
  from task_queue_shutdown_wakes_all [OF exec_reach [OF s(1)] new_queue_wf(1) s(2,3)] s show ?thesis by blast
qed

section \<open>Creation and destruction\<close>

definition queue_parts :: "queue_part set" where
  "queue_parts = {Queue_Lock, Queue_Not_Empty, Queue_Not_Full}"

text \<open>
  \<open>task_queue_init\<close> is all or nothing: it returns 0 exactly when the three pthread objects
  could be initialised, with all three of them live and an empty well-formed queue of the given
  capacity, and otherwise leaves none of them live.
\<close>

lemma task_queue_init_all_or_nothing:
  assumes "queue \<noteq> NULL" and "live \<inter> queue_parts = {}"
    and "task_queue_init ret1 ret2 ret3 queue capacity (q, live) = Returns (q', live') r"
  shows "(r = 0 \<longleftrightarrow> ret1 = 0 \<and> ret2 = 0 \<and> ret3 = 0) \<and>
    (if r = 0 then live' = live \<union> queue_parts \<and> queue_wf q' \<and>
       queue_abs q' = \<lparr>f_capacity = unat capacity, f_tasks = [], f_shutdown = False\<rparr>
     else live' = live)"
proof -
  have n: "Queue_Lock \<notin> live" "Queue_Not_Empty \<notin> live" "Queue_Not_Full \<notin> live"
    using assms(2) by (auto simp: queue_parts_def)
  have q: "zero_queue\<lparr>q_capacity := capacity, q_shutdown := False\<rparr> = new_queue capacity"
    by (simp add: new_queue_def zero_queue_def)
  have e: "queue_abs (new_queue capacity) =
      \<lparr>f_capacity = unat capacity, f_tasks = [], f_shutdown = False\<rparr>"
    by (simp add: queue_abs_def)
  show ?thesis
    using assms(1,3) n unfolding task_queue_init_def Let_def q
    by (auto simp: e queue_parts_def insert_Diff_if split: if_splits)
qed

lemma task_queue_init_all_or_nothing_witness:
  "\<exists>q'. task_queue_init 0 0 12 8 5 (zero_queue, {}) = Returns (q', {}) (- 1)"
proof -
  have "\<exists>q' live' r. task_queue_init 0 0 12 8 5 (zero_queue, {}) = Returns (q', live') r \<and> r = - 1"
    by (simp add: task_queue_init_def Let_def)
  then obtain q' live' where e: "task_queue_init 0 0 12 8 5 (zero_queue, {}) = Returns (q', live') (- 1)"
    by blast
  from task_queue_init_all_or_nothing [OF _ _ e] e show ?thesis by auto
qed

lemma free_nodes_chain:
  "chain (next_of nodes) p xs \<Longrightarrow> free_nodes p nodes = Some (nodes |` (- set xs))"
proof (induction xs arbitrary: p nodes)
  case Nil
  then show ?case by (subst free_nodes.simps) (simp add: restrict_map_def)
next
  case (Cons x xs)
  then obtain b where "p = x" "x \<noteq> NULL" "next_of nodes x = Some b" "chain (next_of nodes) b xs" by auto
  then obtain nd where nd: "p = x" "x \<noteq> NULL" "nodes x = Some nd"
    "chain (next_of nodes) (tn_next nd) xs" by (cases "nodes x") (auto simp: next_of_def [of nodes x])
  have "x \<notin> set xs" using chain_distinct [OF Cons.prems] by simp
  with nd(4) have "chain (next_of (nodes(x := None))) (tn_next nd) xs" by simp
  from Cons.IH [OF this] have "free_nodes (tn_next nd) (nodes(x := None)) =
      Some (nodes(x := None) |` (- set xs))" .
  moreover have "nodes(x := None) |` (- set xs) = nodes |` (- set (x # xs))"
    by (auto simp: restrict_map_def)
  ultimately show ?case using nd by (subst free_nodes.simps) simp
qed

lemma task_queue_destroy_ok:
  assumes "queue \<noteq> NULL" and "queue_wf q" and "live \<inter> queue_parts = {}"
  shows "\<exists>q'. task_queue_destroy queue (q, live \<union> queue_parts) = Returns (q', live) () \<and>
    q_nodes q' = Map.empty \<and> queue_wf q' \<and> contents q' = []"
proof -
  obtain xs where r: "queue_repr q xs" using assms(2) by (auto simp: queue_wf_def)
  then have "free_nodes (q_head q) (q_nodes q) = Some (q_nodes q |` (- set xs))"
    unfolding queue_repr_def by (intro free_nodes_chain) blast
  moreover have "q_nodes q |` (- set xs) = Map.empty"
    using r by (auto simp: queue_repr_def restrict_map_def fun_eq_iff)
  moreover have "live \<union> queue_parts - {Queue_Not_Full} - {Queue_Not_Empty} - {Queue_Lock} = live"
    using assms(3) by (auto simp: queue_parts_def)
  ultimately show ?thesis
    using assms(1) by (auto simp: task_queue_destroy_def queue_wf_def queue_repr_def contents_def)
qed

text \<open>
  C35. \<open>task_queue_destroy\<close> ends, frees each node of the queue exactly once and nothing else, however
  many tasks are still in it, and takes down the three pthread objects.
\<close>

theorem task_queue_destroy_frees_all:
  assumes "queue \<noteq> NULL" and "queue_wf q" and "live \<inter> queue_parts = {}"
  shows "\<exists>q'. task_queue_destroy queue (q, live \<union> queue_parts) = Returns (q', live) () \<and>
    q_nodes q' = Map.empty \<and> queue_wf q' \<and> contents q' = []"
  by (rule task_queue_destroy_ok [OF assms])

lemma task_queue_destroy_frees_all_witness:
  "\<exists>s q'. exec queue_monitor 3 example_run (init_msys (new_queue 1)) = Some s \<and> contents (mdata s) \<noteq> [] \<and>
     task_queue_destroy 8 (mdata s, {} \<union> queue_parts) = Returns (q', {}) () \<and> q_nodes q' = Map.empty"
proof -
  obtain s where s: "exec queue_monitor 3 example_run (init_msys (new_queue 1)) = Some s"
    "contents (mdata s) \<noteq> []" using example_run_result by auto
  have "queue_wf (mdata s)" by (rule queue.reach_invariant [OF exec_reach [OF s(1)] new_queue_wf(1)])
  from task_queue_destroy_frees_all [OF _ this, of 8 "{}"] s show ?thesis by auto
qed

end
