(* ===== verification/Thread_Pool.thy ===== *)
theory Thread_Pool
  imports Fifo
begin

text \<open>
  thread_pool.c: the pool's data and its creation. Creation acquires resources one after the other
  and every failure path has to release what was acquired; the resources are kept in a ledger. The
  running pool is the subject of Pool_Machine.
\<close>

section \<open>Data\<close>

datatype pool_state = POOL_STATE_RUNNING | POOL_STATE_SHUTDOWN | POOL_STATE_TERMINATED

primrec pool_state_value :: "pool_state \<Rightarrow> nat" where
  "pool_state_value POOL_STATE_RUNNING = 0"
| "pool_state_value POOL_STATE_SHUTDOWN = 1"
| "pool_state_value POOL_STATE_TERMINATED = 2"

instantiation pool_state :: linorder
begin

definition less_eq_pool_state :: "pool_state \<Rightarrow> pool_state \<Rightarrow> bool" where
  "less_eq_pool_state x y \<longleftrightarrow> pool_state_value x \<le> pool_state_value y"

definition less_pool_state :: "pool_state \<Rightarrow> pool_state \<Rightarrow> bool" where
  "less_pool_state x y \<longleftrightarrow> pool_state_value x < pool_state_value y"

instance
proof
  fix x y :: pool_state
  assume "x \<le> y" "y \<le> x"
  then have "pool_state_value x = pool_state_value y" by (simp add: less_eq_pool_state_def)
  then show "x = y" by (cases x; cases y; simp)
qed (auto simp: less_eq_pool_state_def less_pool_state_def)

end

definition POOL_DEFAULT_QUEUE_CAPACITY :: size_t where
  "POOL_DEFAULT_QUEUE_CAPACITY = 1024"

record thread_pool =
  tp_num_threads :: size_t
  tp_queue :: task_queue
  tp_state :: pool_state
  tp_active :: size_t
  tp_completed :: size_t
  tp_submitted :: size_t
  tp_queue_capacity :: size_t
  tp_enable_priorities :: bool

section \<open>The ledger\<close>

datatype resource =
    Pool_Struct | Pool_Queue queue_part | Wait_Mutex | Wait_Condition | Workers_Array | Worker nat

text \<open>
  The answers of the system: whether the two callocs succeed, the number of cores, the codes of
  the five pthread initialisations and of each pthread_create.
\<close>

record create_env =
  ce_pool :: bool
  ce_cores :: size_t
  ce_lock :: int
  ce_not_empty :: int
  ce_not_full :: int
  ce_wait_lock :: int
  ce_wait_cond :: int
  ce_workers :: bool
  ce_thread :: "nat \<Rightarrow> int"

type_synonym ledger = "task_queue \<times> resource set"

abbreviation gain :: "resource \<Rightarrow> ledger \<Rightarrow> ledger" where
  "gain x st \<equiv> (fst st, insert x (snd st))"

abbreviation drop :: "resource \<Rightarrow> ledger \<Rightarrow> ledger" where
  "drop x st \<equiv> (fst st, snd st - {x})"

text \<open>A function of scheduler.c called on the pool's own queue, whose address is not NULL.\<close>

definition pool_queue_ptr :: ptr where
  "pool_queue_ptr = 8"

definition on_queue ::
  "(task_queue \<times> queue_part set \<Rightarrow> (task_queue \<times> queue_part set, 'r) outcome) \<Rightarrow> ledger \<Rightarrow>
   (ledger, 'r) outcome" where
  "on_queue f st =
     bind_outcome (f (fst st, Pool_Queue -` snd st))
       (\<lambda>st' r. Returns (fst st', (snd st - range Pool_Queue) \<union> Pool_Queue ` snd st') r)"

section \<open>Creation\<close>

text \<open>The loop over pthread_create; the result is the index at which it failed.\<close>

fun start_workers :: "(nat \<Rightarrow> int) \<Rightarrow> nat \<Rightarrow> nat \<Rightarrow> ledger \<Rightarrow> ledger \<times> nat option" where
  "start_workers create 0 i st = (st, None)"
| "start_workers create (Suc n) i st =
     (if create i \<noteq> 0 then (st, Some i)
      else start_workers create n (Suc i) (gain (Worker i) st))"

text \<open>The loop over pthread_join; the workers end because the queue is shut down.\<close>

definition join_workers :: "nat \<Rightarrow> ledger \<Rightarrow> ledger" where
  "join_workers n st = fold (\<lambda>j. drop (Worker j)) [0..<n] st"

text \<open>The last lines of each failure path and of thread_pool_destroy.\<close>

definition release_queue :: "ledger \<Rightarrow> (ledger, unit) outcome" where
  "release_queue st =
     bind_outcome (on_queue (task_queue_destroy pool_queue_ptr) st)
       (\<lambda>st _. Returns (drop Pool_Struct st) ())"

definition release_pool :: "ledger \<Rightarrow> (ledger, unit) outcome" where
  "release_pool st = release_queue (drop Wait_Mutex (drop Wait_Condition (drop Workers_Array st)))"

definition give_up :: "(ledger, unit) outcome \<Rightarrow> (ledger, thread_pool option) outcome" where
  "give_up res = bind_outcome res (\<lambda>st _. Returns st None)"

definition effective_threads :: "size_t \<Rightarrow> size_t \<Rightarrow> size_t" where
  "effective_threads cores num_threads =
     (if num_threads = 0 then (if cores = 0 then 4 else cores) else num_threads)"

definition effective_capacity :: "size_t \<Rightarrow> size_t" where
  "effective_capacity queue_capacity =
     (if queue_capacity = 0 then POOL_DEFAULT_QUEUE_CAPACITY else queue_capacity)"

definition thread_pool_create ::
  "create_env \<Rightarrow> size_t \<Rightarrow> size_t \<Rightarrow> ledger \<Rightarrow> (ledger, thread_pool option) outcome" where
  "thread_pool_create env num_threads queue_capacity st =
     (if \<not> ce_pool env then Returns st None
      else
        let st = gain Pool_Struct st;
            num_threads = effective_threads (ce_cores env) num_threads;
            queue_capacity = effective_capacity queue_capacity
        in bind_outcome
          (on_queue (task_queue_init (ce_lock env) (ce_not_empty env) (ce_not_full env)
             pool_queue_ptr queue_capacity) st)
          (\<lambda>st ret.
            if ret \<noteq> 0 then Returns (drop Pool_Struct st) None
            else if ce_wait_lock env \<noteq> 0 then give_up (release_queue st)
            else let st = gain Wait_Mutex st in
            if ce_wait_cond env \<noteq> 0 then give_up (release_queue (drop Wait_Mutex st))
            else let st = gain Wait_Condition st in
            if \<not> ce_workers env then
              give_up (release_queue (drop Wait_Mutex (drop Wait_Condition st)))
            else case start_workers (ce_thread env) (unat num_threads) 0 (gain Workers_Array st) of
                (st, None) \<Rightarrow> Returns st (Some
                   \<lparr>tp_num_threads = num_threads, tp_queue = fst st, tp_state = POOL_STATE_RUNNING,
                     tp_active = 0, tp_completed = 0, tp_submitted = 0,
                     tp_queue_capacity = queue_capacity, tp_enable_priorities = False\<rparr>)
              | (st, Some i) \<Rightarrow>
                  let st = ((fst st)\<lparr>q_shutdown := True\<rparr>, snd st)
                  in give_up (release_pool (join_workers i st))))"

text \<open>Everything a pool of \<open>n\<close> threads consists of.\<close>

definition pool_resources :: "nat \<Rightarrow> resource set" where
  "pool_resources n =
     {Pool_Struct, Wait_Mutex, Wait_Condition, Workers_Array} \<union> range Pool_Queue \<union> Worker ` {..<n}"

section \<open>Creation is all or nothing\<close>

lemma start_workers_result:
  "start_workers create n i st = (st', res) \<Longrightarrow> fst st' = fst st \<and>
    (case res of
       None \<Rightarrow> snd st' = snd st \<union> Worker ` {i..<i + n} \<and> (\<forall>j\<in>{i..<i + n}. create j = 0)
     | Some k \<Rightarrow> k \<in> {i..<i + n} \<and> create k \<noteq> 0 \<and> snd st' = snd st \<union> Worker ` {i..<k})"
proof (induction n arbitrary: i st)
  case (Suc n)
  have e: "{i..<i + Suc n} = insert i {Suc i..<Suc i + n}" by auto
  have k: "{i..<k} = insert i {Suc i..<k}" if "k \<in> {Suc i..<Suc i + n}" for k using that by auto
  show ?case
  proof (cases "create i = 0")
    case True
    with Suc.prems have "start_workers create n (Suc i) (gain (Worker i) st) = (st', res)" by simp
    from Suc.IH [OF this] True show ?thesis
      unfolding e by (cases res) (simp_all add: k)
  next
    case False
    with Suc.prems show ?thesis by auto
  qed
qed auto

lemma join_workers_result: "join_workers n st = (fst st, snd st - Worker ` {..<n})"
proof (induction n)
  case (Suc n)
  then have "join_workers (Suc n) st = drop (Worker n) (fst st, snd st - Worker ` {..<n})"
    by (simp add: join_workers_def)
  then show ?case by (auto simp: lessThan_Suc)
qed (simp add: join_workers_def)

lemma queue_parts_UNIV: "queue_parts = UNIV"
  by (auto simp: queue_parts_def) (metis queue_part.exhaust)

lemma on_queue_init:
  assumes "L \<inter> range Pool_Queue = {}"
  shows "on_queue (task_queue_init r1 r2 r3 pool_queue_ptr cap) (q, L) =
    (if r1 = 0 \<and> r2 = 0 \<and> r3 = 0 then Returns (new_queue cap, L \<union> range Pool_Queue) 0
     else Returns (new_queue cap, L) (- 1))"
proof -
  have v: "Pool_Queue -` L = {}" "L - range Pool_Queue = L" using assms by auto
  have q: "zero_queue\<lparr>q_capacity := cap, q_shutdown := False\<rparr> = new_queue cap"
    by (simp add: new_queue_def zero_queue_def)
  have u: "{Queue_Not_Full, Queue_Not_Empty, Queue_Lock} = UNIV"
    using queue_parts_UNIV by (auto simp: queue_parts_def)
  show ?thesis
    by (simp add: on_queue_def v q u task_queue_init_def Let_def pool_queue_ptr_def insert_Diff_if)
qed

lemma release_queue_all:
  assumes "queue_wf q" and "L \<inter> range Pool_Queue = {}"
  shows "\<exists>q'. release_queue (q, L \<union> range Pool_Queue) = Returns (q', L - {Pool_Struct}) ()"
proof -
  have p: "pool_queue_ptr \<noteq> NULL" by (simp add: pool_queue_ptr_def)
  have v: "Pool_Queue -` L \<union> Pool_Queue -` range Pool_Queue = queue_parts" by (auto simp: queue_parts_UNIV)
  from task_queue_destroy_ok [OF p assms(1), of "{}"] obtain q' where
    "task_queue_destroy pool_queue_ptr (q, {} \<union> queue_parts) = Returns (q', {}) ()" by auto
  moreover have "L \<union> range Pool_Queue - range Pool_Queue = L" using assms(2) by auto
  ultimately show ?thesis by (simp add: release_queue_def on_queue_def v)
qed

lemma release_pool_all:
  assumes "queue_wf q"
  shows "\<exists>q'. release_pool (join_workers n (q, pool_resources n)) = Returns (q', {}) ()"
proof -
  let ?L = "{Pool_Struct}"
  have "drop Wait_Mutex (drop Wait_Condition (drop Workers_Array (join_workers n (q, pool_resources n)))) =
      (q, ?L \<union> range Pool_Queue)"
    by (auto simp: join_workers_result pool_resources_def)
  moreover have "\<exists>q'. release_queue (q, ?L \<union> range Pool_Queue) = Returns (q', ?L - {Pool_Struct}) ()"
    by (rule release_queue_all [OF assms]) auto
  ultimately show ?thesis by (simp add: release_pool_def)
qed

lemma effective_positive: "effective_threads c n \<noteq> 0" "effective_capacity n \<noteq> 0"
  by (simp_all add: effective_threads_def effective_capacity_def POOL_DEFAULT_QUEUE_CAPACITY_def)

lemma create_failed_thread:
  assumes "start_workers (ce_thread env) n 0
      (new_queue cap, {Workers_Array, Wait_Condition, Wait_Mutex, Pool_Struct} \<union> range Pool_Queue) = (st, Some i)"
  shows "\<exists>q. release_pool (join_workers i ((fst st)\<lparr>q_shutdown := True\<rparr>, snd st)) = Returns (q, {}) ()"
proof -
  have "snd st = pool_resources i" "fst st = new_queue cap"
    using start_workers_result [OF assms] by (auto simp: pool_resources_def lessThan_atLeast0)
  then show ?thesis using release_pool_all [of "new_queue cap\<lparr>q_shutdown := True\<rparr>" i] by simp
qed

lemma create_after_init:
  assumes "ce_pool env \<and> ce_lock env = 0 \<and> ce_not_empty env = 0 \<and> ce_not_full env = 0"
    and "ce_wait_lock env = 0 \<and> ce_wait_cond env = 0 \<and> ce_workers env"
  shows "thread_pool_create env num_threads queue_capacity (q, {}) =
    (case start_workers (ce_thread env) (unat (effective_threads (ce_cores env) num_threads)) 0
        (new_queue (effective_capacity queue_capacity),
          {Workers_Array, Wait_Condition, Wait_Mutex, Pool_Struct} \<union> range Pool_Queue) of
       (st, None) \<Rightarrow> Returns st (Some
          \<lparr>tp_num_threads = effective_threads (ce_cores env) num_threads, tp_queue = fst st,
            tp_state = POOL_STATE_RUNNING, tp_active = 0, tp_completed = 0, tp_submitted = 0,
            tp_queue_capacity = effective_capacity queue_capacity, tp_enable_priorities = False\<rparr>)
     | (st, Some i) \<Rightarrow> give_up (release_pool (join_workers i ((fst st)\<lparr>q_shutdown := True\<rparr>, snd st))))"
proof -
  have d: "{Pool_Struct} \<inter> range Pool_Queue = {}" by auto
  show ?thesis using assms by (simp add: thread_pool_create_def Let_def on_queue_init [OF d])
qed

lemma create_before_workers:
  assumes "ce_pool env \<and> ce_lock env = 0 \<and> ce_not_empty env = 0 \<and> ce_not_full env = 0"
    and "\<not> (ce_wait_lock env = 0 \<and> ce_wait_cond env = 0 \<and> ce_workers env)"
  shows "\<exists>q'. thread_pool_create env num_threads queue_capacity (q, {}) = Returns (q', {}) None"
proof -
  have d: "{Pool_Struct} \<inter> range Pool_Queue = {}" by auto
  let ?cap = "effective_capacity queue_capacity"
  let ?L = "insert Pool_Struct (range Pool_Queue)"
  obtain q' where rel: "release_queue (new_queue ?cap, ?L) = Returns (q', {}) ()"
    using release_queue_all [OF new_queue_wf(1) d, of ?cap] by auto
  have dr: "?L - {Wait_Mutex} = ?L" "insert Wait_Mutex ?L - {Wait_Condition} - {Wait_Mutex} = ?L" by auto
  show ?thesis using assms
    by (auto simp: thread_pool_create_def Let_def on_queue_init [OF d] give_up_def rel dr)
qed

text \<open>
  C24. \<open>thread_pool_create\<close> always returns, and it is all or nothing. It returns NULL exactly when
  some call it makes fails, and then every block, lock, condition variable and thread acquired on
  the way has been given back, whichever call it was. Otherwise the pool holds all its resources,
  at least one thread (as many as asked for, or one per core, or four), a queue with a capacity
  that is not zero, and counters at zero.
\<close>

theorem thread_pool_create_all_or_nothing:
  "\<exists>q' live res. thread_pool_create env num_threads queue_capacity (q, {}) = Returns (q', live) res \<and>
    (res = None \<longleftrightarrow> \<not> (ce_pool env \<and> ce_lock env = 0 \<and> ce_not_empty env = 0 \<and> ce_not_full env = 0 \<and>
       ce_wait_lock env = 0 \<and> ce_wait_cond env = 0 \<and> ce_workers env \<and>
       (\<forall>i\<in>{0..<unat (effective_threads (ce_cores env) num_threads)}. ce_thread env i = 0))) \<and>
    (case res of
       None \<Rightarrow> live = {}
     | Some pool \<Rightarrow> live = pool_resources (unat (tp_num_threads pool)) \<and>
         tp_num_threads pool = effective_threads (ce_cores env) num_threads \<and> tp_num_threads pool \<noteq> 0 \<and>
         q' = new_queue (effective_capacity queue_capacity) \<and> q_capacity q' \<noteq> 0 \<and> queue_wf q' \<and>
         tp_state pool = POOL_STATE_RUNNING \<and>
         tp_active pool = 0 \<and> tp_completed pool = 0 \<and> tp_submitted pool = 0)"
proof (cases "ce_pool env \<and> ce_lock env = 0 \<and> ce_not_empty env = 0 \<and> ce_not_full env = 0")
  case False
  have d: "{Pool_Struct} \<inter> range Pool_Queue = {}" by auto
  from False show ?thesis by (auto simp: thread_pool_create_def Let_def on_queue_init [OF d])
next
  case init: True
  let ?cap = "effective_capacity queue_capacity" and ?n = "effective_threads (ce_cores env) num_threads"
  show ?thesis
  proof (cases "ce_wait_lock env = 0 \<and> ce_wait_cond env = 0 \<and> ce_workers env")
    case False
    with create_before_workers [OF init False] show ?thesis by fastforce
  next
    case True
    let ?W = "{Workers_Array, Wait_Condition, Wait_Mutex, Pool_Struct} \<union> range Pool_Queue"
    obtain st res where sw: "start_workers (ce_thread env) (unat ?n) 0 (new_queue ?cap, ?W) = (st, res)"
      by (cases "start_workers (ce_thread env) (unat ?n) 0 (new_queue ?cap, ?W)")
    note r = start_workers_result [OF sw] and u = create_after_init [OF init True, of num_threads queue_capacity q, unfolded sw]
    show ?thesis
    proof (cases res)
      case None
      have st: "snd st = pool_resources (unat ?n)" "fst st = new_queue ?cap"
        and ok: "\<forall>i\<in>{0..<unat ?n}. ce_thread env i = 0"
        using r None by (auto simp: pool_resources_def lessThan_atLeast0)
      show ?thesis unfolding u using None st ok init True effective_positive
        by (cases st) simp
    next
      case (Some i)
      have f: "i \<in> {0..<unat ?n}" "ce_thread env i \<noteq> 0" using r Some by auto
      obtain q' where "release_pool (join_workers i ((fst st)\<lparr>q_shutdown := True\<rparr>, snd st)) =
          Returns (q', {}) ()"
        using create_failed_thread [of env "unat ?n" ?cap st i] sw Some by blast
      then show ?thesis unfolding u using Some f by (auto simp: give_up_def)
    qed
  qed
qed

text \<open>A system in which the third pthread_create fails.\<close>

definition example_env :: create_env where
  "example_env = \<lparr>ce_pool = True, ce_cores = 4, ce_lock = 0, ce_not_empty = 0, ce_not_full = 0,
     ce_wait_lock = 0, ce_wait_cond = 0, ce_workers = True, ce_thread = (\<lambda>i. if i = 2 then 11 else 0)\<rparr>"

lemma thread_pool_create_all_or_nothing_witness:
  "\<exists>q'. thread_pool_create example_env 0 0 (zero_queue, {}) = Returns (q', {}) None"
proof -
  have "effective_threads (ce_cores example_env) 0 = 4"
    by (simp add: effective_threads_def example_env_def)
  then have "2 \<in> {0..<unat (effective_threads (ce_cores example_env) 0)}" "ce_thread example_env 2 \<noteq> 0"
    by (simp_all add: example_env_def)
  then have n: "\<not> (\<forall>i\<in>{0..<unat (effective_threads (ce_cores example_env) 0)}. ce_thread example_env i = 0)"
    by blast
  from thread_pool_create_all_or_nothing [of example_env 0 0 zero_queue] obtain q' live res where
    r: "thread_pool_create example_env 0 0 (zero_queue, {}) = Returns (q', live) res"
      "res = None" "case res of None \<Rightarrow> live = {} | Some pool \<Rightarrow> True"
    using n by (auto split: option.splits)
  then show ?thesis by simp
qed

end
