(* ===== verification/Monitor_Trace.thy ===== *)
theory Monitor_Trace
  imports Monitor
begin

text \<open>
  The bookkeeping a client of a monitor needs: which call a thread is in (\<open>op_of\<close>), which result
  the call has already obtained but not yet returned (\<open>result_of\<close>), how a step relates them to
  the log, and sums of a weight over all threads (\<open>total\<close>).
\<close>

section \<open>Calls and results\<close>

fun op_of :: "('op, 'c, 'r) mpc \<Rightarrow> 'op option" where
  "op_of (Acquire op) = Some op"
| "op_of (Entered op) = Some op"
| "op_of (Testing op) = Some op"
| "op_of (Asleep op c) = Some op"
| "op_of (Woken op c) = Some op"
| "op_of (Acting op) = Some op"
| "op_of (Notifying op ns r) = Some op"
| "op_of (Releasing op r) = Some op"
| "op_of (Returning op r) = Some op"
| "op_of (Crashed op) = Some op"
| "op_of Outside = None"

fun result_of :: "('op, 'c, 'r) mpc \<Rightarrow> ('op \<times> 'r) option" where
  "result_of (Notifying op ns r) = Some (op, r)"
| "result_of (Releasing op r) = Some (op, r)"
| "result_of (Returning op r) = Some (op, r)"
| "result_of p = None"

lemma op_of_None [simp]: "op_of p = None \<longleftrightarrow> p = Outside"
  by (cases p) auto

lemma op_of_wake [simp]: "op_of (wake c p) = op_of p" "result_of (wake c p) = result_of p"
  by (cases p; simp)+

lemma result_op: "result_of p = Some (op, r) \<Longrightarrow> op_of p = Some op"
  by (cases p) auto

lemma mstep_op_of: "mstep M t s s' \<Longrightarrow> op_of (mpcs s' u) = op_of (mpcs s u)"
  by (erule mstep.cases) auto

lemma mstep_effect:
  "mstep M t s s' \<Longrightarrow>
     mlog s' = mlog s \<and> (\<forall>u. result_of (mpcs s' u) = result_of (mpcs s u)) \<or>
     (\<exists>op r. mlog s' = mlog s @ [(t, op, r)] \<and> op_of (mpcs s t) = Some op \<and>
        result_of (mpcs s t) = None \<and> result_of (mpcs s' t) = Some (op, r) \<and>
        (\<forall>u. u \<noteq> t \<longrightarrow> result_of (mpcs s' u) = result_of (mpcs s u)))"
  by (erule mstep.cases) auto

text \<open>A result that is on its way is in the log.\<close>

lemma result_logged: "mreach M d0 s \<Longrightarrow> result_of (mpcs s t) = Some (op, r) \<Longrightarrow> (t, op, r) \<in> set (mlog s)"
proof (induction arbitrary: t op r rule: mreach.induct)
  case init
  then show ?case by (simp add: init_msys_def)
next
  case (inside s u s')
  from mstep_effect [OF inside.hyps(2)] show ?case
  proof (elim disjE exE conjE)
    fix op' r' assume l: "mlog s' = mlog s @ [(u, op', r')]" "result_of (mpcs s' u) = Some (op', r')"
      "\<forall>v. v \<noteq> u \<longrightarrow> result_of (mpcs s' v) = result_of (mpcs s v)"
    show ?case using inside.IH [of t op r] inside.prems l by (cases "t = u") auto
  qed (use inside in auto)
next
  case (call s u op')
  then show ?case by (auto simp: m_call_def split: if_splits)
next
  case (return s u op' r')
  then show ?case by (auto simp: m_return_def split: if_splits)
qed

section \<open>Sums over the threads\<close>

definition total :: "(tid \<Rightarrow> 'a :: comm_monoid_add) \<Rightarrow> 'a" where
  "total f = sum f {t. f t \<noteq> 0}"

lemma total_superset: "finite A \<Longrightarrow> {t. f t \<noteq> 0} \<subseteq> A \<Longrightarrow> total f = sum f A"
  unfolding total_def by (rule sum.mono_neutral_left) auto

text \<open>When only thread \<open>t\<close> changes its weight.\<close>

lemma total_change:
  assumes "finite {u. f u \<noteq> 0}" and "\<And>u. u \<noteq> t \<Longrightarrow> g u = f u"
  shows "total g + f t = total f + g t"
proof -
  let ?A = "insert t {u. f u \<noteq> 0}"
  have fin: "finite ?A" using assms(1) by simp
  have "{u. g u \<noteq> 0} \<subseteq> ?A" using assms(2) by force
  then have "total g = sum g ?A" by (rule total_superset [OF fin])
  moreover have "total f = sum f ?A" by (rule total_superset [OF fin]) auto
  moreover have "sum g ?A = g t + sum g (?A - {t})" "sum f ?A = f t + sum f (?A - {t})"
    by (intro sum.remove [OF fin] insertI1)+
  moreover have "sum g (?A - {t}) = sum f (?A - {t})" using assms(2) by (intro sum.cong) auto
  ultimately show ?thesis by (simp add: ac_simps)
qed

lemma total_same: "(\<And>u. g u = f u) \<Longrightarrow> total g = total f"
  by (simp add: total_def cong: conj_cong)

lemma total_zero [simp]: "total (\<lambda>_. 0) = 0"
  by (simp add: total_def)

lemma total_zero_iff:
  fixes f :: "tid \<Rightarrow> nat"
  shows "finite {t. f t \<noteq> 0} \<Longrightarrow> total f = 0 \<longleftrightarrow> (\<forall>t. f t = 0)"
  by (auto simp: total_def)

text \<open>At most one unit per thread below \<open>n\<close> makes at most \<open>n\<close>.\<close>

lemma total_bound:
  fixes f :: "tid \<Rightarrow> nat"
  assumes "\<And>t. f t \<le> 1" and "\<And>t. n \<le> t \<Longrightarrow> f t = 0"
  shows "total f \<le> n"
proof -
  have "{t. f t \<noteq> 0} \<subseteq> {..<n}"
  proof
    fix t assume "t \<in> {t. f t \<noteq> 0}"
    with assms(2) [of t] show "t \<in> {..<n}" by (cases "n \<le> t") auto
  qed
  then have "total f = sum f {..<n}" by (rule total_superset [OF finite_lessThan])
  also have "\<dots> \<le> sum (\<lambda>_. 1) {..<n}" using assms(1) by (intro sum_mono)
  finally show ?thesis by simp
qed

end
