(* ===== verification/Pool_Machine.thy ===== *)
theory Pool_Machine
  imports Thread_Pool Monitor_Trace
begin

text \<open>
  The running pool of thread_pool.c: the workers, any number of client threads in submit, wait,
  pending and destroy, and what they share: the queue (with the threads that are inside its
  operations), the atomic state and counters, and the lock and condition variable of wait. Each
  atomic operation, each pthread call and each call of the queue is a step of its own, so the
  steps of all threads interleave as they do in C. Tasks are opaque: calling one and its return are
  two steps. Pool_Effects adds the data they change, Pool_Nested their calls of the pool.
\<close>

section \<open>Program counters and state\<close>

text \<open>
  A program counter names what the thread does next. The argument of the \<open>Wait_\<close> counters is a
  ghost: \<open>submitted_tasks\<close> at the time of the call. The second arguments are the values loaded.
\<close>

datatype pool_pc =
    Idle
  | Work_Loop
  | Work_Pop
  | Work_Check ptr ptr
  | Work_Activate ptr ptr
  | Work_Call ptr ptr
  | Work_Running ptr ptr
  | Work_Deactivate
  | Work_Complete
  | Work_Lock
  | Work_Broadcast
  | Work_Unlock
  | Work_Exit
  | Submit_Load ptr ptr task_priority
  | Submit_Alloc ptr ptr task_priority
  | Submit_Push
  | Submit_Count
  | Submit_Return int
  | Pending_Call
  | Pending_Size
  | Pending_Return size_t
  | Wait_Lock size_t
  | Wait_Test size_t
  | Wait_Completed size_t size_t
  | Wait_Submitted size_t size_t
  | Wait_Block size_t size_t
  | Wait_Sleep size_t size_t
  | Wait_Woken size_t
  | Wait_Unlock size_t
  | Wait_Return size_t
  | Destroy_Cas
  | Destroy_Call
  | Destroy_Shutdown
  | Destroy_Join nat
  | Destroy_Store
  | Destroy_Release
  | Destroy_Return

type_synonym queue_sys = "(queue_op, task_queue, queue_cond, queue_res) msys"

text \<open>\<open>ps_ran\<close> is a ghost: the tasks whose function has been called, in this order, and by whom.\<close>

record psys =
  ps_queue :: queue_sys
  ps_state :: pool_state
  ps_active :: size_t
  ps_completed :: size_t
  ps_submitted :: size_t
  ps_wait_lock :: "tid option"
  ps_pc :: "tid \<Rightarrow> pool_pc"
  ps_ran :: "(tid \<times> ptr \<times> ptr) list"
  ps_freed :: bool

abbreviation to :: "tid \<Rightarrow> pool_pc \<Rightarrow> psys \<Rightarrow> psys" where
  "to t p s \<equiv> s\<lparr>ps_pc := (ps_pc s)(t := p)\<rparr>"

text \<open>The pool as \<open>thread_pool_create\<close> leaves it: the threads below \<open>n\<close> are its workers.\<close>

definition init_psys :: "nat \<Rightarrow> size_t \<Rightarrow> psys" where
  "init_psys n capacity =
     \<lparr>ps_queue = init_msys (new_queue capacity), ps_state = POOL_STATE_RUNNING, ps_active = 0,
       ps_completed = 0, ps_submitted = 0, ps_wait_lock = None,
       ps_pc = (\<lambda>t. if t < n then Work_Loop else Idle), ps_ran = [], ps_freed = False\<rparr>"

section \<open>Calls\<close>

datatype pool_call = Submit ptr ptr task_priority | Wait | Pending | Destroy

text \<open>The checks at the head of each function: return at once, or go on.\<close>

fun pool_enter :: "ptr \<Rightarrow> pool_call \<Rightarrow> psys \<Rightarrow> int + pool_pc" where
  "pool_enter pool (Submit func arg priority) s =
     (if pool = NULL \<or> func = NULL then Inl (- 1) else Inr (Submit_Load func arg priority))"
| "pool_enter pool Wait s = (if pool = NULL then Inl (- 1) else Inr (Wait_Lock (ps_submitted s)))"
| "pool_enter pool Pending s = (if pool = NULL then Inl 0 else Inr Pending_Call)"
| "pool_enter pool Destroy s = (if pool = NULL then Inl 0 else Inr Destroy_Cas)"

definition thread_pool_active :: "ptr \<Rightarrow> psys \<Rightarrow> size_t" where
  "thread_pool_active pool s = (if pool = NULL then 0 else ps_active s)"

definition thread_pool_completed :: "ptr \<Rightarrow> psys \<Rightarrow> size_t" where
  "thread_pool_completed pool s = (if pool = NULL then 0 else ps_completed s)"

definition thread_pool_size :: "ptr \<Rightarrow> thread_pool \<Rightarrow> size_t" where
  "thread_pool_size pool tp = (if pool = NULL then 0 else tp_num_threads tp)"

section \<open>Steps of one thread\<close>

fun wake_waiter :: "pool_pc \<Rightarrow> pool_pc" where
  "wake_waiter (Wait_Sleep k c) = Wait_Woken k"
| "wake_waiter p = p"

text \<open>Where a worker goes with the answer of \<open>task_queue_pop\<close>, and a client with that of push.\<close>

fun after_pop :: "queue_res \<Rightarrow> pool_pc" where
  "after_pop (Q_Task func arg) = Work_Check func arg"
| "after_pop r = Work_Exit"

fun after_push :: "queue_res \<Rightarrow> pool_pc" where
  "after_push (Q_Int i) = (if i = 0 then Submit_Count else Submit_Return i)"
| "after_push r = Submit_Return (- 1)"

fun after_size :: "queue_res \<Rightarrow> pool_pc" where
  "after_size (Q_Size n) = Pending_Return n"
| "after_size r = Pending_Return 0"

text \<open>Calling an operation of the queue that needs no block, and returning from one.\<close>

definition queue_call :: "tid \<Rightarrow> queue_op \<Rightarrow> pool_pc \<Rightarrow> psys \<Rightarrow> psys option" where
  "queue_call t op p s = Some (to t p (s\<lparr>ps_queue := m_call t op (ps_queue s)\<rparr>))"

definition queue_return :: "tid \<Rightarrow> (queue_res \<Rightarrow> pool_pc) \<Rightarrow> psys \<Rightarrow> psys option" where
  "queue_return t k s =
     (case mpcs (ps_queue s) t of
        Returning op r \<Rightarrow> Some (to t (k r) (s\<lparr>ps_queue := m_return t (ps_queue s)\<rparr>))
      | _ \<Rightarrow> None)"

definition take_wait_lock :: "tid \<Rightarrow> pool_pc \<Rightarrow> psys \<Rightarrow> psys option" where
  "take_wait_lock t p s =
     (case ps_wait_lock s of None \<Rightarrow> Some (to t p (s\<lparr>ps_wait_lock := Some t\<rparr>)) | Some _ \<Rightarrow> None)"

text \<open>One function per C function, one clause per step. None: the thread cannot go on.\<close>

fun worker_thread :: "tid \<Rightarrow> pool_pc \<Rightarrow> psys \<Rightarrow> psys option" where
  "worker_thread t Work_Loop s = queue_call t Pop Work_Pop s"
| "worker_thread t Work_Pop s = queue_return t after_pop s"
| "worker_thread t (Work_Check func arg) s =
     Some (to t (if ps_state s = POOL_STATE_TERMINATED then Work_Exit else Work_Activate func arg) s)"
| "worker_thread t (Work_Activate func arg) s =
     Some (to t (Work_Call func arg) (s\<lparr>ps_active := ps_active s + 1\<rparr>))"
| "worker_thread t (Work_Call func arg) s =
     Some (to t (Work_Running func arg) (s\<lparr>ps_ran := ps_ran s @ [(t, func, arg)]\<rparr>))"
| "worker_thread t (Work_Running func arg) s = Some (to t Work_Deactivate s)"
| "worker_thread t Work_Deactivate s =
     Some (to t Work_Complete (s\<lparr>ps_active := ps_active s - 1\<rparr>))"
| "worker_thread t Work_Complete s =
     Some (to t Work_Lock (s\<lparr>ps_completed := ps_completed s + 1\<rparr>))"
| "worker_thread t Work_Lock s = take_wait_lock t Work_Broadcast s"
| "worker_thread t Work_Broadcast s =
     Some (s\<lparr>ps_pc := (wake_waiter \<circ> ps_pc s)(t := Work_Unlock)\<rparr>)"
| "worker_thread t Work_Unlock s = Some (to t Work_Loop (s\<lparr>ps_wait_lock := None\<rparr>))"
| "worker_thread t p s = None"

text \<open>The step with malloc and the call of push is the rule \<open>push\<close> of \<open>pstep\<close> below.\<close>

fun thread_pool_submit :: "tid \<Rightarrow> pool_pc \<Rightarrow> psys \<Rightarrow> psys option" where
  "thread_pool_submit t (Submit_Load func arg priority) s =
     Some (to t (if ps_state s \<noteq> POOL_STATE_RUNNING then Submit_Return (- 2)
       else Submit_Alloc func arg priority) s)"
| "thread_pool_submit t Submit_Push s = queue_return t after_push s"
| "thread_pool_submit t Submit_Count s =
     Some (to t (Submit_Return 0) (s\<lparr>ps_submitted := ps_submitted s + 1\<rparr>))"
| "thread_pool_submit t (Submit_Return r) s = Some (to t Idle s)"
| "thread_pool_submit t p s = None"

fun thread_pool_pending :: "tid \<Rightarrow> pool_pc \<Rightarrow> psys \<Rightarrow> psys option" where
  "thread_pool_pending t Pending_Call s = queue_call t Size Pending_Size s"
| "thread_pool_pending t Pending_Size s = queue_return t after_size s"
| "thread_pool_pending t (Pending_Return r) s = Some (to t Idle s)"
| "thread_pool_pending t p s = None"

text \<open>
  The order in which C evaluates the two loads of the loop condition is not specified:
  \<open>completed_first\<close> picks one.
\<close>

fun thread_pool_wait :: "bool \<Rightarrow> tid \<Rightarrow> pool_pc \<Rightarrow> psys \<Rightarrow> psys option" where
  "thread_pool_wait completed_first t (Wait_Lock k) s = take_wait_lock t (Wait_Test k) s"
| "thread_pool_wait completed_first t (Wait_Test k) s =
     Some (to t (if completed_first then Wait_Completed k (ps_completed s)
       else Wait_Submitted k (ps_submitted s)) s)"
| "thread_pool_wait completed_first t (Wait_Completed k c) s =
     Some (to t (if c < ps_submitted s then Wait_Block k c else Wait_Unlock k) s)"
| "thread_pool_wait completed_first t (Wait_Submitted k m) s =
     Some (to t (if ps_completed s < m then Wait_Block k (ps_completed s) else Wait_Unlock k) s)"
| "thread_pool_wait completed_first t (Wait_Block k c) s =
     Some (to t (Wait_Sleep k c) (s\<lparr>ps_wait_lock := None\<rparr>))"
| "thread_pool_wait completed_first t (Wait_Woken k) s = take_wait_lock t (Wait_Test k) s"
| "thread_pool_wait completed_first t (Wait_Unlock k) s =
     Some (to t (Wait_Return k) (s\<lparr>ps_wait_lock := None\<rparr>))"
| "thread_pool_wait completed_first t (Wait_Return k) s = Some (to t Idle s)"
| "thread_pool_wait completed_first t p s = None"

text \<open>\<open>n\<close> is the number of workers. What the release at the end frees is \<open>release_pool\<close> of Thread_Pool.\<close>

fun thread_pool_destroy :: "nat \<Rightarrow> tid \<Rightarrow> pool_pc \<Rightarrow> psys \<Rightarrow> psys option" where
  "thread_pool_destroy n t Destroy_Cas s =
     (if ps_state s = POOL_STATE_RUNNING
      then Some (to t Destroy_Call (s\<lparr>ps_state := POOL_STATE_SHUTDOWN\<rparr>))
      else Some (to t Destroy_Return s))"
| "thread_pool_destroy n t Destroy_Call s = queue_call t Shutdown Destroy_Shutdown s"
| "thread_pool_destroy n t Destroy_Shutdown s = queue_return t (\<lambda>_. Destroy_Join 0) s"
| "thread_pool_destroy n t (Destroy_Join i) s =
     (if i < n then if ps_pc s i = Work_Exit then Some (to t (Destroy_Join (Suc i)) s) else None
      else Some (to t Destroy_Store s))"
| "thread_pool_destroy n t Destroy_Store s =
     Some (to t Destroy_Release (s\<lparr>ps_state := POOL_STATE_TERMINATED\<rparr>))"
| "thread_pool_destroy n t Destroy_Release s = Some (to t Destroy_Return (s\<lparr>ps_freed := True\<rparr>))"
| "thread_pool_destroy n t Destroy_Return s = Some (to t Idle s)"
| "thread_pool_destroy n t p s = None"

text \<open>Which function a counter belongs to.\<close>

fun act :: "nat \<Rightarrow> bool \<Rightarrow> tid \<Rightarrow> pool_pc \<Rightarrow> psys \<Rightarrow> psys option" where
  "act n completed_first t Work_Loop s = worker_thread t Work_Loop s"
| "act n completed_first t Work_Pop s = worker_thread t Work_Pop s"
| "act n completed_first t (Work_Check func arg) s = worker_thread t (Work_Check func arg) s"
| "act n completed_first t (Work_Activate func arg) s = worker_thread t (Work_Activate func arg) s"
| "act n completed_first t (Work_Call func arg) s = worker_thread t (Work_Call func arg) s"
| "act n completed_first t (Work_Running func arg) s = worker_thread t (Work_Running func arg) s"
| "act n completed_first t Work_Deactivate s = worker_thread t Work_Deactivate s"
| "act n completed_first t Work_Complete s = worker_thread t Work_Complete s"
| "act n completed_first t Work_Lock s = worker_thread t Work_Lock s"
| "act n completed_first t Work_Broadcast s = worker_thread t Work_Broadcast s"
| "act n completed_first t Work_Unlock s = worker_thread t Work_Unlock s"
| "act n completed_first t (Submit_Load func arg priority) s = thread_pool_submit t (Submit_Load func arg priority) s"
| "act n completed_first t Submit_Push s = thread_pool_submit t Submit_Push s"
| "act n completed_first t Submit_Count s = thread_pool_submit t Submit_Count s"
| "act n completed_first t (Submit_Return r) s = thread_pool_submit t (Submit_Return r) s"
| "act n completed_first t Pending_Call s = thread_pool_pending t Pending_Call s"
| "act n completed_first t Pending_Size s = thread_pool_pending t Pending_Size s"
| "act n completed_first t (Pending_Return r) s = thread_pool_pending t (Pending_Return r) s"
| "act n completed_first t (Wait_Lock k) s = thread_pool_wait completed_first t (Wait_Lock k) s"
| "act n completed_first t (Wait_Test k) s = thread_pool_wait completed_first t (Wait_Test k) s"
| "act n completed_first t (Wait_Completed k c) s = thread_pool_wait completed_first t (Wait_Completed k c) s"
| "act n completed_first t (Wait_Submitted k m) s = thread_pool_wait completed_first t (Wait_Submitted k m) s"
| "act n completed_first t (Wait_Block k c) s = thread_pool_wait completed_first t (Wait_Block k c) s"
| "act n completed_first t (Wait_Woken k) s = thread_pool_wait completed_first t (Wait_Woken k) s"
| "act n completed_first t (Wait_Unlock k) s = thread_pool_wait completed_first t (Wait_Unlock k) s"
| "act n completed_first t (Wait_Return k) s = thread_pool_wait completed_first t (Wait_Return k) s"
| "act n completed_first t Destroy_Cas s = thread_pool_destroy n t Destroy_Cas s"
| "act n completed_first t Destroy_Call s = thread_pool_destroy n t Destroy_Call s"
| "act n completed_first t Destroy_Shutdown s = thread_pool_destroy n t Destroy_Shutdown s"
| "act n completed_first t (Destroy_Join i) s = thread_pool_destroy n t (Destroy_Join i) s"
| "act n completed_first t Destroy_Store s = thread_pool_destroy n t Destroy_Store s"
| "act n completed_first t Destroy_Release s = thread_pool_destroy n t Destroy_Release s"
| "act n completed_first t Destroy_Return s = thread_pool_destroy n t Destroy_Return s"
| "act n completed_first t p s = None"

section \<open>The system\<close>

text \<open>
  \<open>pstep n t s s'\<close>: thread \<open>t\<close> makes a step on a pool that is not freed. The node of a push is
  malloc's answer: NULL, or a block that is in use nowhere in the queue.
\<close>

inductive pstep :: "nat \<Rightarrow> tid \<Rightarrow> psys \<Rightarrow> psys \<Rightarrow> bool" for n t where
  thread: "\<not> ps_freed s \<Longrightarrow> act n cf t (ps_pc s t) s = Some s' \<Longrightarrow> pstep n t s s'"
| in_queue: "\<not> ps_freed s \<Longrightarrow> mstep queue_monitor t (ps_queue s) q' \<Longrightarrow>
    pstep n t s (s\<lparr>ps_queue := q'\<rparr>)"
| push: "\<not> ps_freed s \<Longrightarrow> ps_pc s t = Submit_Alloc func arg priority \<Longrightarrow>
    task_queue_push pool_queue_ptr func arg priority node now = Inr op \<Longrightarrow>
    can_call queue_monitor t op (ps_queue s) \<Longrightarrow>
    pstep n t s (to t Submit_Push (s\<lparr>ps_queue := m_call t op (ps_queue s)\<rparr>))"
| no_memory: "\<not> ps_freed s \<Longrightarrow> ps_pc s t = Submit_Alloc func arg priority \<Longrightarrow>
    task_queue_push pool_queue_ptr func arg priority NULL now = Inl r \<Longrightarrow>
    pstep n t s (to t (after_push r) s)"
| spurious_wakeup: "\<not> ps_freed s \<Longrightarrow> ps_pc s t = Wait_Sleep k c \<Longrightarrow>
    pstep n t s (to t (Wait_Woken k) s)"

inductive preach :: "nat \<Rightarrow> size_t \<Rightarrow> psys \<Rightarrow> bool" for n capacity where
  init: "preach n capacity (init_psys n capacity)"
| step: "preach n capacity s \<Longrightarrow> pstep n t s s' \<Longrightarrow> preach n capacity s'"
| enter: "preach n capacity s \<Longrightarrow> n \<le> t \<Longrightarrow> ps_pc s t = Idle \<Longrightarrow> \<not> ps_freed s \<Longrightarrow>
    pool_enter pool c s = Inr p \<Longrightarrow> preach n capacity (to t p s)"

lemmas queue_moves = queue_call_def queue_return_def take_wait_lock_def

end
