(* ===== verification/Pool_Basic.thy ===== *)
theory Pool_Basic
  imports Pool_Machine
begin

text \<open>
  First invariants of the running pool: program counters agree with the positions inside the
  queue, so that the queue's part of the state is a reachable state of the queue's monitor and
  everything proved of it holds here; workers stay workers; the wait lock excludes.
\<close>

section \<open>The shape of a step\<close>

text \<open>A step changes the program counter of its own thread, and wakes others.\<close>

lemma act_others:
  "act n cf t p s = Some s' \<Longrightarrow> u \<noteq> t \<Longrightarrow>
   ps_pc s' u = ps_pc s u \<or> (\<exists>k c. ps_pc s u = Wait_Sleep k c \<and> ps_pc s' u = Wait_Woken k)"
proof (cases p)
  assume st: "act n cf t p s = Some s'" and u: "u \<noteq> t"
  case Work_Broadcast
  with st u show ?thesis by (cases "ps_pc s u") auto
qed (auto simp: queue_moves split: if_splits option.splits mpc.splits)

lemma pstep_others:
  assumes "pstep n t s s'" and "u \<noteq> t"
  shows "ps_pc s' u = ps_pc s u \<or> (\<exists>k c. ps_pc s u = Wait_Sleep k c \<and> ps_pc s' u = Wait_Woken k)"
  using assms(1)
proof (cases rule: pstep.cases)
  case (thread cf)
  with assms(2) show ?thesis by (blast dest: act_others)
qed (use assms(2) in auto)

text \<open>What happens to the queue.\<close>

lemma act_queue:
  "act n cf t p s = Some s' \<Longrightarrow>
     ps_queue s' = ps_queue s \<or>
     (p = Work_Loop \<and> ps_queue s' = m_call t Pop (ps_queue s)) \<or>
     (p = Pending_Call \<and> ps_queue s' = m_call t Size (ps_queue s)) \<or>
     (p = Destroy_Call \<and> ps_queue s' = m_call t Shutdown (ps_queue s)) \<or>
     (\<exists>op r. mpcs (ps_queue s) t = Returning op r \<and> ps_queue s' = m_return t (ps_queue s))"
  by (cases p) (auto simp: queue_moves split: if_splits option.splits mpc.splits)

section \<open>Positions\<close>

fun fits :: "pool_pc \<Rightarrow> queue_op option \<Rightarrow> bool" where
  "fits Work_Pop op = (op = Some Pop)"
| "fits Submit_Push op = (\<exists>a k. op = Some (Push a k))"
| "fits Pending_Size op = (op = Some Size)"
| "fits Destroy_Shutdown op = (op = Some Shutdown)"
| "fits p op = (op = None)"

fun is_worker :: "pool_pc \<Rightarrow> bool" where
  "is_worker Work_Loop = True"
| "is_worker Work_Pop = True"
| "is_worker (Work_Check f a) = True"
| "is_worker (Work_Activate f a) = True"
| "is_worker (Work_Call f a) = True"
| "is_worker (Work_Running f a) = True"
| "is_worker Work_Deactivate = True"
| "is_worker Work_Complete = True"
| "is_worker Work_Lock = True"
| "is_worker Work_Broadcast = True"
| "is_worker Work_Unlock = True"
| "is_worker Work_Exit = True"
| "is_worker p = False"

definition placed :: "nat \<Rightarrow> psys \<Rightarrow> bool" where
  "placed n s \<longleftrightarrow> (\<forall>t. fits (ps_pc s t) (op_of (mpcs (ps_queue s) t))) \<and>
     (\<forall>t. is_worker (ps_pc s t) \<longleftrightarrow> t < n)"

lemma fits_None: "fits p None \<longleftrightarrow>
    p \<noteq> Work_Pop \<and> p \<noteq> Submit_Push \<and> p \<noteq> Pending_Size \<and> p \<noteq> Destroy_Shutdown"
  by (cases p) auto

lemma fits_after [simp]: "fits (after_pop r) None" "fits (after_push r) None" "fits (after_size r) None"
  by (cases r; simp)+

lemma worker_after [simp]: "is_worker (after_pop r)" "\<not> is_worker (after_push r)" "\<not> is_worker (after_size r)"
  by (cases r; simp)+

lemma wake_waiter_simps [simp]: "is_worker (wake_waiter p) = is_worker p" "fits (wake_waiter p) op = fits p op"
  by (cases p; simp)+

lemma m_call_simps [simp]: "mpcs (m_call t op q) = (mpcs q)(t := Acquire op)" "mdata (m_call t op q) = mdata q"
  "mlog (m_call t op q) = mlog q" "owner (m_call t op q) = owner q"
  by (simp_all add: m_call_def)

lemma m_return_simps [simp]: "mpcs (m_return t q) = (mpcs q)(t := Outside)" "mdata (m_return t q) = mdata q"
  "mlog (m_return t q) = mlog q" "owner (m_return t q) = owner q"
  by (simp_all add: m_return_def)

lemma act_placed: "act n cf t p s = Some s' \<Longrightarrow> fits p (op_of (mpcs (ps_queue s) t)) \<Longrightarrow>
   fits (ps_pc s' t) (op_of (mpcs (ps_queue s') t)) \<and> is_worker (ps_pc s' t) = is_worker p"
  by (cases p) (auto simp: queue_moves split: if_splits option.splits mpc.splits)

lemma act_queue_others:
  "act n cf t p s = Some s' \<Longrightarrow> u \<noteq> t \<Longrightarrow> mpcs (ps_queue s') u = mpcs (ps_queue s) u"
  using act_queue [of n cf t p s s'] by auto

lemma placed_step:
  assumes st: "pstep n t s s'" and inv: "placed n s"
  shows "placed n s'"
proof -
  have own: "fits (ps_pc s' t) (op_of (mpcs (ps_queue s') t)) \<and>
      is_worker (ps_pc s' t) = is_worker (ps_pc s t)"
    using st
  proof (cases rule: pstep.cases)
    case (thread cf)
    with inv show ?thesis using act_placed [of n cf t "ps_pc s t" s s'] by (simp add: placed_def)
  next
    case (in_queue q')
    with inv mstep_op_of [OF in_queue(3), of t] show ?thesis by (simp add: placed_def)
  next
    case (push f a pr node now op)
    then show ?thesis by (auto simp: task_queue_push_def split: if_splits)
  next
    case (no_memory f a pr now r)
    have "fits (ps_pc s t) (op_of (mpcs (ps_queue s) t))" using inv by (simp add: placed_def)
    with no_memory have "op_of (mpcs (ps_queue s) t) = None" by simp
    with no_memory show ?thesis by simp
  next
    case (spurious_wakeup k c)
    have "fits (ps_pc s t) (op_of (mpcs (ps_queue s) t))" using inv by (simp add: placed_def)
    with spurious_wakeup show ?thesis by simp
  qed
  have other: "fits (ps_pc s' u) (op_of (mpcs (ps_queue s') u)) \<and>
      is_worker (ps_pc s' u) = is_worker (ps_pc s u)" if u: "u \<noteq> t" for u
  proof -
    have q: "op_of (mpcs (ps_queue s') u) = op_of (mpcs (ps_queue s) u)"
      using st
    proof (cases rule: pstep.cases)
      case (thread cf)
      then show ?thesis using act_queue_others [of n cf t "ps_pc s t" s s' u] u by simp
    next
      case (in_queue q')
      with mstep_op_of [OF in_queue(3), of u] show ?thesis by simp
    qed (use u in auto)
    have "fits (ps_pc s u) (op_of (mpcs (ps_queue s) u))" using inv by (simp add: placed_def)
    with pstep_others [OF st u] q show ?thesis by auto
  qed
  show ?thesis using own other inv unfolding placed_def by metis
qed

lemma placed_reach: "preach n capacity s \<Longrightarrow> placed n s"
proof (induction rule: preach.induct)
  case init
  show ?case by (simp add: placed_def init_psys_def init_msys_def)
next
  case (step s t s')
  then show ?case by (blast intro: placed_step)
next
  case (enter s t pool c p)
  have "fits p None \<and> \<not> is_worker p" using enter.hyps by (cases c) (auto split: if_splits)
  moreover have "mpcs (ps_queue s) t = Outside"
    using enter unfolding placed_def by (metis fits.simps(5) op_of_None)
  ultimately show ?case using enter by (auto simp: placed_def)
qed

text \<open>The queue of a reachable pool is reachable in its own monitor.\<close>

lemma act_queue_reach:
  assumes "act n cf t p s = Some s'" and "fits p (op_of (mpcs (ps_queue s) t))"
    and "mreach queue_monitor q0 (ps_queue s)"
  shows "mreach queue_monitor q0 (ps_queue s')"
proof -
  have c: "can_call queue_monitor t op (ps_queue s)"
    if "fits p None" "claims queue_monitor op = {}" for op
    using that assms(2) by (cases p) (auto simp: can_call_def fits_None)
  from act_queue [OF assms(1)] show ?thesis
  proof (elim disjE conjE exE)
    fix op r assume "mpcs (ps_queue s) t = Returning op r" "ps_queue s' = m_return t (ps_queue s)"
    with assms(3) show ?thesis by (metis mreach.return)
  qed (use assms(3) c in \<open>auto intro!: mreach.call\<close>)
qed

lemma queue_reach: "preach n capacity s \<Longrightarrow> mreach queue_monitor (new_queue capacity) (ps_queue s)"
proof (induction rule: preach.induct)
  case init
  show ?case by (simp add: init_psys_def mreach.init)
next
  case (step s t s')
  have f: "fits (ps_pc s t) (op_of (mpcs (ps_queue s) t))"
    using placed_reach [OF step.hyps(1)] by (simp add: placed_def)
  from step.hyps(2) show ?case
  proof (cases rule: pstep.cases)
    case (thread cf)
    with act_queue_reach [OF thread(2) f step.IH] show ?thesis by simp
  next
    case (in_queue q')
    with mreach.inside [OF step.IH in_queue(3)] show ?thesis by simp
  next
    case (push f a pr node now op)
    with mreach.call [OF step.IH push(5)] show ?thesis by simp
  qed (use step.IH in auto)
qed simp

section \<open>The wait lock\<close>

fun wholding :: "pool_pc \<Rightarrow> bool" where
  "wholding Work_Broadcast = True"
| "wholding Work_Unlock = True"
| "wholding (Wait_Test k) = True"
| "wholding (Wait_Completed k c) = True"
| "wholding (Wait_Submitted k c) = True"
| "wholding (Wait_Block k c) = True"
| "wholding (Wait_Unlock k) = True"
| "wholding p = False"

definition wait_lock_inv :: "psys \<Rightarrow> bool" where
  "wait_lock_inv s \<longleftrightarrow> (\<forall>t. wholding (ps_pc s t) \<longleftrightarrow> ps_wait_lock s = Some t)"

lemma wholding_simps [simp]: "wholding (wake_waiter p) = wholding p" "\<not> wholding (after_pop r)"
  "\<not> wholding (after_push r)" "\<not> wholding (after_size r)"
  by (cases p; simp) (cases r; simp)+

lemma act_wait_lock:
  "act n cf t p s = Some s' \<Longrightarrow> (wholding p \<longleftrightarrow> ps_wait_lock s = Some t) \<Longrightarrow>
     (wholding (ps_pc s' t) \<longleftrightarrow> ps_wait_lock s' = Some t) \<and>
     (ps_wait_lock s' = ps_wait_lock s \<or> ps_wait_lock s = None \<and> ps_wait_lock s' = Some t \<or>
      ps_wait_lock s = Some t \<and> ps_wait_lock s' = None)"
  by (cases p) (auto simp: queue_moves split: if_splits option.splits mpc.splits)

lemma wait_lock_reach: "preach n capacity s \<Longrightarrow> wait_lock_inv s"
proof (induction rule: preach.induct)
  case init
  show ?case by (simp add: wait_lock_inv_def init_psys_def)
next
  case (step s t s')
  have own: "wholding (ps_pc s t) \<longleftrightarrow> ps_wait_lock s = Some t" using step.IH by (simp add: wait_lock_inv_def)
  have eff: "(wholding (ps_pc s' t) \<longleftrightarrow> ps_wait_lock s' = Some t) \<and>
     (ps_wait_lock s' = ps_wait_lock s \<or> ps_wait_lock s = None \<and> ps_wait_lock s' = Some t \<or>
      ps_wait_lock s = Some t \<and> ps_wait_lock s' = None)"
    using step.hyps(2) own
    by (cases rule: pstep.cases) (auto dest: act_wait_lock)
  have "wholding (ps_pc s' u) = wholding (ps_pc s u)" if "u \<noteq> t" for u
    using pstep_others [OF step.hyps(2) that] by auto
  with eff step.IH show ?case unfolding wait_lock_inv_def by (metis option.distinct(1) option.inject)
next
  case (enter s t pool c p)
  have "\<not> wholding p" using enter.hyps by (cases c) (auto split: if_splits)
  moreover have "ps_wait_lock s \<noteq> Some t"
    using enter unfolding wait_lock_inv_def by (metis wholding.simps(8))
  ultimately show ?case using enter by (auto simp: wait_lock_inv_def)
qed

lemma finite_busy: "preach n capacity s \<Longrightarrow> finite {t. ps_pc s t \<noteq> Idle}"
proof (induction rule: preach.induct)
  case init
  have "{t. ps_pc (init_psys n capacity) t \<noteq> Idle} \<subseteq> {..<n}" by (auto simp: init_psys_def)
  then show ?case by (rule finite_subset) simp
next
  case (step s t s')
  have "{u. ps_pc s' u \<noteq> Idle} \<subseteq> insert t {u. ps_pc s u \<noteq> Idle}"
    using pstep_others [OF step.hyps(2)] by force
  with step.IH show ?case by (meson finite_insert finite_subset)
next
  case (enter s t pool c p)
  have "{u. ps_pc (to t p s) u \<noteq> Idle} \<subseteq> insert t {u. ps_pc s u \<noteq> Idle}" by auto
  with enter.IH show ?case by (meson finite_insert finite_subset)
qed

section \<open>Shutting down\<close>

lemma exit_stable:
  assumes "pstep n t s s'" and "ps_pc s u = Work_Exit"
  shows "ps_pc s' u = Work_Exit"
proof (cases "u = t")
  case True
  with assms show ?thesis by (cases rule: pstep.cases) auto
next
  case False
  from pstep_others [OF assms(1) False] assms(2) show ?thesis by auto
qed

definition destroy_inv :: "nat \<Rightarrow> psys \<Rightarrow> bool" where
  "destroy_inv n s \<longleftrightarrow>
     (\<forall>t i. ps_pc s t = Destroy_Join i \<longrightarrow> i \<le> n \<and> (\<forall>j<i. ps_pc s j = Work_Exit)) \<and>
     (\<forall>t. ps_pc s t = Destroy_Store \<or> ps_pc s t = Destroy_Release \<longrightarrow> (\<forall>j<n. ps_pc s j = Work_Exit)) \<and>
     (ps_state s = POOL_STATE_TERMINATED \<longrightarrow> (\<forall>j<n. ps_pc s j = Work_Exit))"

lemma after_not_destroy [simp]: "after_pop r \<noteq> Destroy_Join i" "after_push r \<noteq> Destroy_Join i"
  "after_size r \<noteq> Destroy_Join i" "after_pop r \<noteq> Destroy_Store" "after_push r \<noteq> Destroy_Store"
  "after_size r \<noteq> Destroy_Store" "after_pop r \<noteq> Destroy_Release" "after_push r \<noteq> Destroy_Release"
  "after_size r \<noteq> Destroy_Release"
  by (cases r; simp)+

lemmas after_not_destroy' [simp] = after_not_destroy [THEN not_sym]

lemma act_to_destroy:
  assumes "act n cf t p s = Some s'"
  shows "ps_pc s' t = Destroy_Join i \<Longrightarrow>
      i = 0 \<or> (\<exists>j. i = Suc j \<and> p = Destroy_Join j \<and> j < n \<and> ps_pc s j = Work_Exit)"
    and "ps_pc s' t = Destroy_Store \<Longrightarrow> \<exists>i. p = Destroy_Join i \<and> n \<le> i"
    and "ps_pc s' t = Destroy_Release \<Longrightarrow> p = Destroy_Store"
    and "ps_state s' = POOL_STATE_TERMINATED \<Longrightarrow> ps_state s = POOL_STATE_TERMINATED \<or> p = Destroy_Store"
  using assms
  by (cases p; auto simp: queue_moves split: if_splits option.splits mpc.splits; fail)+

lemma pstep_act:
  assumes "pstep n t s s'"
  shows "(\<exists>cf. act n cf t (ps_pc s t) s = Some s') \<or>
    ps_state s' = ps_state s \<and> (\<forall>u. u \<noteq> t \<longrightarrow> ps_pc s' u = ps_pc s u) \<and>
    (ps_pc s' t = ps_pc s t \<or> (\<exists>r. ps_pc s' t = after_push r) \<or> ps_pc s' t = Submit_Push \<or>
     (\<exists>k. ps_pc s' t = Wait_Woken k))"
  using assms by (cases rule: pstep.cases) auto

lemma pstep_to_join:
  assumes st: "pstep n t s s'" and p: "ps_pc s' u = Destroy_Join i"
  shows "ps_pc s u = Destroy_Join i \<or> i = 0 \<or>
    (\<exists>j. i = Suc j \<and> ps_pc s u = Destroy_Join j \<and> j < n \<and> ps_pc s j = Work_Exit)"
  using pstep_act [OF st]
proof
  assume "\<exists>cf. act n cf t (ps_pc s t) s = Some s'"
  then obtain cf where a: "act n cf t (ps_pc s t) s = Some s'" by blast
  show ?thesis using p act_to_destroy(1) [OF a, of i] act_others [OF a, of u] by (cases "u = t") auto
qed (use p in \<open>cases "u = t"; auto\<close>)

lemma pstep_to_store:
  assumes st: "pstep n t s s'" and p: "ps_pc s' u = Destroy_Store"
  shows "ps_pc s u = Destroy_Store \<or> (\<exists>i. ps_pc s u = Destroy_Join i \<and> n \<le> i)"
  using pstep_act [OF st]
proof
  assume "\<exists>cf. act n cf t (ps_pc s t) s = Some s'"
  then obtain cf where a: "act n cf t (ps_pc s t) s = Some s'" by blast
  show ?thesis using p act_to_destroy(2) [OF a] act_others [OF a, of u] by (cases "u = t") auto
qed (use p in \<open>cases "u = t"; auto\<close>)

lemma pstep_to_release:
  assumes st: "pstep n t s s'" and p: "ps_pc s' u = Destroy_Release"
  shows "ps_pc s u = Destroy_Release \<or> ps_pc s u = Destroy_Store"
  using pstep_act [OF st]
proof
  assume "\<exists>cf. act n cf t (ps_pc s t) s = Some s'"
  then obtain cf where a: "act n cf t (ps_pc s t) s = Some s'" by blast
  show ?thesis using p act_to_destroy(3) [OF a] act_others [OF a, of u] by (cases "u = t") auto
qed (use p in \<open>cases "u = t"; auto\<close>)

lemma pstep_to_terminated:
  "pstep n t s s' \<Longrightarrow> ps_state s' = POOL_STATE_TERMINATED \<Longrightarrow>
   ps_state s = POOL_STATE_TERMINATED \<or> ps_pc s t = Destroy_Store"
  using pstep_act [of n t s s'] act_to_destroy(4) by metis

lemmas pstep_to = pstep_to_join pstep_to_store pstep_to_release pstep_to_terminated

lemma destroy_invD:
  assumes "destroy_inv n s"
  shows "ps_pc s u = Destroy_Join i \<Longrightarrow> i \<le> n"
    and "ps_pc s u = Destroy_Join i \<Longrightarrow> j < i \<Longrightarrow> ps_pc s j = Work_Exit"
    and "ps_pc s u = Destroy_Store \<Longrightarrow> j < n \<Longrightarrow> ps_pc s j = Work_Exit"
    and "ps_pc s u = Destroy_Release \<Longrightarrow> j < n \<Longrightarrow> ps_pc s j = Work_Exit"
    and "ps_state s = POOL_STATE_TERMINATED \<Longrightarrow> j < n \<Longrightarrow> ps_pc s j = Work_Exit"
proof -
  note a = assms [unfolded destroy_inv_def]
  note join = a [THEN conjunct1, rule_format] and rest = a [THEN conjunct2]
  note all = rest [THEN conjunct1, rule_format] and ended = rest [THEN conjunct2, rule_format]
  show "ps_pc s u = Destroy_Join i \<Longrightarrow> i \<le> n"
    by (rule join [THEN conjunct1])
  show "ps_pc s u = Destroy_Join i \<Longrightarrow> j < i \<Longrightarrow> ps_pc s j = Work_Exit"
    by (rule join [THEN conjunct2, rule_format])
  show "ps_pc s u = Destroy_Store \<Longrightarrow> j < n \<Longrightarrow> ps_pc s j = Work_Exit"
    by (rule all [OF disjI1])
  show "ps_pc s u = Destroy_Release \<Longrightarrow> j < n \<Longrightarrow> ps_pc s j = Work_Exit"
    by (rule all [OF disjI2])
  show "ps_state s = POOL_STATE_TERMINATED \<Longrightarrow> j < n \<Longrightarrow> ps_pc s j = Work_Exit"
    by (rule ended)
qed

lemma destroy_invI:
  assumes "\<And>u i. ps_pc s u = Destroy_Join i \<Longrightarrow> i \<le> n"
    and "\<And>u i j. ps_pc s u = Destroy_Join i \<Longrightarrow> j < i \<Longrightarrow> ps_pc s j = Work_Exit"
    and "\<And>u j. ps_pc s u = Destroy_Store \<Longrightarrow> j < n \<Longrightarrow> ps_pc s j = Work_Exit"
    and "\<And>u j. ps_pc s u = Destroy_Release \<Longrightarrow> j < n \<Longrightarrow> ps_pc s j = Work_Exit"
    and "\<And>j. ps_state s = POOL_STATE_TERMINATED \<Longrightarrow> j < n \<Longrightarrow> ps_pc s j = Work_Exit"
  shows "destroy_inv n s"
  unfolding destroy_inv_def
  by (intro conjI allI impI; (elim disjE)?; (rule assms; assumption))

lemma destroy_step:
  assumes st: "pstep n t s s'" and inv: "destroy_inv n s"
  shows "destroy_inv n s'"
proof (rule destroy_invI)
  fix u i assume "ps_pc s' u = Destroy_Join i"
  from pstep_to_join [OF st this] show "i \<le> n"
    using destroy_invD(1) [OF inv, of u i] by (elim disjE exE) simp_all
next
  fix u i k assume p: "ps_pc s' u = Destroy_Join i" and k: "k < i"
  from pstep_to_join [OF st p] have "ps_pc s k = Work_Exit"
  proof (elim disjE exE conjE)
    assume "ps_pc s u = Destroy_Join i"
    then show ?thesis using k by (rule destroy_invD(2) [OF inv])
  next
    fix j assume j: "i = Suc j" "ps_pc s u = Destroy_Join j" "ps_pc s j = Work_Exit"
    show ?thesis
    proof (cases "k = j")
      case False
      with k j(1) have "k < j" by simp
      with j(2) show ?thesis by (rule destroy_invD(2) [OF inv])
    qed (simp add: j)
  qed (use k in simp)
  then show "ps_pc s' k = Work_Exit" by (rule exit_stable [OF st])
next
  fix u j assume p: "ps_pc s' u = Destroy_Store" and j: "j < n"
  from pstep_to_store [OF st p] have "ps_pc s j = Work_Exit"
  proof (elim disjE exE conjE)
    fix i assume i: "ps_pc s u = Destroy_Join i" "n \<le> i"
    have "j < i" using j i(2) by simp
    with i(1) show ?thesis by (rule destroy_invD(2) [OF inv])
  qed (rule destroy_invD(3) [OF inv _ j])
  then show "ps_pc s' j = Work_Exit" by (rule exit_stable [OF st])
next
  fix u j assume p: "ps_pc s' u = Destroy_Release" and j: "j < n"
  from pstep_to_release [OF st p] have "ps_pc s j = Work_Exit"
    using destroy_invD(3,4) [OF inv _ j] by (elim disjE)
  then show "ps_pc s' j = Work_Exit" by (rule exit_stable [OF st])
next
  fix j assume p: "ps_state s' = POOL_STATE_TERMINATED" and j: "j < n"
  from pstep_to_terminated [OF st p] have "ps_pc s j = Work_Exit"
    using destroy_invD(3,5) [OF inv _ j] by (elim disjE)
  then show "ps_pc s' j = Work_Exit" by (rule exit_stable [OF st])
qed

lemma destroy_reach: "preach n capacity s \<Longrightarrow> destroy_inv n s"
proof (induction rule: preach.induct)
  case init
  show ?case by (rule destroy_invI) (auto simp: init_psys_def split: if_splits)
next
  case (step s t s')
  then show ?case by (blast intro: destroy_step)
next
  case (enter s t pool c p)
  have p: "p \<noteq> Destroy_Join i" "p \<noteq> Destroy_Store" "p \<noteq> Destroy_Release" for i
    using enter.hyps by (cases c; auto split: if_splits)+
  have u: "ps_pc s u = x" if "ps_pc (to t p s) u = x" "x \<noteq> p" for u x
    using that by (simp split: if_splits)
  have e: "ps_pc (to t p s) j = Work_Exit" if "ps_pc s j = Work_Exit" for j
    using that enter.hyps by auto
  note d = destroy_invD [OF enter.IH]
  show ?case
  proof (rule destroy_invI)
    fix v i assume "ps_pc (to t p s) v = Destroy_Join i"
    from u [OF this] p show "i \<le> n" by (metis d(1))
  next
    fix v i j assume "ps_pc (to t p s) v = Destroy_Join i" "j < i"
    from u [OF this(1)] p this(2) show "ps_pc (to t p s) j = Work_Exit" by (metis d(2) e)
  next
    fix v j assume "ps_pc (to t p s) v = Destroy_Store" "j < n"
    from u [OF this(1)] p this(2) show "ps_pc (to t p s) j = Work_Exit" by (metis d(3) e)
  next
    fix v j assume "ps_pc (to t p s) v = Destroy_Release" "j < n"
    from u [OF this(1)] p this(2) show "ps_pc (to t p s) j = Work_Exit" by (metis d(4) e)
  next
    fix j assume "ps_state (to t p s) = POOL_STATE_TERMINATED" "j < n"
    then show "ps_pc (to t p s) j = Work_Exit" by (intro e d(5)) simp_all
  qed
qed

end
