(* ===== verification/Pool_Counts.thy ===== *)
theory Pool_Counts
  imports Pool_Basic "HOL-Library.Multiset"
begin

text \<open>
  The accounts of the running pool. Each task accepted by the queue is in exactly one place: in the
  queue, held by a worker that has not called it yet, or called. The three counters are the number
  of events they count, up to the threads that are between the event and the counting.
\<close>

section \<open>The log grows\<close>

lemma mstep_log: "mstep M t s s' \<Longrightarrow> \<exists>es. mlog s' = mlog s @ es"
  using mstep_effect [of M t s s'] by auto

lemma act_log: "act n cf t p s = Some s' \<Longrightarrow> mlog (ps_queue s') = mlog (ps_queue s)"
  using act_queue [of n cf t p s s'] by auto

lemma pstep_log: "pstep n t s s' \<Longrightarrow> \<exists>es. mlog (ps_queue s') = mlog (ps_queue s) @ es"
  by (cases rule: pstep.cases, assumption) (auto dest: act_log mstep_log)

abbreviation plog :: "psys \<Rightarrow> (tid \<times> queue_op \<times> queue_res) list" where
  "plog s \<equiv> mlog (ps_queue s)"

abbreviation res :: "psys \<Rightarrow> tid \<Rightarrow> (queue_op \<times> queue_res) option" where
  "res s t \<equiv> result_of (mpcs (ps_queue s) t)"

lemma answered:
  assumes "preach n capacity s" and "res s t = Some (op, r)"
  shows "answer_of op r" and "(t, op, r) \<in> set (plog s)"
proof -
  note q = queue_reach [OF assms(1)]
  show "(t, op, r) \<in> set (plog s)" by (rule result_logged [OF q assms(2)])
  then show "answer_of op r" by (rule log_answers [OF q new_queue_wf(1)])
qed

lemma fits_reach: "preach n capacity s \<Longrightarrow> fits (ps_pc s t) (op_of (mpcs (ps_queue s) t))"
  using placed_reach by (simp add: placed_def)

lemma after_not_exit [simp]: "after_push r \<noteq> Work_Exit" "after_size r \<noteq> Work_Exit"
  "Work_Exit \<noteq> after_push r"
  by (cases r; simp)+

text \<open>A worker leaves its loop only when pop told it to.\<close>

lemma act_to_exit:
  "act n cf t p s = Some s' \<Longrightarrow> ps_pc s' t = Work_Exit \<Longrightarrow>
     p = Work_Pop \<and> (\<exists>op r. mpcs (ps_queue s) t = Returning op r \<and> after_pop r = Work_Exit) \<or>
     (\<exists>f a. p = Work_Check f a) \<and> ps_state s = POOL_STATE_TERMINATED"
  by (cases p) (auto simp: queue_moves split: if_splits option.splits mpc.splits)

lemma after_pop_exit: "after_pop r = Work_Exit \<Longrightarrow> answer_of Pop r \<Longrightarrow> r = Q_Int (- 1)"
  by auto

lemma not_terminated:
  assumes "preach n capacity s" and "is_worker (ps_pc s t)" and "ps_pc s t \<noteq> Work_Exit"
  shows "ps_state s \<noteq> POOL_STATE_TERMINATED"
proof
  assume "ps_state s = POOL_STATE_TERMINATED"
  moreover have "t < n" using placed_reach [OF assms(1)] assms(2) by (simp add: placed_def)
  ultimately show False using destroy_invD(5) [OF destroy_reach [OF assms(1)]] assms(3) by blast
qed

lemma exit_logged: "preach n capacity s \<Longrightarrow> ps_pc s t = Work_Exit \<Longrightarrow> (t, Pop, Q_Int (- 1)) \<in> set (plog s)"
proof (induction arbitrary: t rule: preach.induct)
  case init
  then show ?case by (simp add: init_psys_def split: if_splits)
next
  case (step s u s' t)
  obtain es where l: "plog s' = plog s @ es" using pstep_log [OF step.hyps(2)] by blast
  show ?case
  proof (cases "ps_pc s t = Work_Exit")
    case True
    with step.IH l show ?thesis by simp
  next
    case False
    have u: "u = t"
    proof (rule ccontr)
      assume "u \<noteq> t"
      with pstep_others [OF step.hyps(2), of t] step.prems False show False by simp
    qed
    note st = step.hyps(2) [unfolded u]
    have "\<exists>cf. act n cf t (ps_pc s t) s = Some s'"
      using pstep_act [OF st]
    proof
      assume "\<exists>cf. act n cf t (ps_pc s t) s = Some s'"
      then show ?thesis .
    qed (use step.prems False in auto)
    then obtain cf where a: "act n cf t (ps_pc s t) s = Some s'" by blast
    from act_to_exit [OF a step.prems] show ?thesis
    proof (elim disjE conjE exE)
      fix op r assume p: "ps_pc s t = Work_Pop" "mpcs (ps_queue s) t = Returning op r" "after_pop r = Work_Exit"
      then have "op = Pop" using fits_reach [OF step.hyps(1), of t] by simp
      then have r: "res s t = Some (Pop, r)" using p(2) by simp
      have "r = Q_Int (- 1)" by (rule after_pop_exit [OF p(3) answered(1) [OF step.hyps(1) r]])
      then show ?thesis using answered(2) [OF step.hyps(1) r] l by simp
    next
      fix f a assume "ps_pc s t = Work_Check f a" "ps_state s = POOL_STATE_TERMINATED"
      with not_terminated [OF step.hyps(1), of t] show ?thesis by simp
    qed
  qed
next
  case (enter s u pool c p t)
  have "p \<noteq> Work_Exit" using enter.hyps(5) by (cases c) (auto split: if_splits)
  with enter.prems have "ps_pc s t = Work_Exit" by (simp split: if_splits)
  with enter.IH show ?case by simp
qed

section \<open>Weights\<close>

text \<open>What a thread holds or owes, from its program counter and the answer it got from the queue.\<close>

fun got :: "(queue_op \<times> queue_res) option \<Rightarrow> (ptr \<times> ptr) multiset" where
  "got None = {#}"
| "got (Some (op, r)) = (case r of Q_Task f a \<Rightarrow> {#(f, a)#} | _ \<Rightarrow> {#})"

fun put :: "(queue_op \<times> queue_res) option \<Rightarrow> nat" where
  "put None = 0"
| "put (Some (op, r)) = (case op of Push a k \<Rightarrow> if r = Q_Int 0 then 1 else 0 | _ \<Rightarrow> 0)"

fun held_pc :: "pool_pc \<Rightarrow> (ptr \<times> ptr) multiset" where
  "held_pc (Work_Check f a) = {#(f, a)#}"
| "held_pc (Work_Activate f a) = {#(f, a)#}"
| "held_pc (Work_Call f a) = {#(f, a)#}"
| "held_pc p = {#}"

fun unfinished_pc :: "pool_pc \<Rightarrow> nat" where
  "unfinished_pc (Work_Check f a) = 1"
| "unfinished_pc (Work_Activate f a) = 1"
| "unfinished_pc (Work_Call f a) = 1"
| "unfinished_pc (Work_Running f a) = 1"
| "unfinished_pc Work_Deactivate = 1"
| "unfinished_pc Work_Complete = 1"
| "unfinished_pc p = 0"

fun calling :: "pool_pc \<Rightarrow> nat" where
  "calling (Work_Call f a) = 1"
| "calling (Work_Running f a) = 1"
| "calling Work_Deactivate = 1"
| "calling p = 0"

definition held :: "pool_pc \<Rightarrow> (queue_op \<times> queue_res) option \<Rightarrow> (ptr \<times> ptr) multiset" where
  "held p r = held_pc p + got r"

definition unfinished :: "pool_pc \<Rightarrow> (queue_op \<times> queue_res) option \<Rightarrow> nat" where
  "unfinished p r = unfinished_pc p + size (got r)"

definition uncounted :: "pool_pc \<Rightarrow> (queue_op \<times> queue_res) option \<Rightarrow> nat" where
  "uncounted p r = (if p = Submit_Count then 1 else 0) + put r"

abbreviation sum_of :: "(pool_pc \<Rightarrow> (queue_op \<times> queue_res) option \<Rightarrow> 'a :: comm_monoid_add) \<Rightarrow> psys \<Rightarrow> 'a" where
  "sum_of w s \<equiv> total (\<lambda>t. w (ps_pc s t) (res s t))"

text \<open>A weight that is nothing on an idle thread and does not tell a sleeping waiter from a woken one.\<close>

definition weight :: "(pool_pc \<Rightarrow> (queue_op \<times> queue_res) option \<Rightarrow> 'a :: comm_monoid_add) \<Rightarrow> bool" where
  "weight w \<longleftrightarrow> w Idle None = 0 \<and> (\<forall>k c r. w (Wait_Sleep k c) r = w (Wait_Woken k) r)"

lemma weights [simp]: "weight held" "weight unfinished" "weight uncounted" "weight (\<lambda>p r. calling p)"
  by (simp_all add: weight_def held_def unfinished_def uncounted_def)

lemma res_others:
  assumes "pstep n t s s'" and "u \<noteq> t"
  shows "res s' u = res s u"
  using assms(1)
proof (cases rule: pstep.cases)
  case (thread cf)
  then show ?thesis using act_queue_others assms(2) by metis
next
  case (in_queue q')
  with mstep_effect [OF in_queue(3)] assms(2) show ?thesis by auto
qed (use assms(2) in auto)

lemma finite_weight:
  assumes "preach n capacity s" and "weight w"
  shows "finite {t. w (ps_pc s t) (res s t) \<noteq> 0}"
proof (rule finite_subset [OF _ finite_busy [OF assms(1)]])
  show "{t. w (ps_pc s t) (res s t) \<noteq> 0} \<subseteq> {t. ps_pc s t \<noteq> Idle}"
  proof (clarify)
    fix t assume "w (ps_pc s t) (res s t) \<noteq> 0" and i: "ps_pc s t = Idle"
    have "mpcs (ps_queue s) t = Outside" using fits_reach [OF assms(1), of t] i by simp
    then have "w (ps_pc s t) (res s t) = 0" using i assms(2) by (simp add: weight_def)
    with \<open>w (ps_pc s t) (res s t) \<noteq> 0\<close> show False by simp
  qed
qed

lemma sum_step:
  assumes "preach n capacity s" and "pstep n t s s'" and "weight w"
  shows "sum_of w s' + w (ps_pc s t) (res s t) = sum_of w s + w (ps_pc s' t) (res s' t)"
proof (rule total_change [OF finite_weight [OF assms(1,3)]])
  fix u assume u: "u \<noteq> t"
  from pstep_others [OF assms(2) u] res_others [OF assms(2) u] assms(3)
  show "w (ps_pc s' u) (res s' u) = w (ps_pc s u) (res s u)" by (auto simp: weight_def)
qed

lemma sum_enter:
  assumes "preach n capacity s" and "ps_pc s t = Idle" and "pool_enter pool c s = Inr p" and "weight w"
    and z: "w p None = 0"
  shows "sum_of w (to t p s) = sum_of w s"
proof (rule total_same)
  fix u
  have "mpcs (ps_queue s) t = Outside" using fits_reach [OF assms(1), of t] assms(2) by simp
  then show "w (ps_pc (to t p s) u) (res (to t p s) u) = w (ps_pc s u) (res s u)"
    using assms(2,4) z by (simp add: weight_def)
qed

lemma entered: "pool_enter pool c s = Inr p \<Longrightarrow>
  held p None = {#} \<and> unfinished p None = 0 \<and> uncounted p None = 0 \<and> calling p = 0"
  by (cases c) (auto simp: held_def unfinished_def uncounted_def split: if_splits)

section \<open>What a step does to the weights of its thread\<close>

lemma act_held:
  assumes "act n cf t p s = Some s'" and "fits p (op_of (mpcs (ps_queue s) t))"
    and "\<And>op r. res s t = Some (op, r) \<Longrightarrow> answer_of op r"
    and "is_worker p \<Longrightarrow> p \<noteq> Work_Exit \<Longrightarrow> ps_state s \<noteq> POOL_STATE_TERMINATED"
  shows "mset (map snd (ps_ran s')) + held (ps_pc s' t) (res s' t) = mset (map snd (ps_ran s)) + held p (res s t)"
  using assms
  by (cases p) (auto simp: held_def queue_moves split: if_splits option.splits mpc.splits)

lemma act_unfinished:
  assumes "act n cf t p s = Some s'" and "fits p (op_of (mpcs (ps_queue s) t))"
    and "\<And>op r. res s t = Some (op, r) \<Longrightarrow> answer_of op r"
    and "is_worker p \<Longrightarrow> p \<noteq> Work_Exit \<Longrightarrow> ps_state s \<noteq> POOL_STATE_TERMINATED"
  shows "ps_completed s' = ps_completed s \<and> unfinished (ps_pc s' t) (res s' t) = unfinished p (res s t) \<or>
    ps_completed s' = ps_completed s + 1 \<and> unfinished p (res s t) = Suc (unfinished (ps_pc s' t) (res s' t))"
  using assms
  by (cases p) (auto simp: unfinished_def queue_moves split: if_splits option.splits mpc.splits)

lemma act_uncounted:
  assumes "act n cf t p s = Some s'" and "fits p (op_of (mpcs (ps_queue s) t))"
    and "\<And>op r. res s t = Some (op, r) \<Longrightarrow> answer_of op r"
  shows "ps_submitted s' = ps_submitted s \<and> uncounted (ps_pc s' t) (res s' t) = uncounted p (res s t) \<or>
    ps_submitted s' = ps_submitted s + 1 \<and> uncounted p (res s t) = Suc (uncounted (ps_pc s' t) (res s' t))"
  using assms
  by (cases p) (auto simp: uncounted_def queue_moves split: if_splits option.splits mpc.splits)

lemma calling_after [simp]: "calling (after_pop r) = 0" "calling (after_push r) = 0" "calling (after_size r) = 0"
  by (cases r; simp)+

lemma act_calling:
  assumes "act n cf t p s = Some s'"
  shows "ps_active s' = ps_active s \<and> calling (ps_pc s' t) = calling p \<or>
    ps_active s' = ps_active s + 1 \<and> calling (ps_pc s' t) = Suc (calling p) \<or>
    ps_active s' = ps_active s - 1 \<and> calling p = Suc (calling (ps_pc s' t))"
  using assms
  by (cases p) (auto simp: queue_moves split: if_splits option.splits mpc.splits)

section \<open>What a step does to the accounts\<close>

lemma mset_popped_by: "mset (popped_by (t, op, r)) = got (Some (op, r))"
  and length_pushed_by: "length (pushed_by (t, op, r)) = put (Some (op, r))"
  by (cases r; simp) (cases op; simp)

text \<open>A step inside the queue: what is logged is what the thread now holds.\<close>

lemma mstep_got:
  assumes "mstep queue_monitor t q q'"
  shows "mset (popped (mlog q')) + got (result_of (mpcs q t)) = mset (popped (mlog q)) + got (result_of (mpcs q' t))"
    and "length (pushed (mlog q')) + put (result_of (mpcs q t)) = length (pushed (mlog q)) + put (result_of (mpcs q' t))"
  using mstep_effect [OF assms] mset_popped_by length_pushed_by by (auto simp del: got.simps(2) put.simps(2))

lemma push_calls: "task_queue_push qp f a pr node now = Inr op \<Longrightarrow>
    op = Push node \<lparr>t_func = f, t_arg = a, t_priority = pr, t_submit_time = now\<rparr>"
  "task_queue_push qp f a pr node now = Inl r \<Longrightarrow> r = Q_Int (- 1)"
  by (auto simp: task_queue_push_def split: if_splits)

lemma alive_step: "pstep n t s s' \<Longrightarrow> is_worker (ps_pc s t) \<Longrightarrow> ps_pc s t \<noteq> Work_Exit \<Longrightarrow>
   preach n capacity s \<Longrightarrow> ps_state s \<noteq> POOL_STATE_TERMINATED"
  by (rule not_terminated)

lemma pstep_held:
  assumes r: "preach n capacity s" and st: "pstep n t s s'"
  shows "mset (map snd (ps_ran s')) + held (ps_pc s' t) (res s' t) + mset (popped (plog s)) =
    mset (map snd (ps_ran s)) + held (ps_pc s t) (res s t) + mset (popped (plog s'))"
  using st
proof (cases rule: pstep.cases)
  case (thread cf)
  from act_held [OF thread(2) fits_reach [OF r]] answered(1) [OF r] not_terminated [OF r] act_log [OF thread(2)]
  show ?thesis by auto
next
  case (in_queue q')
  with mstep_got(1) [OF in_queue(3)] show ?thesis by (simp add: held_def ac_simps)
next
  case (push f a pr node now op)
  with fits_reach [OF r, of t] push_calls(1) [OF push(4)] show ?thesis by (auto simp: held_def)
next
  case (no_memory f a pr now x)
  with fits_reach [OF r, of t] push_calls(2) [OF no_memory(4)] show ?thesis by (auto simp: held_def)
next
  case (spurious_wakeup k c)
  then show ?thesis by (simp add: held_def)
qed

lemma pstep_unfinished:
  assumes r: "preach n capacity s" and st: "pstep n t s s'"
  shows "length (popped (plog s')) + unfinished (ps_pc s t) (res s t) = length (popped (plog s)) +
       unfinished (ps_pc s' t) (res s' t) \<and> ps_completed s' = ps_completed s \<or>
    length (popped (plog s')) = length (popped (plog s)) \<and> ps_completed s' = ps_completed s + 1 \<and>
       unfinished (ps_pc s t) (res s t) = Suc (unfinished (ps_pc s' t) (res s' t))"
  using st
proof (cases rule: pstep.cases)
  case (thread cf)
  from act_unfinished [OF thread(2) fits_reach [OF r]] answered(1) [OF r] not_terminated [OF r] act_log [OF thread(2)]
  show ?thesis by auto
next
  case (in_queue q')
  with arg_cong [OF mstep_got(1) [OF in_queue(3)], of size] show ?thesis by (simp add: unfinished_def)
next
  case (push f a pr node now op)
  with fits_reach [OF r, of t] push_calls(1) [OF push(4)] show ?thesis by (auto simp: unfinished_def)
next
  case (no_memory f a pr now x)
  with fits_reach [OF r, of t] push_calls(2) [OF no_memory(4)] show ?thesis by (auto simp: unfinished_def)
next
  case (spurious_wakeup k c)
  then show ?thesis by (simp add: unfinished_def)
qed

lemma pstep_uncounted:
  assumes r: "preach n capacity s" and st: "pstep n t s s'"
  shows "length (pushed (plog s')) + uncounted (ps_pc s t) (res s t) = length (pushed (plog s)) +
       uncounted (ps_pc s' t) (res s' t) \<and> ps_submitted s' = ps_submitted s \<or>
    length (pushed (plog s')) = length (pushed (plog s)) \<and> ps_submitted s' = ps_submitted s + 1 \<and>
       uncounted (ps_pc s t) (res s t) = Suc (uncounted (ps_pc s' t) (res s' t))"
  using st
proof (cases rule: pstep.cases)
  case (thread cf)
  from act_uncounted [OF thread(2) fits_reach [OF r]] answered(1) [OF r] act_log [OF thread(2)]
  show ?thesis by auto
next
  case (in_queue q')
  with mstep_got(2) [OF in_queue(3)] show ?thesis by (simp add: uncounted_def)
next
  case (push f a pr node now op)
  with fits_reach [OF r, of t] push_calls(1) [OF push(4)] show ?thesis by (auto simp: uncounted_def)
next
  case (no_memory f a pr now x)
  with fits_reach [OF r, of t] push_calls(2) [OF no_memory(4)] show ?thesis by (auto simp: uncounted_def)
next
  case (spurious_wakeup k c)
  then show ?thesis by (simp add: uncounted_def)
qed

lemma pstep_calling:
  assumes st: "pstep n t s s'"
  shows "ps_active s' = ps_active s \<and> calling (ps_pc s' t) = calling (ps_pc s t) \<or>
    ps_active s' = ps_active s + 1 \<and> calling (ps_pc s' t) = Suc (calling (ps_pc s t)) \<or>
    ps_active s' = ps_active s - 1 \<and> calling (ps_pc s t) = Suc (calling (ps_pc s' t))"
  using st by (cases rule: pstep.cases) (auto dest: act_calling)

section \<open>The accounts\<close>

text \<open>Each task that has left the queue is held by exactly one worker or has been called.\<close>

lemma tasks_account: "preach n capacity s \<Longrightarrow>
    mset (popped (plog s)) = mset (map snd (ps_ran s)) + sum_of held s"
proof (induction rule: preach.induct)
  case init
  have "sum_of held (init_psys n capacity) = {#}"
    by (rule trans [OF total_same total_zero]) (simp add: init_psys_def init_msys_def held_def)
  then show ?case by (simp add: init_psys_def init_msys_def)
next
  case (step s t s')
  have a: "sum_of held s' + held (ps_pc s t) (res s t) = sum_of held s + held (ps_pc s' t) (res s' t)"
    by (rule sum_step [OF step.hyps]) simp
  have b: "mset (map snd (ps_ran s')) + held (ps_pc s' t) (res s' t) + mset (popped (plog s)) =
    mset (map snd (ps_ran s)) + held (ps_pc s t) (res s t) + mset (popped (plog s'))"
    by (rule pstep_held [OF step.hyps])
  have "(mset (map snd (ps_ran s')) + sum_of held s') + (held (ps_pc s t) (res s t) +
      held (ps_pc s' t) (res s' t) + mset (popped (plog s))) =
    mset (popped (plog s')) + (held (ps_pc s t) (res s t) +
      held (ps_pc s' t) (res s' t) + mset (popped (plog s)))"
    using arg_cong2 [OF a b, of "(+)"] unfolding step.IH by (simp only: ac_simps)
  then show ?case by simp
next
  case (enter s t pool c p)
  have "sum_of held (to t p s) = sum_of held s"
    using sum_enter [OF enter.hyps(1,3,5), of held] entered [OF enter.hyps(5)] by simp
  with enter.IH show ?case by simp
qed

text \<open>
  A counter that lags behind the events it counts by the weights of the threads in between.
\<close>

lemma counter_account:
  fixes w :: "pool_pc \<Rightarrow> (queue_op \<times> queue_res) option \<Rightarrow> nat"
  assumes r: "preach n capacity s" and w: "weight w" "w Work_Loop None = 0"
    and ent: "\<And>pool c s p. pool_enter pool c s = Inr p \<Longrightarrow> w p None = 0"
    and start: "cnt (init_psys n capacity) = (0 :: size_t)" "len (init_psys n capacity) = (0 :: nat)"
    and same: "\<And>t p s. cnt (to t p s) = cnt s" "\<And>t p s. len (to t p s) = len s"
    and step: "\<And>t s s'. preach n capacity s \<Longrightarrow> pstep n t s s' \<Longrightarrow>
      len s' + w (ps_pc s t) (res s t) = len s + w (ps_pc s' t) (res s' t) \<and> cnt s' = cnt s \<or>
      len s' = len s \<and> cnt s' = cnt s + 1 \<and> w (ps_pc s t) (res s t) = Suc (w (ps_pc s' t) (res s' t))"
  shows "\<exists>k. cnt s = word_of_nat k \<and> len s = k + sum_of w s"
  using r
proof (induction rule: preach.induct)
  case init
  have "sum_of w (init_psys n capacity) = 0"
    using w by (intro trans [OF total_same total_zero]) (simp add: init_psys_def init_msys_def weight_def)
  then show ?case using start by (intro exI [of _ 0]) simp
next
  case (step s t s')
  then obtain k where k: "cnt s = word_of_nat k" "len s = k + sum_of w s" by blast
  have a: "sum_of w s' + w (ps_pc s t) (res s t) = sum_of w s + w (ps_pc s' t) (res s' t)"
    by (rule sum_step [OF step.hyps w(1)])
  from assms(9) [OF step.hyps] show ?case
  proof (elim disjE conjE)
    assume "len s' + w (ps_pc s t) (res s t) = len s + w (ps_pc s' t) (res s' t)" "cnt s' = cnt s"
    moreover from this(1) a k(2) have "len s' = k + sum_of w s'" by linarith
    ultimately show ?thesis using k by auto
  next
    assume "len s' = len s" "cnt s' = cnt s + 1"
      "w (ps_pc s t) (res s t) = Suc (w (ps_pc s' t) (res s' t))"
    with a k show ?thesis by (intro exI [of _ "Suc k"]) simp
  qed
next
  case (enter s t pool c p)
  have "sum_of w (to t p s) = sum_of w s"
    by (rule sum_enter [OF enter.hyps(1,3,5) w(1) ent [OF enter.hyps(5)]])
  with enter.IH same show ?case by simp
qed

lemma completed_account: "preach n capacity s \<Longrightarrow>
    \<exists>k. ps_completed s = word_of_nat k \<and> length (popped (plog s)) = k + sum_of unfinished s"
  by (rule counter_account [where cnt = ps_completed and w = unfinished, OF _ _ _ _ _ _ _ _ pstep_unfinished])
    (auto simp: entered init_psys_def init_msys_def unfinished_def dest: entered)

lemma submitted_account: "preach n capacity s \<Longrightarrow>
    \<exists>k. ps_submitted s = word_of_nat k \<and> length (pushed (plog s)) = k + sum_of uncounted s"
  by (rule counter_account [where cnt = ps_submitted and w = uncounted, OF _ _ _ _ _ _ _ _ pstep_uncounted])
    (auto simp: init_psys_def init_msys_def uncounted_def dest: entered)

abbreviation running :: "psys \<Rightarrow> nat" where
  "running s \<equiv> total (\<lambda>t. calling (ps_pc s t))"

lemma running_bound: "preach n capacity s \<Longrightarrow> running s \<le> n"
proof (rule total_bound)
  fix t
  show "calling (ps_pc s t) \<le> 1" by (cases "ps_pc s t") auto
next
  fix t assume "preach n capacity s" "n \<le> t"
  then have "\<not> is_worker (ps_pc s t)" using placed_reach by (simp add: placed_def)
  then show "calling (ps_pc s t) = 0" by (cases "ps_pc s t") auto
qed

lemma active_account: "preach n capacity s \<Longrightarrow> ps_active s = word_of_nat (running s)"
proof (induction rule: preach.induct)
  case init
  have "running (init_psys n capacity) = 0"
    by (rule trans [OF total_same total_zero]) (simp add: init_psys_def)
  then show ?case by (simp add: init_psys_def)
next
  case (step s t s')
  have a: "running s' + calling (ps_pc s t) = running s + calling (ps_pc s' t)"
    by (rule sum_step [OF step.hyps, of "\<lambda>p r. calling p"]) simp
  from pstep_calling [OF step.hyps(2)] show ?case
  proof (elim disjE conjE)
    assume "ps_active s' = ps_active s + 1" "calling (ps_pc s' t) = Suc (calling (ps_pc s t))"
    moreover from this a have "running s' = Suc (running s)" by linarith
    ultimately show ?thesis using step.IH by (simp add: add.commute)
  next
    assume "ps_active s' = ps_active s - 1" "calling (ps_pc s t) = Suc (calling (ps_pc s' t))"
    moreover from this a have "running s = Suc (running s')" by linarith
    ultimately show ?thesis using step.IH by simp
  qed (use a step.IH in simp)
next
  case (enter s t pool c p)
  have "running (to t p s) = running s"
    using sum_enter [OF enter.hyps(1,3,5), of "\<lambda>p r. calling p"] entered [OF enter.hyps(5)] by simp
  with enter.IH show ?case by simp
qed

end
