(* ===== verification/Pool_Wait.thy ===== *)
theory Pool_Wait
  imports Pool_Counts
begin

text \<open>
  Waiting for the pool. While the number of accepted tasks fits \<open>size_t\<close>, the counters grow and
  what a waiter has loaded stays a lower bound; the value of \<open>completed_tasks\<close> that sends a waiter
  to sleep is current unless a broadcast is on its way.
\<close>

section \<open>Counters without overflow\<close>

definition no_overflow :: "psys \<Rightarrow> bool" where
  "no_overflow s \<longleftrightarrow> length (pushed (plog s)) < 2 ^ 64"

lemma total_ge:
  fixes f :: "tid \<Rightarrow> nat"
  shows "finite {t. f t \<noteq> 0} \<Longrightarrow> f t \<le> total f"
  by (cases "f t = 0") (auto simp: total_def intro: member_le_sum)

lemma no_overflow_step: "pstep n t s s' \<Longrightarrow> no_overflow s' \<Longrightarrow> no_overflow s"
  using pstep_log [of n t s s'] by (auto simp: no_overflow_def)

lemma popped_pushed:
  assumes "preach n capacity s"
  shows "length (pushed (plog s)) = length (popped (plog s)) + length (contents (mdata (ps_queue s)))"
  using arg_cong [OF fifo_order [OF queue_reach [OF assms] new_queue_wf(1)], of length] by simp

lemma counter_values:
  assumes r: "preach n capacity s" and o: "no_overflow s"
  shows "unat (ps_submitted s) + sum_of uncounted s = length (pushed (plog s))"
    and "unat (ps_completed s) + sum_of unfinished s + length (contents (mdata (ps_queue s))) =
      length (pushed (plog s))"
proof -
  obtain k where k: "ps_submitted s = word_of_nat k" "length (pushed (plog s)) = k + sum_of uncounted s"
    using submitted_account [OF r] by blast
  then have "unat (ps_submitted s) = k" using o by (auto simp: no_overflow_def intro: unat_of_nat_small)
  with k show "unat (ps_submitted s) + sum_of uncounted s = length (pushed (plog s))" by simp
  obtain j where j: "ps_completed s = word_of_nat j" "length (popped (plog s)) = j + sum_of unfinished s"
    using completed_account [OF r] by blast
  then have "unat (ps_completed s) = j" using o popped_pushed [OF r]
    by (auto simp: no_overflow_def intro: unat_of_nat_small)
  with j popped_pushed [OF r] show "unat (ps_completed s) + sum_of unfinished s +
      length (contents (mdata (ps_queue s))) = length (pushed (plog s))" by simp
qed

lemma inc_no_wrap: "unat (w :: size_t) + 1 \<le> m \<Longrightarrow> m < 2 ^ 64 \<Longrightarrow> w \<le> w + 1"
  using unat_Suc_no_wrap [of w] by (simp add: word_le_nat_alt)

lemma counters_grow:
  assumes r: "preach n capacity s" and st: "pstep n t s s'" and o: "no_overflow s'"
  shows "ps_submitted s \<le> ps_submitted s'" and "ps_completed s \<le> ps_completed s'"
proof -
  have o': "no_overflow s" by (rule no_overflow_step [OF st o])
  have g: "w (ps_pc s t) (res s t) \<le> sum_of w s" if "weight w" for w :: "pool_pc \<Rightarrow> (queue_op \<times> queue_res) option \<Rightarrow> nat"
    by (rule total_ge [OF finite_weight [OF r that]])
  show "ps_submitted s \<le> ps_submitted s'"
    using pstep_uncounted [OF r st]
  proof (elim disjE conjE)
    assume "uncounted (ps_pc s t) (res s t) = Suc (uncounted (ps_pc s' t) (res s' t))"
      and e: "ps_submitted s' = ps_submitted s + 1"
    then have "unat (ps_submitted s) + 1 \<le> length (pushed (plog s))"
      using g [of uncounted] counter_values(1) [OF r o'] by simp
    then show ?thesis unfolding e using o' by (intro inc_no_wrap) (auto simp: no_overflow_def)
  qed simp
  show "ps_completed s \<le> ps_completed s'"
    using pstep_unfinished [OF r st]
  proof (elim disjE conjE)
    assume "unfinished (ps_pc s t) (res s t) = Suc (unfinished (ps_pc s' t) (res s' t))"
      and e: "ps_completed s' = ps_completed s + 1"
    then have "unat (ps_completed s) + 1 \<le> length (pushed (plog s))"
      using g [of unfinished] counter_values(2) [OF r o'] by simp
    then show ?thesis unfolding e using o' by (intro inc_no_wrap) (auto simp: no_overflow_def)
  qed simp
qed

section \<open>What a waiter knows\<close>

definition broadcaster :: "psys \<Rightarrow> bool" where
  "broadcaster s \<longleftrightarrow> (\<exists>w. ps_pc s w = Work_Lock \<or> ps_pc s w = Work_Broadcast)"

definition current :: "psys \<Rightarrow> size_t \<Rightarrow> bool" where
  "current s c \<longleftrightarrow> c = ps_completed s \<or> broadcaster s"

fun wait_ok :: "psys \<Rightarrow> pool_pc \<Rightarrow> bool" where
  "wait_ok s (Wait_Lock k) = (k \<le> ps_submitted s)"
| "wait_ok s (Wait_Test k) = (k \<le> ps_submitted s)"
| "wait_ok s (Wait_Woken k) = (k \<le> ps_submitted s)"
| "wait_ok s (Wait_Completed k c) = (k \<le> ps_submitted s \<and> c \<le> ps_completed s \<and> current s c)"
| "wait_ok s (Wait_Submitted k m) = (k \<le> m \<and> m \<le> ps_submitted s)"
| "wait_ok s (Wait_Block k c) = (k \<le> ps_submitted s \<and> c < ps_submitted s \<and> current s c)"
| "wait_ok s (Wait_Sleep k c) = (k \<le> ps_submitted s \<and> c < ps_submitted s \<and> current s c)"
| "wait_ok s (Wait_Unlock k) = (k \<le> ps_completed s)"
| "wait_ok s (Wait_Return k) = (k \<le> ps_completed s)"
| "wait_ok s p = True"

lemma wait_ok_after [simp]: "wait_ok s (after_pop r)" "wait_ok s (after_push r)" "wait_ok s (after_size r)"
  by (cases r; simp)+

text \<open>The broadcaster only goes away by broadcasting.\<close>

fun is_broadcaster :: "pool_pc \<Rightarrow> bool" where
  "is_broadcaster Work_Lock = True"
| "is_broadcaster Work_Broadcast = True"
| "is_broadcaster p = False"

lemma broadcaster_iff: "broadcaster s \<longleftrightarrow> (\<exists>w. is_broadcaster (ps_pc s w))"
proof -
  have "is_broadcaster p \<longleftrightarrow> p = Work_Lock \<or> p = Work_Broadcast" for p by (cases p) auto
  then show ?thesis by (simp add: broadcaster_def)
qed

lemma is_broadcaster_simps [simp]: "is_broadcaster (wake_waiter p) = is_broadcaster p"
  by (cases p) auto

lemma broadcaster_step:
  assumes st: "pstep n t s s'" and b: "broadcaster s"
  shows "broadcaster s' \<or> ps_pc s t = Work_Broadcast"
proof -
  obtain w where w: "is_broadcaster (ps_pc s w)" using b unfolding broadcaster_iff by blast
  show ?thesis
  proof (cases "w = t")
    case False
    with pstep_others [OF st False] w have "is_broadcaster (ps_pc s' w)" by auto
    then show ?thesis unfolding broadcaster_iff by blast
  next
    case True
    have "is_broadcaster (ps_pc s' t)" if "ps_pc s t = Work_Lock"
      using st that by (cases rule: pstep.cases) (auto simp: queue_moves split: option.splits)
    with w True show ?thesis unfolding broadcaster_iff by (cases "ps_pc s t") auto
  qed
qed

text \<open>The count of completed tasks only changes when the thread is about to broadcast.\<close>

lemma pstep_completed:
  assumes "pstep n t s s'"
  shows "ps_completed s' = ps_completed s \<or> ps_pc s' t = Work_Lock"
proof -
  have "ps_completed s' = ps_completed s \<or> ps_pc s' t = Work_Lock" if "act n cf t p s = Some s'" for cf p
    using that by (cases p) (auto simp: queue_moves split: if_splits option.splits mpc.splits)
  with assms show ?thesis by (cases rule: pstep.cases) auto
qed

lemma pstep_current:
  assumes st: "pstep n t s s'" and c: "current s c"
  shows "current s' c \<or> ps_pc s t = Work_Broadcast"
proof (cases "ps_completed s' = ps_completed s")
  case True
  with c broadcaster_step [OF st] show ?thesis by (auto simp: current_def)
next
  case False
  with pstep_completed [OF st] have "is_broadcaster (ps_pc s' t)" by auto
  then show ?thesis unfolding current_def broadcaster_iff by blast
qed

text \<open>The stepping thread itself, before the change of the rest of the state.\<close>

lemma act_wait_ok:
  assumes "act n cf t p s = Some s'" and "ps_pc s t = p" and "wait_ok s p"
    and "\<And>c. current s c \<Longrightarrow> p \<noteq> Work_Broadcast \<Longrightarrow> current s' c"
    and "ps_completed s \<le> ps_completed s'"
  shows "wait_ok s' (ps_pc s' t)"
  using assms
  by (cases p) (auto simp: queue_moves current_def split: if_splits option.splits mpc.splits)

lemma wait_ok_mono:
  assumes "wait_ok s p" and "ps_submitted s \<le> ps_submitted s'" and "ps_completed s \<le> ps_completed s'"
    and "\<And>c. current s c \<Longrightarrow> current s' c \<or> \<not> (wholding p \<or> (\<exists>k c. p = Wait_Sleep k c))"
  shows "wait_ok s' p"
  using assms by (cases p) auto

text \<open>A sleeper when the broadcaster arrives is woken; nobody else relies on the broadcaster then.\<close>

lemma pstep_wait_ok:
  assumes r: "preach n capacity s" and st: "pstep n t s s'" and o: "no_overflow s'"
    and ok: "\<And>u. wait_ok s (ps_pc s u)"
  shows "wait_ok s' (ps_pc s' u)"
proof -
  note grow = counters_grow [OF r st o]
  show ?thesis
  proof (cases "u = t")
    case True
    have "wait_ok s' (ps_pc s' t)"
      using st
    proof (cases rule: pstep.cases)
      case (thread cf)
      show ?thesis
        by (rule act_wait_ok [OF thread(2) refl ok _ grow(2)]) (use pstep_current [OF st] in blast)
    next
      case (spurious_wakeup k c)
      with ok [of t] show ?thesis by simp
    next
      case (in_queue q')
      with ok [of t] show ?thesis by (cases "ps_pc s t") (auto simp: current_def broadcaster_def)
    qed auto
    with True show ?thesis by simp
  next
    case False
    show ?thesis
    proof (cases "ps_pc s t = Work_Broadcast")
      case False
      have "wait_ok s' (ps_pc s u)"
        by (rule wait_ok_mono [OF ok grow]) (use pstep_current [OF st] False in blast)
      with pstep_others [OF st \<open>u \<noteq> t\<close>] show ?thesis by auto
    next
      case True
      have "\<not> wholding (ps_pc s u)"
        using wait_lock_reach [OF r] True \<open>u \<noteq> t\<close> unfolding wait_lock_inv_def
        by (metis option.inject wholding.simps(1))
      moreover have asleep: "ps_pc s' u = Wait_Woken k" if "ps_pc s u = Wait_Sleep k c" for k c
        using st
      proof (cases rule: pstep.cases)
        case (thread cf)
        with that True \<open>u \<noteq> t\<close> show ?thesis by auto
      next
        case (in_queue q')
        have False using mstep_op_of [OF in_queue(3), of t] fits_reach [OF r, of t] True in_queue(3)
          by (auto elim: mstep.cases)
        then show ?thesis ..
      qed (use True in auto)
      ultimately have ok': "wait_ok s' (ps_pc s u) \<or> (\<exists>k c. ps_pc s u = Wait_Sleep k c)"
        using wait_ok_mono [OF ok [of u] grow] by blast
      show ?thesis
      proof (cases "\<exists>k c. ps_pc s u = Wait_Sleep k c")
        case True
        then obtain k c where p: "ps_pc s u = Wait_Sleep k c" by blast
        from ok [of u] p have "k \<le> ps_submitted s" by simp
        then show ?thesis using asleep [OF p] grow(1) by simp
      next
        case False
        with pstep_others [OF st \<open>u \<noteq> t\<close>] ok' show ?thesis by auto
      qed
    qed
  qed
qed

lemma wait_reach: "preach n capacity s \<Longrightarrow> no_overflow s \<Longrightarrow> wait_ok s (ps_pc s t)"
proof (induction arbitrary: t rule: preach.induct)
  case init
  then show ?case by (simp add: init_psys_def)
next
  case (step s t s' u)
  show ?case
    by (rule pstep_wait_ok [OF step.hyps step.prems])
      (rule step.IH, rule no_overflow_step [OF step.hyps(2) step.prems])
next
  case (enter s u pool c p t)
  have "wait_ok (to u p s) p" using enter.hyps(5) by (cases c) (auto split: if_splits)
  moreover have "wait_ok (to u p s) (ps_pc s t)" if "t \<noteq> u"
  proof (rule wait_ok_mono [OF enter.IH])
    have "broadcaster s \<Longrightarrow> broadcaster (to u p s)"
      using enter.hyps(3) unfolding broadcaster_iff by (metis fun_upd_other is_broadcaster.simps(3)
        psys.select_convs(7) psys.surjective psys.update_convs(7))
    then show "\<And>c. current s c \<Longrightarrow> current (to u p s) c \<or>
        \<not> (wholding (ps_pc s t) \<or> (\<exists>k c. ps_pc s t = Wait_Sleep k c))"
      by (auto simp: current_def)
  qed (use enter.prems in \<open>simp_all add: no_overflow_def\<close>)
  ultimately show ?case by simp
qed

end
