(* ===== verification/Pool_Exec.thy ===== *)
theory Pool_Exec
  imports Pool_Wait Monitor_Exec
begin

text \<open>
  An executable scheduler of the running pool, for the concrete runs of the witnesses: an action is
  a call by a client, or the next step of a thread, inside the queue when it is there. Every state
  it computes is reachable.
\<close>

datatype pool_action =
    Enter pool_call
  | Step
  | Step_Submitted_First
  | Malloc ptr u64

fun pexec_step :: "nat \<Rightarrow> nat \<Rightarrow> bool \<Rightarrow> tid \<Rightarrow> psys \<Rightarrow> psys option" where
  "pexec_step n m completed_first t s =
     (case exec1 queue_monitor m (t, Go) (ps_queue s) of
        Some q' \<Rightarrow> Some (s\<lparr>ps_queue := q'\<rparr>)
      | None \<Rightarrow> act n completed_first t (ps_pc s t) s)"

fun pexec_malloc :: "nat \<Rightarrow> tid \<Rightarrow> ptr \<Rightarrow> u64 \<Rightarrow> pool_pc \<Rightarrow> psys \<Rightarrow> psys option" where
  "pexec_malloc m t node now (Submit_Alloc func arg priority) s =
     (case task_queue_push pool_queue_ptr func arg priority node now of
        Inl r \<Rightarrow> if node = NULL then Some (to t (after_push r) s) else None
      | Inr op \<Rightarrow> (case exec1 queue_monitor m (t, Call op) (ps_queue s) of
          None \<Rightarrow> None
        | Some q' \<Rightarrow> Some (to t Submit_Push (s\<lparr>ps_queue := q'\<rparr>))))"
| "pexec_malloc m t node now p s = None"

fun pexec1 :: "nat \<Rightarrow> nat \<Rightarrow> tid \<times> pool_action \<Rightarrow> psys \<Rightarrow> psys option" where
  "pexec1 n m (t, Enter c) s =
     (if n \<le> t \<and> t < m \<and> ps_pc s t = Idle
      then case pool_enter 1 c s of Inl r \<Rightarrow> None | Inr p \<Rightarrow> Some (to t p s) else None)"
| "pexec1 n m (t, Step) s = pexec_step n m True t s"
| "pexec1 n m (t, Step_Submitted_First) s = pexec_step n m False t s"
| "pexec1 n m (t, Malloc node now) s = pexec_malloc m t node now (ps_pc s t) s"

fun pexec :: "nat \<Rightarrow> nat \<Rightarrow> (tid \<times> pool_action) list \<Rightarrow> psys \<Rightarrow> psys option" where
  "pexec n m [] s = Some s"
| "pexec n m (a # as) s =
     (if ps_freed s then None
      else case pexec1 n m a s of None \<Rightarrow> None | Some s' \<Rightarrow> pexec n m as s')"

section \<open>Soundness\<close>

lemma exec1_call:
  assumes o: "\<forall>t\<ge>n. mpcs s t = Outside" and e: "exec1 M n (t, Call op) s = Some s'"
  shows "can_call M t op s \<and> s' = m_call t op s"
proof -
  have c: "s' = m_call t op s" "mpcs s t = Outside" "claims M op \<inter> used M (mdata s) = {}"
    "list_all (\<lambda>u. case pending_op (mpcs s u) of None \<Rightarrow> True
          | Some op' \<Rightarrow> claims M op \<inter> claims M op' = {}) [0..<n]"
    using e by (auto split: if_splits)
  have "claims M op \<inter> claims M op' = {}" if "pending_op (mpcs s u) = Some op'" for u op'
  proof (cases "u < n")
    case True
    with c(4) that show ?thesis by (auto simp: list_all_iff split: option.splits)
  qed (use o that in auto)
  with c show ?thesis unfolding can_call_def by blast
qed

lemma quiet_outside:
  assumes "preach n capacity s" and "\<forall>t\<ge>m. ps_pc s t = Idle"
  shows "\<forall>t\<ge>m. mpcs (ps_queue s) t = Outside"
proof (intro allI impI)
  fix t assume "m \<le> t"
  then show "mpcs (ps_queue s) t = Outside" using fits_reach [OF assms(1), of t] assms(2) by simp
qed

lemma pexec_step_sound:
  assumes r: "preach n capacity s" and q: "\<forall>t\<ge>m. ps_pc s t = Idle" and f: "\<not> ps_freed s"
    and e: "pexec_step n m cf t s = Some s'"
  shows "pstep n t s s'"
proof (cases "exec1 queue_monitor m (t, Go) (ps_queue s)")
  case None
  with e have "act n cf t (ps_pc s t) s = Some s'" by simp
  with f show ?thesis by (rule pstep.thread)
next
  case (Some q')
  then have "exec_go queue_monitor m t (mpcs (ps_queue s) t) (ps_queue s) = Some q'" by simp
  with quiet_outside [OF r q] have "mstep queue_monitor t (ps_queue s) q'" by (rule exec_go_mstep)
  with f have "pstep n t s (s\<lparr>ps_queue := q'\<rparr>)" by (rule pstep.in_queue)
  with Some e show ?thesis by simp
qed

lemma pexec_malloc_sound:
  assumes r: "preach n capacity s" and q: "\<forall>t\<ge>m. ps_pc s t = Idle" and f: "\<not> ps_freed s"
    and e: "pexec_malloc m t node now (ps_pc s t) s = Some s'"
  shows "pstep n t s s'"
proof -
  obtain func arg priority where p: "ps_pc s t = Submit_Alloc func arg priority"
    using e by (cases "ps_pc s t") simp_all
  show ?thesis
  proof (cases "task_queue_push pool_queue_ptr func arg priority node now")
    case (Inl r)
    with e p have "node = NULL" "s' = to t (after_push r) s" by (auto split: if_splits)
    with f p Inl show ?thesis by (auto intro: pstep.no_memory)
  next
    case (Inr op)
    with e p obtain q' where c: "exec1 queue_monitor m (t, Call op) (ps_queue s) = Some q'"
      and s': "s' = to t Submit_Push (s\<lparr>ps_queue := q'\<rparr>)" by (auto simp del: exec1.simps split: option.splits)
    from exec1_call [OF quiet_outside [OF r q] c] pstep.push [OF f p Inr] s' show ?thesis by simp
  qed
qed

lemma pstep_quiet:
  assumes "pstep n t s s'" and "\<forall>t\<ge>m. ps_pc s t = Idle" and "t < m"
  shows "\<forall>t\<ge>m. ps_pc s' t = Idle"
proof (intro allI impI)
  fix u assume "m \<le> u"
  with assms(2,3) pstep_others [OF assms(1), of u] show "ps_pc s' u = Idle" by auto
qed

lemma pexec1_pstep:
  assumes r: "preach n capacity s" and q: "\<forall>t\<ge>m. ps_pc s t = Idle" and f: "\<not> ps_freed s"
    and e: "pexec1 n m (t, a) s = Some s'" and c: "\<forall>c. a \<noteq> Enter c"
  shows "pstep n t s s' \<and> t < m"
proof -
  have low: "t < m" if "pexec_step n m cf t s = Some s' \<or> pexec_malloc m t node now (ps_pc s t) s = Some s'" for cf node now
  proof (rule ccontr)
    assume "\<not> t < m"
    then have "ps_pc s t = Idle" "mpcs (ps_queue s) t = Outside"
      using q quiet_outside [OF r q] by auto
    with that show False by auto
  qed
  show ?thesis
  proof (cases a)
    case Step
    with e have "pexec_step n m True t s = Some s'" by simp
    with pexec_step_sound [OF r q f this] low show ?thesis by blast
  next
    case Step_Submitted_First
    with e have "pexec_step n m False t s = Some s'" by simp
    with pexec_step_sound [OF r q f this] low show ?thesis by blast
  next
    case (Malloc node now)
    with e have "pexec_malloc m t node now (ps_pc s t) s = Some s'" by simp
    with pexec_malloc_sound [OF r q f this] low show ?thesis by blast
  qed (use c in auto)
qed

lemma pexec1_enter:
  assumes "pexec1 n m (t, Enter c) s = Some s'"
  shows "\<exists>p. n \<le> t \<and> t < m \<and> ps_pc s t = Idle \<and> pool_enter 1 c s = Inr p \<and> s' = to t p s"
  using assms by (auto split: if_splits sum.splits)

lemma pexec1_reach:
  assumes r: "preach n capacity s" and q: "\<forall>t\<ge>m. ps_pc s t = Idle" and f: "\<not> ps_freed s"
    and e: "pexec1 n m (t, a) s = Some s'"
  shows "preach n capacity s' \<and> (\<forall>t\<ge>m. ps_pc s' t = Idle)"
proof (cases "\<exists>c. a = Enter c")
  case True
  with e pexec1_enter obtain c p where "n \<le> t" "t < m" "ps_pc s t = Idle" "pool_enter 1 c s = Inr p" "s' = to t p s"
    by blast
  with preach.enter [OF r _ _ f] q show ?thesis by auto
next
  case False
  with pexec1_pstep [OF r q f e] have "pstep n t s s'" "t < m" by auto
  with preach.step [OF r] pstep_quiet [OF _ q] show ?thesis by blast
qed

lemma pexec_reach_from:
  "preach n capacity s \<Longrightarrow> \<forall>t\<ge>m. ps_pc s t = Idle \<Longrightarrow> pexec n m as s = Some s' \<Longrightarrow> preach n capacity s'"
proof (induction as arbitrary: s)
  case (Cons a as)
  then obtain s1 where f: "\<not> ps_freed s" and e: "pexec1 n m (fst a, snd a) s = Some s1" "pexec n m as s1 = Some s'"
    by (auto split: option.splits if_splits)
  from pexec1_reach [OF Cons.prems(1,2) f e(1)] Cons.IH e(2) show ?case by blast
qed simp

lemma pexec_reach:
  assumes "pexec n m as (init_psys n capacity) = Some s" and "n \<le> m"
  shows "preach n capacity s"
  by (rule pexec_reach_from [OF preach.init _ assms(1)]) (use assms(2) in \<open>simp add: init_psys_def\<close>)

text \<open>Runs: \<open>k\<close> steps of a thread, and a whole call of submit but for its last two steps.\<close>

abbreviation steps :: "tid \<Rightarrow> nat \<Rightarrow> (tid \<times> pool_action) list" where
  "steps t k \<equiv> replicate k (t, Step)"

definition submit_run :: "tid \<Rightarrow> ptr \<Rightarrow> ptr \<Rightarrow> (tid \<times> pool_action) list" where
  "submit_run t node arg =
     [(t, Enter (Submit 4096 arg TASK_PRIORITY_NORMAL)), (t, Step), (t, Malloc node 0)] @ steps t 8"

lemma replicate_numeral: "replicate (numeral k) x = x # replicate (pred_numeral k) x"
  by (simp add: numeral_eq_Suc)

text \<open>The rewriting rules that compute a run.\<close>

lemmas run_defs = init_psys_def init_msys_def new_queue_def zero_queue_def m_call_def m_return_def
  section_defs link_tail_def unlink_head_def Let_def task.defs upt_rec queue_moves
  task_queue_push_def pool_queue_ptr_def comp_def word_le_def submit_run_def replicate_numeral

end
