(* ===== verification/Pool_Tasks.thy ===== *)
theory Pool_Tasks
  imports Pool_Exec
begin

text \<open>
  What becomes of the tasks: each runs once, the counters tell how many, a single worker keeps their
  order, and destroying the pool runs all of them first.
\<close>

section \<open>Workers at rest\<close>

text \<open>A thread that holds no task: a worker that has left or waits inside pop, or any client.\<close>

definition at_rest :: "psys \<Rightarrow> tid \<Rightarrow> bool" where
  "at_rest s t \<longleftrightarrow> ps_pc s t = Work_Exit \<or> ps_pc s t = Work_Pop \<and> res s t = None"

lemma client_holds_nothing:
  assumes r: "preach n capacity s" and c: "\<not> is_worker (ps_pc s t)"
  shows "got (res s t) = {#}" and "held_pc (ps_pc s t) = {#}" and "unfinished_pc (ps_pc s t) = 0"
    and "calling (ps_pc s t) = 0"
proof -
  show "got (res s t) = {#}"
  proof (cases "res s t")
    case (Some x)
    obtain op q where x: "res s t = Some (op, q)" using Some by (cases x) auto
    have "fits (ps_pc s t) (Some op)" using fits_reach [OF r, of t] result_op [OF x] by simp
    with c have "op \<noteq> Pop \<and> op \<noteq> Try_Pop" by (cases "ps_pc s t") auto
    with answered(1) [OF r x] x show ?thesis by (cases op; cases q) auto
  qed simp
  show "held_pc (ps_pc s t) = {#}" "unfinished_pc (ps_pc s t) = 0" "calling (ps_pc s t) = 0"
    using c by (cases "ps_pc s t"; simp)+
qed

lemma resting_holds_nothing:
  assumes r: "preach n capacity s" and w: "\<And>t. t < n \<Longrightarrow> at_rest s t"
  shows "sum_of held s = {#}" and "sum_of unfinished s = 0" and "running s = 0"
proof -
  have *: "got (res s t) = {#} \<and> held_pc (ps_pc s t) = {#} \<and> unfinished_pc (ps_pc s t) = 0 \<and>
      calling (ps_pc s t) = 0" for t
  proof (cases "t < n")
    case True
    from w [OF this] fits_reach [OF r, of t] show ?thesis by (auto simp: at_rest_def)
  next
    case False
    then have "\<not> is_worker (ps_pc s t)" using placed_reach [OF r] by (simp add: placed_def)
    with client_holds_nothing [OF r] show ?thesis by simp
  qed
  show "sum_of held s = {#}" "sum_of unfinished s = 0" "running s = 0"
    by (rule trans [OF total_same total_zero]; simp add: * held_def unfinished_def)+
qed

section \<open>Every task once\<close>

text \<open>
  C1. No task is lost and none runs twice: at any moment, in any interleaving, the tasks
  accepted so far are those whose function has been called, those that a worker has taken and is
  about to call, and those still in the queue, each exactly as often as it was accepted.
\<close>

theorem thread_pool_tasks_once:
  assumes "preach n capacity s"
  shows "mset (pushed (plog s)) = mset (map snd (ps_ran s)) + sum_of held s +
    mset (map task_ref (contents (mdata (ps_queue s))))"
proof -
  have "pushed (plog s) = popped (plog s) @ map task_ref (contents (mdata (ps_queue s)))"
    using fifo_order [OF queue_reach [OF assms] new_queue_wf(1)] by simp
  then show ?thesis using tasks_account [OF assms] by simp
qed

text \<open>A client submits two tasks; the worker has called the first.\<close>

definition two_tasks_run :: "(tid \<times> pool_action) list" where
  "two_tasks_run = submit_run 1 64 7 @ steps 1 2 @ submit_run 1 128 8 @ steps 1 2 @ steps 0 12"

lemma two_tasks_run_result:
  "\<exists>s. pexec 1 2 two_tasks_run (init_psys 1 4) = Some s \<and> pushed (plog s) = [(4096, 7), (4096, 8)] \<and>
     ps_ran s = [(0, 4096, 7)] \<and> ps_pc s 1 = Idle"
  by (simp add: two_tasks_run_def run_defs pushed_def)

lemma thread_pool_tasks_once_witness:
  "\<exists>s. pexec 1 2 two_tasks_run (init_psys 1 4) = Some s \<and> ps_ran s = [(0, 4096, 7)] \<and>
     {#(4096, 7), (4096, 8)#} = {#(4096, 7)#} + sum_of held s + mset (map task_ref (contents (mdata (ps_queue s))))"
proof -
  obtain s where s: "pexec 1 2 two_tasks_run (init_psys 1 4) = Some s"
    "pushed (plog s) = [(4096, 7), (4096, 8)]" "ps_ran s = [(0, 4096, 7)]"
    using two_tasks_run_result by blast
  from thread_pool_tasks_once [OF pexec_reach [OF s(1)]] s show ?thesis by auto
qed

section \<open>The counters\<close>

text \<open>
  C14. The atomic counters are exact: \<open>active_tasks\<close> is the number of workers between the two
  atomic operations around the call, never more than there are workers, and as long as the number
  of accepted tasks fits \<open>size_t\<close>, \<open>completed_tasks\<close> and \<open>submitted_tasks\<close> differ from the accepted
  tasks by those in the queue or in the hands of a worker, and by those accepted but not counted yet.
\<close>

theorem thread_pool_counters:
  assumes "preach n capacity s" and "n < 2 ^ 64" and "no_overflow s" and "pool \<noteq> NULL"
  shows "unat (thread_pool_active pool s) = running s \<and> running s \<le> n \<and>
    unat (thread_pool_completed pool s) + sum_of unfinished s + length (contents (mdata (ps_queue s))) =
      length (pushed (plog s)) \<and>
    unat (ps_submitted s) + sum_of uncounted s = length (pushed (plog s))"
proof -
  have "unat (ps_active s) = running s"
    unfolding active_account [OF assms(1)]
    using running_bound [OF assms(1)] assms(2) by (intro unat_of_nat_small) simp
  with running_bound [OF assms(1)] counter_values [OF assms(1,3)] assms(4) show ?thesis
    by (simp add: thread_pool_active_def thread_pool_completed_def)
qed

lemma thread_pool_counters_witness:
  "\<exists>s. pexec 1 2 two_tasks_run (init_psys 1 4) = Some s \<and> unat (thread_pool_active 1 s) = running s \<and>
     unat (ps_submitted s) + sum_of uncounted s = 2"
proof -
  obtain s where s: "pexec 1 2 two_tasks_run (init_psys 1 4) = Some s"
    "pushed (plog s) = [(4096, 7), (4096, 8)]" using two_tasks_run_result by blast
  then have "no_overflow s" by (simp add: no_overflow_def)
  from thread_pool_counters [OF pexec_reach [OF s(1)] _ this, of 1] s show ?thesis by simp
qed

section \<open>One worker keeps the order\<close>

fun got_list :: "(queue_op \<times> queue_res) option \<Rightarrow> (ptr \<times> ptr) list" where
  "got_list None = []"
| "got_list (Some (op, r)) = (case r of Q_Task f a \<Rightarrow> [(f, a)] | _ \<Rightarrow> [])"

fun held_list :: "pool_pc \<Rightarrow> (ptr \<times> ptr) list" where
  "held_list (Work_Check f a) = [(f, a)]"
| "held_list (Work_Activate f a) = [(f, a)]"
| "held_list (Work_Call f a) = [(f, a)]"
| "held_list p = []"

definition in_hand :: "psys \<Rightarrow> tid \<Rightarrow> (ptr \<times> ptr) list" where
  "in_hand s t = held_list (ps_pc s t) @ got_list (res s t)"

lemma got_list_iff: "got_list r = [] \<longleftrightarrow> got r = {#}"
  by (cases r rule: got_list.cases) (auto split: queue_res.splits)

lemma popped_by_got: "popped_by (t, op, r) = got_list (Some (op, r))"
  by (cases r) auto

lemma act_in_hand:
  assumes "act n cf t p s = Some s'" and "ps_pc s t = p" and "fits p (op_of (mpcs (ps_queue s) t))"
    and "\<And>op r. res s t = Some (op, r) \<Longrightarrow> answer_of op r"
    and "is_worker p \<Longrightarrow> p \<noteq> Work_Exit \<Longrightarrow> ps_state s \<noteq> POOL_STATE_TERMINATED"
  shows "map snd (ps_ran s') @ in_hand s' t = map snd (ps_ran s) @ in_hand s t"
  using assms
  by (cases p) (auto simp: in_hand_def queue_moves split: if_splits option.splits mpc.splits)

lemma act_ran: "act n cf t p s = Some s' \<Longrightarrow> \<not> is_worker p \<Longrightarrow> ps_ran s' = ps_ran s"
  by (cases p) (auto simp: queue_moves split: if_splits option.splits mpc.splits)

lemma in_hand_others:
  assumes "preach n capacity s" and "pstep n t s s'" and "u \<noteq> t" and "u < n"
  shows "in_hand s' u = in_hand s u"
proof -
  have "is_worker (ps_pc s u)" using placed_reach [OF assms(1)] assms(4) by (simp add: placed_def)
  then have "ps_pc s' u = ps_pc s u" using pstep_others [OF assms(2,3)] by auto
  with res_others [OF assms(2,3)] show ?thesis by (simp add: in_hand_def)
qed

lemma single_worker_step:
  assumes r: "preach 1 capacity s" and st: "pstep 1 t s s'"
    and inv: "popped (plog s) = map snd (ps_ran s) @ in_hand s 0"
  shows "popped (plog s') = map snd (ps_ran s') @ in_hand s' 0"
  using st
proof (cases rule: pstep.cases)
  case (thread cf)
  note f = fits_reach [OF r, of t]
  note a = act_in_hand [OF thread(2) refl f answered(1) [OF r] not_terminated [OF r]]
  have "map snd (ps_ran s') @ in_hand s' 0 = map snd (ps_ran s) @ in_hand s 0"
  proof (cases "t = 0")
    case True
    with a show ?thesis by simp
  next
    case False
    then have "\<not> is_worker (ps_pc s t)" using placed_reach [OF r] by (simp add: placed_def)
    with act_ran [OF thread(2)] in_hand_others [OF r st, of 0] False show ?thesis by simp
  qed
  with inv act_log [OF thread(2)] show ?thesis by simp
next
  case (in_queue q')
  from mstep_effect [OF in_queue(3)] show ?thesis
  proof (elim disjE conjE exE)
    assume "mlog q' = plog s" "\<forall>u. result_of (mpcs q' u) = res s u"
    with in_queue inv show ?thesis by (simp add: in_hand_def)
  next
    fix op x
    assume l: "mlog q' = plog s @ [(t, op, x)]" and res: "res s t = None" "result_of (mpcs q' t) = Some (op, x)"
      and o: "\<forall>u. u \<noteq> t \<longrightarrow> result_of (mpcs q' u) = res s u" and op: "op_of (mpcs (ps_queue s) t) = Some op"
    have l': "popped (plog s') = popped (plog s) @ got_list (Some (op, x))"
      using l in_queue popped_by_got by simp
    show ?thesis
    proof (cases "t = 0")
      case True
      have "held_list (ps_pc s 0) = []" using fits_reach [OF r, of t] op True by (cases "ps_pc s t") auto
      with l' inv True res in_queue show ?thesis by (simp add: in_hand_def)
    next
      case False
      then have "\<not> is_worker (ps_pc s' t)"
        using placed_reach [OF preach.step [OF r st]] by (simp add: placed_def)
      from client_holds_nothing(1) [OF preach.step [OF r st] this]
      have "got_list (Some (op, x)) = []" using res in_queue got_list_iff by (simp del: got_list.simps got.simps)
      with l' inv in_hand_others [OF r st, of 0] False in_queue show ?thesis by simp
    qed
  qed
qed (use inv in_hand_others [OF r st, of 0] fits_reach [OF r, of t] in
  \<open>auto simp: in_hand_def task_queue_push_def split: if_splits\<close>)

lemma single_worker: "preach 1 capacity s \<Longrightarrow> popped (plog s) = map snd (ps_ran s) @ in_hand s 0"
proof (induction rule: preach.induct)
  case init
  show ?case by (simp add: init_psys_def init_msys_def in_hand_def)
next
  case (step s t s')
  then show ?case by (rule single_worker_step)
next
  case (enter s t pool c p)
  then show ?case by (simp add: in_hand_def)
qed

text \<open>
  A pool with one worker runs its tasks in the order in which they were accepted, whatever their
  priorities: what has been called is always an initial part of what was accepted.
\<close>

lemma thread_pool_single_worker_order:
  assumes "preach 1 capacity s"
  shows "take (length (ps_ran s)) (pushed (plog s)) = map snd (ps_ran s)"
  using single_worker [OF assms] fifo_order [OF queue_reach [OF assms] new_queue_wf(1)] by simp

lemma thread_pool_single_worker_order_witness:
  "\<exists>s. pexec 1 2 two_tasks_run (init_psys 1 4) = Some s \<and> ps_ran s \<noteq> [] \<and>
     take (length (ps_ran s)) [(4096, 7), (4096, 8)] = map snd (ps_ran s)"
proof -
  obtain s where s: "pexec 1 2 two_tasks_run (init_psys 1 4) = Some s"
    "pushed (plog s) = [(4096, 7), (4096, 8)]" "ps_ran s = [(0, 4096, 7)]"
    using two_tasks_run_result by blast
  from thread_pool_single_worker_order [OF pexec_reach [OF s(1)]] s show ?thesis by auto
qed

section \<open>Destroying\<close>

fun destroying :: "pool_pc \<Rightarrow> bool" where
  "destroying Destroy_Call = True"
| "destroying Destroy_Shutdown = True"
| "destroying (Destroy_Join i) = True"
| "destroying Destroy_Store = True"
| "destroying Destroy_Release = True"
| "destroying p = False"

definition single_destroy :: "nat \<Rightarrow> psys \<Rightarrow> bool" where
  "single_destroy n s \<longleftrightarrow> (\<forall>t u. destroying (ps_pc s t) \<and> destroying (ps_pc s u) \<longrightarrow> t = u) \<and>
     (ps_state s = POOL_STATE_RUNNING \<longrightarrow> (\<forall>t. \<not> destroying (ps_pc s t))) \<and>
     (ps_freed s \<longrightarrow> (\<forall>t. \<not> destroying (ps_pc s t)) \<and> (\<forall>j<n. ps_pc s j = Work_Exit))"

lemma destroying_after [simp]: "\<not> destroying (after_pop r)" "\<not> destroying (after_push r)"
  "\<not> destroying (after_size r)" "destroying (wake_waiter p) = destroying p"
  by (cases r; simp)+ (cases p; simp)

lemma act_destroying:
  assumes "act n cf t p s = Some s'"
  shows "destroying (ps_pc s' t) \<Longrightarrow>
      destroying p \<or> ps_state s = POOL_STATE_RUNNING \<and> ps_state s' \<noteq> POOL_STATE_RUNNING"
    and "ps_state s' = POOL_STATE_RUNNING \<Longrightarrow> ps_state s = POOL_STATE_RUNNING"
    and "ps_freed s' \<Longrightarrow> ps_freed s \<or> p = Destroy_Release \<and> \<not> destroying (ps_pc s' t)"
  using assms
  by (cases p; auto simp: queue_moves split: if_splits option.splits mpc.splits; fail)+

lemma pstep_destroying:
  assumes "pstep n t s s'"
  shows "destroying (ps_pc s' t) \<Longrightarrow>
      destroying (ps_pc s t) \<or> ps_state s = POOL_STATE_RUNNING \<and> ps_state s' \<noteq> POOL_STATE_RUNNING"
    and "ps_state s' = POOL_STATE_RUNNING \<Longrightarrow> ps_state s = POOL_STATE_RUNNING"
    and "ps_freed s' \<Longrightarrow> ps_pc s t = Destroy_Release \<and> \<not> destroying (ps_pc s' t)"
  using assms by (cases rule: pstep.cases; auto dest: act_destroying; fail)+

lemma single_destroyD:
  assumes "single_destroy n s"
  shows "destroying (ps_pc s t) \<Longrightarrow> destroying (ps_pc s u) \<Longrightarrow> t = u"
    and "ps_state s = POOL_STATE_RUNNING \<Longrightarrow> \<not> destroying (ps_pc s t)"
    and "ps_freed s \<Longrightarrow> \<not> destroying (ps_pc s t)"
    and "ps_freed s \<Longrightarrow> j < n \<Longrightarrow> ps_pc s j = Work_Exit"
  using assms unfolding single_destroy_def by blast+

lemma single_destroy_step:
  assumes r: "preach n capacity s" and st: "pstep n t s s'" and inv: "single_destroy n s"
  shows "single_destroy n s'"
proof -
  have o: "destroying (ps_pc s' u) = destroying (ps_pc s u)" if "u \<noteq> t" for u
    using pstep_others [OF st that] by auto
  have one: "v = w" if "destroying (ps_pc s' v)" "destroying (ps_pc s' w)" for v w
    using that o pstep_destroying(1) [OF st] single_destroyD(1,2) [OF inv] by metis
  moreover have "\<not> destroying (ps_pc s' v)" if "ps_state s' = POOL_STATE_RUNNING" for v
    using that o pstep_destroying(1,2) [OF st] single_destroyD(2) [OF inv] by metis
  moreover have "\<not> destroying (ps_pc s' v)" if "ps_freed s'" for v
    using o pstep_destroying(3) [OF st that] single_destroyD(1) [OF inv] by (metis destroying.simps(5))
  moreover have "ps_pc s' j = Work_Exit" if "ps_freed s'" "j < n" for j
    using pstep_destroying(3) [OF st that(1)] destroy_invD(4) [OF destroy_reach [OF r]] that(2)
    by (blast intro: exit_stable [OF st])
  ultimately show ?thesis unfolding single_destroy_def by blast
qed

lemma single_destroy_reach: "preach n capacity s \<Longrightarrow> single_destroy n s"
proof (induction rule: preach.induct)
  case init
  show ?case by (auto simp: single_destroy_def init_psys_def)
next
  case (step s t s')
  then show ?case by (rule single_destroy_step)
next
  case (enter s t pool c p)
  have "\<not> destroying p" using enter.hyps(5) by (cases c) (auto split: if_splits)
  then have "destroying (ps_pc (to t p s) u) \<Longrightarrow> destroying (ps_pc s u)" for u by (simp split: if_splits)
  with enter.hyps(4) single_destroyD [OF enter.IH] show ?case unfolding single_destroy_def
    by (metis psys.select_convs(2,9) psys.surjective psys.update_convs(7))
qed

text \<open>
  C15. The pool is destroyed once: however many threads call destroy, at most one of them goes past the
  compare-and-exchange, and the pool is freed only by it and only after every worker has left.
\<close>

theorem thread_pool_destroy_once:
  assumes "preach n capacity s"
  shows "(destroying (ps_pc s t) \<and> destroying (ps_pc s u) \<longrightarrow> t = u) \<and>
    (ps_pc s t = Destroy_Release \<and> j < n \<longrightarrow> ps_pc s j = Work_Exit) \<and>
    (ps_freed s \<longrightarrow> \<not> destroying (ps_pc s t) \<and> (j < n \<longrightarrow> ps_pc s j = Work_Exit))"
  using single_destroyD [OF single_destroy_reach [OF assms]] destroy_invD(4) [OF destroy_reach [OF assms]]
  by blast

definition destroy_run :: "(tid \<times> pool_action) list" where
  "destroy_run = two_tasks_run @ [(1, Enter Destroy), (2, Enter Destroy)] @ steps 1 10 @ steps 2 2 @
     steps 0 31 @ steps 1 4"

lemma destroy_run_result:
  "\<exists>s. pexec 1 3 destroy_run (init_psys 1 4) = Some s \<and> ps_pc s 1 = Destroy_Release \<and> ps_pc s 2 = Idle \<and>
     pushed (plog s) = [(4096, 7), (4096, 8)]"
  by (simp add: destroy_run_def two_tasks_run_def run_defs pushed_def)

lemma thread_pool_destroy_once_witness:
  "\<exists>s. pexec 1 3 destroy_run (init_psys 1 4) = Some s \<and> ps_pc s 1 = Destroy_Release \<and>
     ps_pc s 0 = Work_Exit \<and> \<not> destroying (ps_pc s 2)"
proof -
  obtain s where s: "pexec 1 3 destroy_run (init_psys 1 4) = Some s" "ps_pc s 1 = Destroy_Release"
    using destroy_run_result by blast
  from thread_pool_destroy_once [OF pexec_reach [OF s(1)], of 1 1 0]
    thread_pool_destroy_once [OF pexec_reach [OF s(1)], of 1 2 0] s show ?thesis by auto
qed

text \<open>
  C6. Destroying a pool with workers drains it: when the workers have been joined, and up to the
  release of the memory, every worker has left its loop, the queue is empty and every task ever
  accepted has been called and has returned, also the tasks that were still queued when destroy was
  called. The counters say so, and what is then released is everything the pool consists of.
\<close>

theorem thread_pool_destroy_drains:
  assumes "preach n capacity s" and "0 < n" and "ps_pc s t = Destroy_Store \<or> ps_pc s t = Destroy_Release"
  shows "(\<forall>j<n. ps_pc s j = Work_Exit) \<and> contents (mdata (ps_queue s)) = [] \<and>
    mset (map snd (ps_ran s)) = mset (pushed (plog s)) \<and> ps_active s = 0 \<and>
    ps_completed s = word_of_nat (length (pushed (plog s))) \<and>
    (\<exists>q. release_pool (join_workers n (mdata (ps_queue s), pool_resources n)) = Returns (q, {}) ())"
proof -
  note r = assms(1)
  have w: "ps_pc s j = Work_Exit" if "j < n" for j
    using destroy_invD(3,4) [OF destroy_reach [OF r] _ that] assms(3) by blast
  then have rest: "at_rest s j" if "j < n" for j using that by (simp add: at_rest_def)
  note none = resting_holds_nothing [OF r rest]
  from exit_logged [OF r w [OF assms(2)]] shutdown_drains [OF queue_reach [OF r] new_queue_wf(1)]
  have q: "contents (mdata (ps_queue s)) = []" and p: "popped (plog s) = pushed (plog s)" by auto
  moreover have "ps_active s = 0" using active_account [OF r] none(3) by simp
  moreover have "ps_completed s = word_of_nat (length (pushed (plog s)))"
    using completed_account [OF r] none(2) p by auto
  moreover have "\<exists>q. release_pool (join_workers n (mdata (ps_queue s), pool_resources n)) = Returns (q, {}) ()"
    by (rule release_pool_all [OF queue.reach_invariant [OF queue_reach [OF r] new_queue_wf(1)]])
  ultimately show ?thesis using w tasks_account [OF r] none(1) by simp
qed

lemma thread_pool_destroy_drains_witness:
  "\<exists>s. pexec 1 3 destroy_run (init_psys 1 4) = Some s \<and> ps_pc s 1 = Destroy_Release \<and>
     mset (map snd (ps_ran s)) = {#(4096, 7), (4096, 8)#} \<and> ps_completed s = 2"
proof -
  obtain s where s: "pexec 1 3 destroy_run (init_psys 1 4) = Some s" "ps_pc s 1 = Destroy_Release"
    "pushed (plog s) = [(4096, 7), (4096, 8)]" using destroy_run_result by blast
  from thread_pool_destroy_drains [OF pexec_reach [OF s(1)] _ disjI2 [OF s(2)]] s show ?thesis
    by (simp add: numeral_2_eq_2)
qed

end
