(* ===== verification/Pool_Progress.thy ===== *)
theory Pool_Progress
  imports Pool_Tasks
begin

text \<open>
  Waiting for the pool and going on: what \<open>thread_pool_wait\<close> has established when it returns, the
  interleaving in which it returns too early, and that no state of the pool is a deadlock.
\<close>

section \<open>What wait guarantees\<close>

lemma calling_le_unfinished: "calling p \<le> unfinished_pc p"
  by (cases p) auto

lemma nothing_unfinished:
  assumes r: "preach n capacity s" and z: "sum_of unfinished s = 0"
  shows "sum_of held s = {#}" and "running s = 0"
proof -
  have u: "unfinished (ps_pc s t) (res s t) = 0" for t
    using z total_zero_iff [OF finite_weight [OF r, of unfinished]] by simp
  have "held_pc p = {#}" if "unfinished_pc p = 0" for p
    using that by (cases p) auto
  with u have h: "held (ps_pc s t) (res s t) = {#}" for t by (simp add: held_def unfinished_def)
  have c: "calling (ps_pc s t) = 0" for t
    using u [of t] calling_le_unfinished [of "ps_pc s t"] by (simp add: unfinished_def)
  show "sum_of held s = {#}" by (rule trans [OF total_same total_zero]) (rule h)
  show "running s = 0" by (rule trans [OF total_same total_zero]) (rule c)
qed

lemma waited_all_done:
  assumes r: "preach n capacity s" and o: "no_overflow s" and p: "ps_pc s t = Wait_Return k"
    and l: "length (pushed (plog s)) = unat k"
  shows "contents (mdata (ps_queue s)) = [] \<and> mset (map snd (ps_ran s)) = mset (pushed (plog s)) \<and> running s = 0"
proof -
  have k: "k \<le> ps_completed s" using wait_reach [OF r o, of t] p by simp
  then have "unat k \<le> unat (ps_completed s)" by (simp add: word_le_nat_alt)
  then have z: "sum_of unfinished s = 0" and "length (contents (mdata (ps_queue s))) = 0"
    using l counter_values(2) [OF r o] by linarith+
  then have c: "contents (mdata (ps_queue s)) = []" by simp
  then have "pushed (plog s) = popped (plog s)"
    using fifo_order [OF queue_reach [OF r] new_queue_wf(1)] by simp
  with nothing_unfinished [OF r z] c tasks_account [OF r] show ?thesis by simp
qed

text \<open>
  C8. What \<open>thread_pool_wait\<close> guarantees: when it returns, at least as many tasks have completed as
  were counted as submitted when it was called; and when nothing was accepted beyond those, all
  accepted tasks have been called and have returned, the queue is empty and no task is running.
\<close>

theorem thread_pool_wait_returns:
  assumes "preach n capacity s" and "no_overflow s" and "ps_pc s t = Wait_Return k"
  shows "k \<le> ps_completed s \<and> (length (pushed (plog s)) = unat k \<longrightarrow>
    contents (mdata (ps_queue s)) = [] \<and> mset (map snd (ps_ran s)) = mset (pushed (plog s)) \<and> running s = 0)"
  using wait_reach [OF assms(1,2), of t] waited_all_done [OF assms] assms(3) by simp

definition wait_run :: "(tid \<times> pool_action) list" where
  "wait_run = submit_run 1 64 7 @ steps 1 2 @ steps 0 18 @ [(1, Enter Wait)] @ steps 1 4"

lemma wait_run_result:
  "\<exists>s. pexec 1 2 wait_run (init_psys 1 4) = Some s \<and> pushed (plog s) = [(4096, 7)] \<and>
     ps_pc s 1 = Wait_Return 1"
  by (simp add: wait_run_def run_defs pushed_def)
lemma thread_pool_wait_returns_witness:
  "\<exists>s. pexec 1 2 wait_run (init_psys 1 4) = Some s \<and> ps_pc s 1 = Wait_Return 1 \<and>
     contents (mdata (ps_queue s)) = [] \<and> mset (map snd (ps_ran s)) = {#(4096, 7)#}"
proof -
  obtain s where s: "pexec 1 2 wait_run (init_psys 1 4) = Some s" "pushed (plog s) = [(4096, 7)]"
    "ps_pc s 1 = Wait_Return 1" using wait_run_result by blast
  then have "no_overflow s" by (simp add: no_overflow_def)
  from thread_pool_wait_returns [OF pexec_reach [OF s(1)] this s(3)] s show ?thesis by simp
qed

section \<open>Returning too early\<close>

text \<open>
  \<open>submitted_tasks\<close> is incremented after the push. Client 1 has pushed but not counted its task when
  client 2 submits its own; the worker completes the task of client 1, and the two counters are
  equal while the task of client 2 is still in the queue.
\<close>

definition early_return_run :: "(tid \<times> pool_action) list" where
  "early_return_run = submit_run 1 64 7 @ submit_run 2 128 8 @ steps 2 2 @ steps 0 18 @
     [(2, Enter Wait)] @ steps 2 4"

text \<open>
  C25. A client can return from \<open>thread_pool_wait\<close> although a task it submitted itself before,
  with answer 0, is still in the queue and has not been called.
\<close>

theorem thread_pool_wait_early_return:
  "\<exists>s. preach 1 4 s \<and> ps_pc s 2 = Wait_Return 1 \<and>
     (\<exists>node task. (2, Push node task, Q_Int 0) \<in> set (plog s) \<and>
        task_ref task \<in> set (map task_ref (contents (mdata (ps_queue s)))) \<and>
        task_ref task \<notin> set (map snd (ps_ran s)))"
proof -
  have "\<exists>s. pexec 1 3 early_return_run (init_psys 1 4) = Some s \<and> ps_pc s 2 = Wait_Return 1 \<and>
      ps_ran s = [(0, 4096, 7)] \<and> pushed (plog s) = [(4096, 7), (4096, 8)] \<and> popped (plog s) = [(4096, 7)] \<and>
      (\<exists>task. (2, Push 128 task, Q_Int 0) \<in> set (plog s) \<and> task_ref task = (4096, 8))"
    by (simp add: early_return_run_def run_defs pushed_def popped_def task_ref_def)
  then obtain s task where s: "pexec 1 3 early_return_run (init_psys 1 4) = Some s" "ps_pc s 2 = Wait_Return 1"
    "ps_ran s = [(0, 4096, 7)]" "pushed (plog s) = [(4096, 7), (4096, 8)]" "popped (plog s) = [(4096, 7)]"
    "(2, Push 128 task, Q_Int 0) \<in> set (plog s)" "task_ref task = (4096, 8)" by blast
  have r: "preach 1 4 s" by (rule pexec_reach [OF s(1)]) simp
  have "map task_ref (contents (mdata (ps_queue s))) = [(4096, 8)]"
    using fifo_order [OF queue_reach [OF r] new_queue_wf(1)] s(4,5) by simp
  with r s show ?thesis by fastforce
qed

section \<open>Shutdown has been called when joining\<close>

lemma shutdown_logged:
  assumes "mreach queue_monitor q0 q" and "queue_wf q0" and "(t, Shutdown, r) \<in> set (mlog q)"
  shows "q_shutdown (mdata q)"
proof -
  have "(\<exists>t r. (t, Shutdown, r) \<in> set (mlog q)) \<longrightarrow> f_shutdown (queue_abs (mdata q))"
  proof (rule fifo.spec_log_induct [OF assms(1,2), where
        P = "\<lambda>a es. (\<exists>t r. (t, Shutdown, r) \<in> set es) \<longrightarrow> f_shutdown a"])
    fix a es u op r a'
    assume i: "(\<exists>t r. (t :: tid, Shutdown, r :: queue_res) \<in> set es) \<longrightarrow> f_shutdown a" and st: "fifo_step op a = Returns a' r"
    have "f_shutdown a \<or> op = Shutdown \<Longrightarrow> f_shutdown a'"
      using st by (cases op) (auto split: if_splits list.splits)
    with i show "(\<exists>t ra. (t, Shutdown, ra) \<in> set (es @ [(u, op, r)])) \<longrightarrow> f_shutdown a'" by auto
  qed simp
  with assms(3) show ?thesis by auto
qed

lemma act_to_first_join:
  "act n cf t p s = Some s' \<Longrightarrow> ps_pc s' t = Destroy_Join 0 \<Longrightarrow>
     p = Destroy_Shutdown \<and> (\<exists>op r. mpcs (ps_queue s) t = Returning op r)"
  by (cases p) (auto simp: queue_moves split: if_splits option.splits mpc.splits)

lemma join_logged:
  "preach n capacity s \<Longrightarrow> ps_pc s t = Destroy_Join i \<Longrightarrow> \<exists>r. (t, Shutdown, r) \<in> set (plog s)"
proof (induction arbitrary: t i rule: preach.induct)
  case init
  then show ?case by (simp add: init_psys_def split: if_splits)
next
  case (step s u s' t i)
  obtain es where l: "plog s' = plog s @ es" using pstep_log [OF step.hyps(2)] by blast
  have "(\<exists>j. ps_pc s t = Destroy_Join j) \<or> (\<exists>r. res s t = Some (Shutdown, r))"
  proof (rule ccontr)
    assume no: "\<not> ?thesis"
    with pstep_to_join [OF step.hyps(2) step.prems] have i: "i = 0" by blast
    have u: "u = t"
    proof (rule ccontr)
      assume "u \<noteq> t"
      then have "ps_pc s t = Destroy_Join i"
        using pstep_others [OF step.hyps(2), of t] step.prems by auto
      with no show False by blast
    qed
    note st = step.hyps(2) [unfolded u]
    have ne: "ps_pc s' t \<noteq> ps_pc s t" using step.prems no by metis
    have "\<exists>cf. act n cf t (ps_pc s t) s = Some s'"
      using pstep_act [OF st] step.prems ne by auto
    then obtain cf where "act n cf t (ps_pc s t) s = Some s'" by blast
    from act_to_first_join [OF this] step.prems i obtain op r where
      p: "ps_pc s t = Destroy_Shutdown" "mpcs (ps_queue s) t = Returning op r" by auto
    then have "op = Shutdown" using fits_reach [OF step.hyps(1), of t] by simp
    with p(2) no show False by simp
  qed
  with step.IH answered(2) [OF step.hyps(1)] l show ?case by fastforce
next
  case (enter s u pool c p t i)
  have "p \<noteq> Destroy_Join i" using enter.hyps(5) by (cases c) (auto split: if_splits)
  with enter.prems have "ps_pc s t = Destroy_Join i" by (simp split: if_splits)
  with enter.IH show ?case by simp
qed

section \<open>Who can step\<close>

definition asleep :: "psys \<Rightarrow> tid \<Rightarrow> bool" where
  "asleep s t \<longleftrightarrow> (\<exists>op c. mpcs (ps_queue s) t = Asleep op c) \<or> (\<exists>k c. ps_pc s t = Wait_Sleep k c)"

text \<open>
  No thread that is awake can step, but for those of \<open>B\<close>, each of which is inside a task that it
  does not leave.
\<close>

definition stuck :: "tid set \<Rightarrow> nat \<Rightarrow> psys \<Rightarrow> bool" where
  "stuck B n s \<longleftrightarrow> (\<forall>t s'. t \<notin> B \<longrightarrow> pstep n t s s' \<longrightarrow> asleep s t) \<and>
     (\<forall>t \<in> B. \<exists>func arg. ps_pc s t = Work_Running func arg)"

lemma stuck_running: "stuck B n s \<Longrightarrow> t \<in> B \<Longrightarrow> \<exists>func arg. ps_pc s t = Work_Running func arg"
  unfolding stuck_def by blast

lemma stuck_asleep: "stuck B n s \<Longrightarrow> pstep n t s s' \<Longrightarrow> t \<notin> B \<Longrightarrow> asleep s t"
  unfolding stuck_def by blast

lemma stuck_queue:
  assumes r: "preach n capacity s" and f: "\<not> ps_freed s" and st: "stuck B n s"
  shows "mpcs (ps_queue s) t = Outside \<or>
    (\<exists>op c. mpcs (ps_queue s) t = Asleep op c \<and> cs_guard (queue_section op) (mdata (ps_queue s)) = Some c)"
proof -
  have q: "mreach queue_monitor (new_queue capacity) (ps_queue s)" by (rule queue_reach [OF r])
  have no: "\<not> (\<exists>u q'. mstep queue_monitor u (ps_queue s) q' \<and> (\<forall>op c. mpcs (ps_queue s) u \<noteq> Asleep op c))"
  proof
    assume "\<exists>u q'. mstep queue_monitor u (ps_queue s) q' \<and> (\<forall>op c. mpcs (ps_queue s) u \<noteq> Asleep op c)"
    then obtain u q' where u: "mstep queue_monitor u (ps_queue s) q'" "\<forall>op c. mpcs (ps_queue s) u \<noteq> Asleep op c"
      by blast
    have "(\<exists>k c. ps_pc s u = Wait_Sleep k c) \<or> (\<exists>g a. ps_pc s u = Work_Running g a)"
      using stuck_asleep [OF st pstep.in_queue [OF f u(1)]] stuck_running [OF st, of u] u(2)
      unfolding asleep_def by blast
    then have "mpcs (ps_queue s) u = Outside" using fits_reach [OF r, of u] by auto
    with u(1) show False by (auto elim: mstep.cases)
  qed
  have nc: "\<forall>u op. mpcs (ps_queue s) u \<noteq> Crashed op"
    using queue.reach_no_crash [OF q new_queue_wf(1)] by blast
  have ret: "mpcs (ps_queue s) t \<noteq> Returning op x" for op x
  proof
    assume m: "mpcs (ps_queue s) t = Returning op x"
    then have fp: "fits (ps_pc s t) (Some op)" using fits_reach [OF r, of t] by simp
    have "\<exists>s'. act n True t (ps_pc s t) s = Some s'"
      using fp m by (cases "ps_pc s t") (auto simp: queue_return_def)
    moreover have "t \<notin> B" using stuck_running [OF st, of t] fp by auto
    ultimately have "asleep s t" using stuck_asleep [OF st] pstep.thread [OF f] by blast
    with m fp show False by (auto simp: asleep_def)
  qed
  show ?thesis
  proof (cases "\<exists>op c. mpcs (ps_queue s) t = Asleep op c")
    case True
    then obtain op c where a: "mpcs (ps_queue s) t = Asleep op c" by blast
    have "cs_guard (queue_section op) (mdata (ps_queue s)) = Some c"
    proof (rule ccontr)
      assume "\<not> ?thesis"
      then have "cs_guard (sect queue_monitor op) (mdata (ps_queue s)) \<noteq> Some c" by simp
      from queue.sleeper_progress [OF q new_queue_wf(1) a this] no show False by blast
    qed
    with a show ?thesis by blast
  next
    case False
    then have "mpcs (ps_queue s) t = Outside"
      using some_thread_moves [OF q _ _ _ nc, of t] ret no by blast
    then show ?thesis ..
  qed
qed

text \<open>Program counters at which a thread that is outside of the queue can always go on.\<close>

fun blockable :: "pool_pc \<Rightarrow> bool" where
  "blockable Idle = True"
| "blockable Work_Pop = True"
| "blockable Work_Lock = True"
| "blockable Work_Exit = True"
| "blockable Submit_Push = True"
| "blockable Pending_Size = True"
| "blockable (Wait_Lock k) = True"
| "blockable (Wait_Sleep k c) = True"
| "blockable (Wait_Woken k) = True"
| "blockable Destroy_Shutdown = True"
| "blockable (Destroy_Join i) = True"
| "blockable p = False"

lemma stuck_blockable:
  assumes r: "preach n capacity s" and f: "\<not> ps_freed s" and st: "stuck B n s" and t: "t \<notin> B"
  shows "blockable (ps_pc s t)"
proof (rule ccontr)
  assume b: "\<not> blockable (ps_pc s t)"
  have "mpcs (ps_queue s) t = Outside" using fits_reach [OF r, of t] b by (cases "ps_pc s t") auto
  moreover have "\<nexists>k c. ps_pc s t = Wait_Sleep k c" using b by auto
  ultimately have na: "\<not> asleep s t" by (simp add: asleep_def)
  have "(\<exists>s'. act n True t (ps_pc s t) s = Some s') \<or> (\<exists>f a p. ps_pc s t = Submit_Alloc f a p)"
    using b by (cases "ps_pc s t") (auto simp: queue_call_def)
  then show False
  proof
    assume "\<exists>s'. act n True t (ps_pc s t) s = Some s'"
    with stuck_asleep [OF st _ t] na pstep.thread [OF f] show False by blast
  next
    assume "\<exists>f a p. ps_pc s t = Submit_Alloc f a p"
    then obtain func arg pr where p: "ps_pc s t = Submit_Alloc func arg pr" by blast
    have "task_queue_push pool_queue_ptr func arg pr NULL 0 = Inl (Q_Int (- 1))"
      by (simp add: task_queue_push_def)
    from stuck_asleep [OF st pstep.no_memory [OF f p this] t] na show False by blast
  qed
qed

lemma wholding_not_blockable: "wholding p \<Longrightarrow> \<not> blockable p"
  by (cases p) auto

lemma stuck_wait_lock:
  assumes r: "preach n capacity s" and f: "\<not> ps_freed s" and st: "stuck B n s"
  shows "ps_wait_lock s = None" and "ps_pc s t \<noteq> Work_Lock" and "ps_pc s t \<noteq> Wait_Lock k"
    and "ps_pc s t \<noteq> Wait_Woken k"
proof -
  show l: "ps_wait_lock s = None"
  proof (rule ccontr)
    assume "ps_wait_lock s \<noteq> None"
    then obtain h where "ps_wait_lock s = Some h" by blast
    then have "wholding (ps_pc s h)" using wait_lock_reach [OF r] by (simp add: wait_lock_inv_def)
    moreover from this have "h \<notin> B" using stuck_running [OF st, of h] by auto
    ultimately show False using stuck_blockable [OF r f st, of h] wholding_not_blockable by blast
  qed
  have no: False if p: "ps_pc s t = Work_Lock \<or> (\<exists>k. ps_pc s t = Wait_Lock k \<or> ps_pc s t = Wait_Woken k)"
  proof -
    have "mpcs (ps_queue s) t = Outside" using p fits_reach [OF r, of t] by auto
    with p have "\<not> asleep s t" by (auto simp: asleep_def)
    moreover have "\<exists>s'. act n True t (ps_pc s t) s = Some s'"
      using p l by (auto simp: take_wait_lock_def)
    moreover have "t \<notin> B" using p stuck_running [OF st, of t] by auto
    ultimately show False using stuck_asleep [OF st] pstep.thread [OF f] by blast
  qed
  then show "ps_pc s t \<noteq> Work_Lock" "ps_pc s t \<noteq> Wait_Lock k" "ps_pc s t \<noteq> Wait_Woken k" by blast+
qed


lemma stuck_positions:
  assumes r: "preach n capacity s" and f: "\<not> ps_freed s" and st: "stuck B n s" and t: "t \<notin> B"
  shows "ps_pc s t = Idle \<or> ps_pc s t = Work_Exit \<or> (\<exists>k c. ps_pc s t = Wait_Sleep k c) \<or>
    (\<exists>i. ps_pc s t = Destroy_Join i \<and> i < n \<and> ps_pc s i \<noteq> Work_Exit) \<or>
    (ps_pc s t = Work_Pop \<and> mpcs (ps_queue s) t = Asleep Pop Not_Empty \<and>
      q_count (mdata (ps_queue s)) = 0 \<and> \<not> q_shutdown (mdata (ps_queue s))) \<or>
    (ps_pc s t = Submit_Push \<and> q_count (mdata (ps_queue s)) \<noteq> 0 \<and> \<not> q_shutdown (mdata (ps_queue s)))"
proof -
  note q = stuck_queue [OF r f st, of t] and b = stuck_blockable [OF r f st t]
    and w = stuck_wait_lock(2-4) [OF r f st, of t] and ft = fits_reach [OF r, of t]
  have join: "i < n \<and> ps_pc s i \<noteq> Work_Exit" if p: "ps_pc s t = Destroy_Join i" for i
  proof (rule ccontr)
    assume "\<not> ?thesis"
    then have "\<exists>s'. act n True t (ps_pc s t) s = Some s'" using p by auto
    moreover have "\<not> asleep s t" using p ft by (simp add: asleep_def)
    ultimately show False using stuck_asleep [OF st _ t] pstep.thread [OF f] by blast
  qed
  show ?thesis
    using b q w ft join
    by (cases "ps_pc s t") (auto simp: section_defs word_gt_0 split: if_splits)
qed

text \<open>
  When no thread that is awake can step, the queue is empty, the workers sleep in pop or have left,
  and no client is inside.
\<close>

lemma stuck_at_rest:
  assumes r: "preach n capacity s" and f: "\<not> ps_freed s" and st: "stuck {} n s" and n: "0 < n"
  shows "contents (mdata (ps_queue s)) = []" and "j < n \<Longrightarrow> at_rest s j"
    and "q_shutdown (mdata (ps_queue s)) \<Longrightarrow> j < n \<Longrightarrow> ps_pc s j = Work_Exit"
proof -
  let ?q = "mdata (ps_queue s)"
  have at: "ps_pc s j = Work_Exit \<or> ps_pc s j = Work_Pop \<and> mpcs (ps_queue s) j = Asleep Pop Not_Empty \<and>
      q_count ?q = 0 \<and> \<not> q_shutdown ?q" if "j < n" for j
  proof -
    have "is_worker (ps_pc s j)" using placed_reach [OF r] that by (simp add: placed_def)
    with stuck_positions [where B = "{}", OF r f st, of j, simplified] show ?thesis by auto
  qed
  show "at_rest s j" if "j < n" using at [OF that] by (auto simp: at_rest_def)
  show "ps_pc s j = Work_Exit" if "q_shutdown ?q" "j < n" using at [OF that(2)] that(1) by blast
  have wf: "queue_wf ?q" by (rule queue.reach_invariant [OF queue_reach [OF r] new_queue_wf(1)])
  have "contents ?q = []" if "ps_pc s j = Work_Exit" for j
    using exit_logged [OF r that] shutdown_drains [OF queue_reach [OF r] new_queue_wf(1)] by blast
  then show "contents ?q = []" using at [OF n] contents_empty [OF wf] by blast
qed

lemma stuck_clients_idle:
  assumes r: "preach n capacity s" and f: "\<not> ps_freed s" and st: "stuck {} n s" and n: "0 < n"
    and o: "no_overflow s" and t: "n \<le> t"
  shows "ps_pc s t = Idle"
proof (rule ccontr)
  assume p: "ps_pc s t \<noteq> Idle"
  let ?q = "mdata (ps_queue s)"
  note empty = stuck_at_rest(1) [OF r f st n]
  note none = resting_holds_nothing [OF r stuck_at_rest(2) [OF r f st n]]
  note pos = stuck_positions [where B = "{}", OF r f st, of t, simplified]
  have "q_count ?q = 0"
    using contents_empty [OF queue.reach_invariant [OF queue_reach [OF r] new_queue_wf(1)]] empty by simp
  moreover have "ps_pc s t \<noteq> Destroy_Join i" for i
  proof
    assume j: "ps_pc s t = Destroy_Join i"
    then have "q_shutdown ?q"
      using join_logged [OF r j] shutdown_logged [OF queue_reach [OF r] new_queue_wf(1)] by blast
    with stuck_at_rest(3) [OF r f st n] pos j show False by auto
  qed
  moreover have "\<not> is_worker (ps_pc s t)" using placed_reach [OF r] t by (simp add: placed_def)
  ultimately obtain k c where w: "ps_pc s t = Wait_Sleep k c" using pos p by auto
  have "ps_pc s v \<noteq> Work_Broadcast" for v using stuck_blockable [OF r f st, of v] by auto
  then have "\<not> broadcaster s" using stuck_wait_lock(2) [OF r f st] by (simp add: broadcaster_def)
  then have "ps_completed s < ps_submitted s"
    using wait_reach [OF r o, of t] w by (auto simp: current_def)
  with counter_values [OF r o] none(2) empty show False by (simp add: word_less_nat_alt)
qed

lemma stuck_all_done:
  assumes r: "preach n capacity s" and f: "\<not> ps_freed s" and st: "stuck {} n s" and n: "0 < n" and o: "no_overflow s"
  shows "(\<forall>t\<ge>n. ps_pc s t = Idle) \<and> contents (mdata (ps_queue s)) = [] \<and>
    mset (map snd (ps_ran s)) = mset (pushed (plog s))"
proof -
  note rest = stuck_at_rest [OF r f st n]
  have "pushed (plog s) = popped (plog s)"
    using fifo_order [OF queue_reach [OF r] new_queue_wf(1)] rest(1) by simp
  moreover have "sum_of held s = {#}" by (rule resting_holds_nothing(1) [OF r rest(2)])
  ultimately have "mset (map snd (ps_ran s)) = mset (pushed (plog s))" using tasks_account [OF r] by simp
  with rest(1) stuck_clients_idle [OF r f st n o] show ?thesis by blast
qed

section \<open>Destroying while a client is inside\<close>

lemma after_not_submit [simp]: "after_pop x \<noteq> Submit_Return r" "after_size x \<noteq> Submit_Return r"
  "after_pop x \<noteq> Submit_Count" "after_size x \<noteq> Submit_Count"
  by (cases x; simp)+

lemma act_to_submit_return:
  "act n cf t p s = Some s' \<Longrightarrow> ps_pc s' t = Submit_Return r \<Longrightarrow>
     r = - 2 \<and> ps_state s' \<noteq> POOL_STATE_RUNNING \<or> p = Submit_Count \<and> r = 0 \<or>
     p = Submit_Push \<and> (\<exists>op x. res s t = Some (op, x) \<and> after_push x = Submit_Return r)"
  by (cases p) (auto simp: queue_moves split: if_splits option.splits mpc.splits)

lemma act_to_submit_count:
  "act n cf t p s = Some s' \<Longrightarrow> ps_pc s' t = Submit_Count \<Longrightarrow>
     p = Submit_Push \<and> (\<exists>op x. res s t = Some (op, x) \<and> after_push x = Submit_Count)"
  by (cases p) (auto simp: queue_moves split: if_splits option.splits mpc.splits)

lemma after_push_count: "after_push x = Submit_Count \<longleftrightarrow> x = Q_Int 0"
  and after_push_return: "answer_of (Push a k) x \<Longrightarrow> after_push x = Submit_Return r \<Longrightarrow> r = - 1"
  by (cases x; auto split: if_splits)+

text \<open>The answers of submit.\<close>

definition submit_answer :: "psys \<Rightarrow> tid \<Rightarrow> pool_pc \<Rightarrow> bool" where
  "submit_answer s t p \<longleftrightarrow>
     (\<forall>r. p = Submit_Return r \<longrightarrow> r = - 1 \<or> r = - 2 \<and> ps_state s \<noteq> POOL_STATE_RUNNING \<or>
        r = 0 \<and> (\<exists>a k. (t, Push a k, Q_Int 0) \<in> set (plog s))) \<and>
     (p = Submit_Count \<longrightarrow> (\<exists>a k. (t, Push a k, Q_Int 0) \<in> set (plog s)))"

lemma submit_answer_cong:
  assumes "submit_answer s t p" and "plog s' = plog s @ es"
    and "ps_state s' = POOL_STATE_RUNNING \<Longrightarrow> ps_state s = POOL_STATE_RUNNING"
  shows "submit_answer s' t p"
  using assms unfolding submit_answer_def by auto

lemma act_submit_answer:
  assumes r: "preach n capacity s" and a: "act n cf t (ps_pc s t) s = Some s'"
    and ok: "submit_answer s t (ps_pc s t)"
  shows "submit_answer s' t (ps_pc s' t)"
proof -
  note l = act_log [OF a]
  have pushed: "\<exists>b k. op = Push b k \<and> (t, Push b k, x) \<in> set (plog s) \<and> answer_of (Push b k) x"
    if "res s t = Some (op, x)" "ps_pc s t = Submit_Push" for op x
    using answered [OF r that(1)] fits_reach [OF r, of t] result_op [OF that(1)] that(2) by auto
  show ?thesis
    unfolding submit_answer_def
  proof (intro conjI allI impI)
    fix x assume "ps_pc s' t = Submit_Return x"
    from act_to_submit_return [OF a this] ok pushed l after_push_return
    show "x = - 1 \<or> x = - 2 \<and> ps_state s' \<noteq> POOL_STATE_RUNNING \<or>
        x = 0 \<and> (\<exists>a k. (t, Push a k, Q_Int 0) \<in> set (plog s'))"
      unfolding submit_answer_def by metis
  next
    assume "ps_pc s' t = Submit_Count"
    from act_to_submit_count [OF a this] pushed l show "\<exists>a k. (t, Push a k, Q_Int 0) \<in> set (plog s')"
      by (metis after_push_count)
  qed
qed

lemma submit_answer_reach: "preach n capacity s \<Longrightarrow> submit_answer s t (ps_pc s t)"
proof (induction arbitrary: t rule: preach.induct)
  case init
  then show ?case by (simp add: submit_answer_def init_psys_def)
next
  case (step s u s' t)
  obtain es where l: "plog s' = plog s @ es" using pstep_log [OF step.hyps(2)] by blast
  note keep = submit_answer_cong [OF _ l pstep_destroying(2) [OF step.hyps(2)]]
  show ?case
  proof (cases "u = t")
    case False
    then have "t \<noteq> u" by simp
    from pstep_others [OF step.hyps(2) this] show ?thesis
    proof (elim disjE exE conjE)
      assume "ps_pc s' t = ps_pc s t"
      with keep [OF step.IH [of t]] show ?thesis by simp
    qed (simp add: submit_answer_def)
  next
    case True
    from step.hyps(2) show ?thesis unfolding True
    proof (cases rule: pstep.cases)
      case (thread cf)
      from act_submit_answer [OF step.hyps(1) thread(2) step.IH] show ?thesis by simp
    next
      case (in_queue q')
      with keep [OF step.IH [of t]] show ?thesis by simp
    next
      case (no_memory f a pr now x)
      from push_calls(2) [OF no_memory(4)] no_memory show ?thesis by (simp add: submit_answer_def)
    qed (simp_all add: submit_answer_def)
  qed
next
  case (enter s u pool c p t)
  have p: "p \<noteq> Submit_Return x" "p \<noteq> Submit_Count" for x
    using enter.hyps(5) by (cases c; auto split: if_splits)+
  from enter.IH [of t] p show ?case by (simp add: submit_answer_def)
qed

lemma submit_run_result:
  "\<exists>s. pexec 1 2 (submit_run 1 64 7 @ steps 1 1) (init_psys 1 4) = Some s \<and> ps_pc s 1 = Submit_Return 0"
  by (simp add: run_defs)

text \<open>
  Client 1 has seen the pool running when client 2 destroys it: the queue refuses the task, and
  submit answers -1 as if memory had run out. If client 1 is slower still, the pool is freed under it.
\<close>

definition late_submit_run :: "(tid \<times> pool_action) list" where
  "late_submit_run =
     [(1, Enter (Submit 4096 7 TASK_PRIORITY_NORMAL)), (1, Step), (2, Enter Destroy)] @ steps 2 10 @ steps 0 7"

text \<open>
  C27. A submit that overlaps destroy can answer -1 instead of -2, although malloc gave it memory, and
  can be left with a pool that is freed: destroy waits for the workers only.
\<close>

theorem thread_pool_submit_races_destroy:
  "(\<exists>s node task. preach 1 4 s \<and> ps_pc s 1 = Submit_Return (- 1) \<and> (1, Push node task, Q_Int (- 1)) \<in> set (plog s)) \<and>
   (\<exists>s func arg priority. preach 1 4 s \<and> ps_freed s \<and> ps_pc s 1 = Submit_Alloc func arg priority)"
proof
  have "\<exists>s task. pexec 1 3 (late_submit_run @ [(1, Malloc 64 0)] @ steps 1 4) (init_psys 1 4) = Some s \<and>
      ps_pc s 1 = Submit_Return (- 1) \<and> (1, Push 64 task, Q_Int (- 1)) \<in> set (plog s)"
    by (simp add: late_submit_run_def run_defs)
  then show "\<exists>s node task. preach 1 4 s \<and> ps_pc s 1 = Submit_Return (- 1) \<and>
      (1, Push node task, Q_Int (- 1)) \<in> set (plog s)"
    using pexec_reach [where n = 1 and m = 3] by fastforce
  have "\<exists>s func arg priority. pexec 1 3 (late_submit_run @ steps 2 5) (init_psys 1 4) = Some s \<and>
      ps_freed s \<and> ps_pc s 1 = Submit_Alloc func arg priority"
    by (simp add: late_submit_run_def run_defs)
  then show "\<exists>s func arg priority. preach 1 4 s \<and> ps_freed s \<and> ps_pc s 1 = Submit_Alloc func arg priority"
    using pexec_reach [where n = 1 and m = 3] by fastforce
qed

end
