(* ===== verification/Sthread.thy ===== *)
theory Sthread
  imports Semaphore Pool_Progress
begin

text \<open>
  sthread.c: the public interface. Threads are handles on the heap over the threads of the system;
  a mutex, condition variable or semaphore of the user holds a pointer to an object of sync.c that
  init allocates and destroy frees; the pool functions call thread_pool.c and translate its answers.
  The answer of malloc is the argument \<open>block\<close>: NULL or a block that is not live, whose
  content is \<open>garbage\<close>.
\<close>

section \<open>Threads\<close>

record sthread_handle =
  sh_thread :: tid
  sh_detached :: bool

text \<open>What the system knows of a thread that was created and not joined or detached to its end.\<close>

datatype thread_status = Joinable "ptr option" | Detached

record thread_sys =
  ts_handles :: "ptr \<Rightarrow> sthread_handle option"
  ts_threads :: "tid \<Rightarrow> thread_status option"

text \<open>
  pthread_join and pthread_detach: a thread that does not exist or is not joinable makes the call
  undefined; joining oneself fails with EDEADLK; joining waits for the end and delivers the value.
\<close>

definition pthread_join :: "platform \<Rightarrow> tid \<Rightarrow> tid \<Rightarrow> thread_sys \<Rightarrow> (thread_sys, int \<times> ptr option) outcome" where
  "pthread_join p self t s =
     (case ts_threads s t of
        Some (Joinable (Some v)) \<Rightarrow> Returns (s\<lparr>ts_threads := (ts_threads s)(t := None)\<rparr>) (0, Some v)
      | Some (Joinable None) \<Rightarrow> if t = self then Returns s (EDEADLK p, None) else Blocks
      | _ \<Rightarrow> Undefined)"

definition pthread_detach :: "tid \<Rightarrow> thread_sys \<Rightarrow> (thread_sys, int) outcome" where
  "pthread_detach t s =
     (case ts_threads s t of
        Some (Joinable (Some v)) \<Rightarrow> Returns (s\<lparr>ts_threads := (ts_threads s)(t := None)\<rparr>) 0
      | Some (Joinable None) \<Rightarrow> Returns (s\<lparr>ts_threads := (ts_threads s)(t \<mapsto> Detached)\<rparr>) 0
      | _ \<Rightarrow> Undefined)"

text \<open>The thread's function returns \<open>v\<close>.\<close>

definition thread_ends :: "tid \<Rightarrow> ptr \<Rightarrow> thread_sys \<Rightarrow> thread_sys" where
  "thread_ends t v s =
     (case ts_threads s t of
        Some (Joinable None) \<Rightarrow> s\<lparr>ts_threads := (ts_threads s)(t \<mapsto> Joinable (Some v))\<rparr>
      | Some Detached \<Rightarrow> s\<lparr>ts_threads := (ts_threads s)(t := None)\<rparr>
      | _ \<Rightarrow> s)"

text \<open>
  \<open>create_ret\<close> and \<open>new\<close>: the answer of pthread_create and the new thread. The second result of
  create is what is stored in \<open>*thread\<close>, that of join what is stored in \<open>*retval\<close>.
\<close>

definition sthread_create ::
  "int \<Rightarrow> tid \<Rightarrow> ptr \<Rightarrow> ptr \<Rightarrow> ptr \<Rightarrow> thread_sys \<Rightarrow> (thread_sys, int \<times> ptr option) outcome" where
  "sthread_create create_ret new block thread func s =
     (if thread = NULL \<or> func = NULL then Returns s (ERROR_INVALID, None)
      else if block = NULL then Returns s (ERROR_NOMEM, None)
      else
        let s1 = s\<lparr>ts_handles := (ts_handles s)(block \<mapsto> \<lparr>sh_thread = new, sh_detached = False\<rparr>)\<rparr> in
        if create_ret \<noteq> 0
        then Returns (s1\<lparr>ts_handles := (ts_handles s1)(block := None)\<rparr>) (ERROR_SYSTEM, None)
        else Returns (s1\<lparr>ts_threads := (ts_threads s1)(new \<mapsto> Joinable None)\<rparr>) (SUCCESS, Some block))"

definition sthread_join ::
  "platform \<Rightarrow> tid \<Rightarrow> ptr \<Rightarrow> thread_sys \<Rightarrow> (thread_sys, int \<times> ptr option) outcome" where
  "sthread_join p self thread s =
     (if thread = NULL then Returns s (ERROR_INVALID, None)
      else case ts_handles s thread of None \<Rightarrow> Undefined | Some handle \<Rightarrow>
      if sh_detached handle then Returns s (ERROR_INVALID, None)
      else bind_outcome (pthread_join p self (sh_thread handle) s) (\<lambda>s ret.
        let s = s\<lparr>ts_handles := (ts_handles s)(thread := None)\<rparr> in
        if fst ret \<noteq> 0 then Returns s (ERROR_SYSTEM, snd ret) else Returns s (SUCCESS, snd ret)))"

definition sthread_detach :: "ptr \<Rightarrow> thread_sys \<Rightarrow> (thread_sys, int) outcome" where
  "sthread_detach thread s =
     (if thread = NULL then Returns s ERROR_INVALID
      else case ts_handles s thread of None \<Rightarrow> Undefined | Some handle \<Rightarrow>
      bind_outcome (pthread_detach (sh_thread handle) s) (\<lambda>s ret.
        if ret = 0
        then let s = s\<lparr>ts_handles := (ts_handles s)(thread \<mapsto> handle\<lparr>sh_detached := True\<rparr>)\<rparr>
             in Returns (s\<lparr>ts_handles := (ts_handles s)(thread := None)\<rparr>) SUCCESS
        else Returns s ERROR_SYSTEM))"

definition sthread_self :: "tid \<Rightarrow> ptr \<Rightarrow> thread_sys \<Rightarrow> (thread_sys, ptr) outcome" where
  "sthread_self self block s =
     (if block = NULL then Returns s NULL
      else Returns (s\<lparr>ts_handles := (ts_handles s)(block \<mapsto> \<lparr>sh_thread = self, sh_detached = False\<rparr>)\<rparr>) block)"

definition sthread_get_num_cores :: "platform \<Rightarrow> int \<Rightarrow> int \<Rightarrow> int \<Rightarrow> size_t" where
  "sthread_get_num_cores = platform_get_num_cores"

named_theorems sthread_defs \<open>definitions of sthread.c\<close>

lemmas [sthread_defs] = pthread_join_def pthread_detach_def thread_ends_def sthread_create_def
  sthread_join_def sthread_detach_def sthread_self_def

text \<open>Everything a program can do with threads, in any order.\<close>

inductive treach :: "platform \<Rightarrow> thread_sys \<Rightarrow> bool" for p where
  start: "treach p \<lparr>ts_handles = Map.empty, ts_threads = [main \<mapsto> Joinable None]\<rparr>"
| create: "treach p s \<Longrightarrow> ts_handles s block = None \<Longrightarrow> ts_threads s new = None \<Longrightarrow>
    sthread_create ret new block thread func s = Returns s' r \<Longrightarrow> treach p s'"
| join: "treach p s \<Longrightarrow> sthread_join p self thread s = Returns s' r \<Longrightarrow> treach p s'"
| detach: "treach p s \<Longrightarrow> sthread_detach thread s = Returns s' r \<Longrightarrow> treach p s'"
| self: "treach p s \<Longrightarrow> ts_handles s block = None \<Longrightarrow> sthread_self self block s = Returns s' r \<Longrightarrow> treach p s'"
| ends: "treach p s \<Longrightarrow> treach p (thread_ends t v s)"

text \<open>
  Creating a thread and joining it: a failed create changes nothing; after a successful one,
  when the thread's function has returned \<open>v\<close>, any other thread's join returns success and \<open>v\<close>, and
  handle and thread are gone. Before the thread ends, join waits.
\<close>

lemma sthread_create_join:
  assumes "ts_handles s block = None" and "ts_threads s new = None"
    and "sthread_create create_ret new block thread func s = Returns s' (r, out)"
  shows "(r \<noteq> SUCCESS \<longrightarrow> s' = s \<and> out = None) \<and>
    (r = SUCCESS \<longrightarrow> out = Some block \<and> sthread_join p new block s' \<noteq> Blocks \<and>
      (self \<noteq> new \<longrightarrow> sthread_join p self block s' = Blocks) \<and>
      sthread_join p self block (thread_ends new v s') = Returns s (SUCCESS, Some v))"
proof -
  have h: "(ts_handles s)(block := None) = ts_handles s" "(ts_threads s)(new := None) = ts_threads s"
    using assms(1,2) by auto
  show ?thesis
    using assms(3) unfolding sthread_defs Let_def by (auto simp: h split: if_splits)
qed

lemma sthread_create_join_witness:
  "\<exists>s'. sthread_create 0 7 64 8 4096 \<lparr>ts_handles = Map.empty, ts_threads = Map.empty\<rparr> = Returns s' (SUCCESS, Some 64) \<and>
     sthread_join Linux 1 64 (thread_ends 7 99 s') =
       Returns \<lparr>ts_handles = Map.empty, ts_threads = Map.empty\<rparr> (SUCCESS, Some 99)"
proof -
  let ?s = "\<lparr>ts_handles = Map.empty, ts_threads = Map.empty\<rparr>"
  obtain s' where s': "sthread_create 0 7 64 8 4096 ?s = Returns s' (SUCCESS, Some 64)"
    by (simp add: sthread_create_def Let_def)
  from sthread_create_join [OF _ _ s', of Linux 1 99] s' show ?thesis by auto
qed

lemma no_detached_handle: "treach p s \<Longrightarrow> ts_handles s h = Some x \<Longrightarrow> \<not> sh_detached x"
proof (induction arbitrary: h x rule: treach.induct)
  case (create s block new ret thread func s' r)
  then show ?case by (auto simp: sthread_create_def Let_def split: if_splits)
next
  case (join s self thread s' r)
  then show ?case
    by (auto simp: sthread_join_def pthread_join_def Let_def
        split: if_splits option.splits thread_status.splits)
next
  case (detach s thread s' r)
  then show ?case
    by (auto simp: sthread_detach_def pthread_detach_def Let_def
        split: if_splits option.splits thread_status.splits)
next
  case (self s block t s' r)
  then show ?case by (auto simp: sthread_self_def split: if_splits)
next
  case (ends s t v)
  then show ?case by (auto simp: thread_ends_def split: option.splits thread_status.splits)
qed simp



section \<open>Objects behind a pointer\<close>

text \<open>
  The user's structures, by address, with their field \<open>internal\<close>; and the heap of the objects. The
  three init functions, the three destroy functions and the checks of the other operations have the
  same text; the definitions below are that text over the function of sync.c they call.
\<close>

type_synonym 'a objects = "ptr heap \<times> 'a heap"

definition object_init ::
  "(ptr \<Rightarrow> 'a heap \<Rightarrow> ('a heap, int) outcome) \<Rightarrow> 'a \<Rightarrow> ptr \<Rightarrow> ptr \<Rightarrow> 'a objects \<Rightarrow> ('a objects, int) outcome" where
  "object_init init garbage block obj s =
     (if obj = NULL then Returns s ERROR_INVALID
      else if block = NULL then Returns s ERROR_NOMEM
      else bind_outcome (init block ((snd s)(block \<mapsto> garbage))) (\<lambda>h ret.
        if ret \<noteq> 0 then Returns (fst s, h(block := None)) ret
        else case fst s obj of None \<Rightarrow> Undefined
          | Some old \<Rightarrow> Returns ((fst s)(obj \<mapsto> block), h) SUCCESS))"

definition with_internal :: "ptr \<Rightarrow> ptr heap \<Rightarrow> ('s, 'r) outcome \<Rightarrow> (ptr \<Rightarrow> ('s, 'r) outcome) \<Rightarrow> ('s, 'r) outcome" where
  "with_internal obj objs invalid f =
     (if obj = NULL then invalid
      else case objs obj of None \<Rightarrow> Undefined
        | Some internal \<Rightarrow> if internal = NULL then invalid else f internal)"

definition object_destroy ::
  "(ptr \<Rightarrow> 'a heap \<Rightarrow> ('a heap, int) outcome) \<Rightarrow> ptr \<Rightarrow> 'a objects \<Rightarrow> ('a objects, int) outcome" where
  "object_destroy destroy obj s =
     with_internal obj (fst s) (Returns s ERROR_INVALID) (\<lambda>internal.
       bind_outcome (destroy internal (snd s)) (\<lambda>h ret.
         Returns ((fst s)(obj \<mapsto> NULL), h(internal := None)) ret))"

definition object_call ::
  "(ptr \<Rightarrow> 'a heap \<Rightarrow> ('a heap, 'r) outcome) \<Rightarrow> 'r \<Rightarrow> ptr \<Rightarrow> 'a objects \<Rightarrow> ('a objects, 'r) outcome" where
  "object_call f invalid obj s =
     with_internal obj (fst s) (Returns s invalid) (\<lambda>internal.
       bind_outcome (f internal (snd s)) (\<lambda>h ret. Returns (fst s, h) ret))"

subsection \<open>Mutexes\<close>

definition sthread_mutex_init ::
  "platform \<Rightarrow> int \<Rightarrow> sync_mutex \<Rightarrow> ptr \<Rightarrow> ptr \<Rightarrow> sync_mutex objects \<Rightarrow> (sync_mutex objects, int) outcome" where
  "sthread_mutex_init p init_ret = object_init (sync_mutex_init p init_ret)"

definition sthread_mutex_destroy :: "platform \<Rightarrow> ptr \<Rightarrow> sync_mutex objects \<Rightarrow> (sync_mutex objects, int) outcome" where
  "sthread_mutex_destroy p = object_destroy (sync_mutex_destroy p)"

definition sthread_mutex_lock ::
  "platform \<Rightarrow> tid \<Rightarrow> ptr \<Rightarrow> sync_mutex objects \<Rightarrow> (sync_mutex objects, int) outcome" where
  "sthread_mutex_lock p self = object_call (sync_mutex_lock p self) ERROR_INVALID"

definition sthread_mutex_trylock ::
  "platform \<Rightarrow> tid \<Rightarrow> ptr \<Rightarrow> sync_mutex objects \<Rightarrow> (sync_mutex objects, int) outcome" where
  "sthread_mutex_trylock p self = object_call (sync_mutex_trylock p self) ERROR_INVALID"

definition sthread_mutex_unlock ::
  "platform \<Rightarrow> tid \<Rightarrow> ptr \<Rightarrow> sync_mutex objects \<Rightarrow> (sync_mutex objects, int) outcome" where
  "sthread_mutex_unlock p self = object_call (sync_mutex_unlock p self) ERROR_INVALID"

subsection \<open>Condition variables\<close>

definition sthread_cond_init ::
  "platform \<Rightarrow> int \<Rightarrow> sync_cond \<Rightarrow> ptr \<Rightarrow> ptr \<Rightarrow> sync_cond objects \<Rightarrow> (sync_cond objects, int) outcome" where
  "sthread_cond_init p init_ret = object_init (sync_cond_init p init_ret)"

definition sthread_cond_destroy :: "platform \<Rightarrow> ptr \<Rightarrow> sync_cond objects \<Rightarrow> (sync_cond objects, int) outcome" where
  "sthread_cond_destroy p = object_destroy (sync_cond_destroy p)"

text \<open>The waits check both objects first. The result None is: asleep.\<close>

definition cond_wait_call ::
  "(ptr \<Rightarrow> ptr \<Rightarrow> sync_cond heap \<times> sync_mutex heap \<Rightarrow> (sync_cond heap \<times> sync_mutex heap, int option) outcome) \<Rightarrow>
   ptr \<Rightarrow> ptr \<Rightarrow> sync_cond objects \<times> sync_mutex objects \<Rightarrow>
   (sync_cond objects \<times> sync_mutex objects, int option) outcome" where
  "cond_wait_call wait cond mutex s =
     (let invalid = Returns s (Some ERROR_INVALID) in
      with_internal cond (fst (fst s)) invalid (\<lambda>c.
        with_internal mutex (fst (snd s)) invalid (\<lambda>m.
          bind_outcome (wait c m (snd (fst s), snd (snd s))) (\<lambda>h ret.
            Returns ((fst (fst s), fst h), (fst (snd s), snd h)) ret))))"

definition sthread_cond_wait ::
  "platform \<Rightarrow> tid \<Rightarrow> ptr \<Rightarrow> ptr \<Rightarrow> sync_cond objects \<times> sync_mutex objects \<Rightarrow>
   (sync_cond objects \<times> sync_mutex objects, int option) outcome" where
  "sthread_cond_wait p self = cond_wait_call (sync_cond_wait p self)"

definition sthread_cond_timedwait ::
  "platform \<Rightarrow> tid \<Rightarrow> timespec \<Rightarrow> u32 \<Rightarrow> ptr \<Rightarrow> ptr \<Rightarrow> sync_cond objects \<times> sync_mutex objects \<Rightarrow>
   (sync_cond objects \<times> sync_mutex objects, int option) outcome" where
  "sthread_cond_timedwait p self now timeout_ms = cond_wait_call (sync_cond_timedwait p self now timeout_ms)"

definition sthread_cond_signal :: "platform \<Rightarrow> tid \<Rightarrow> ptr \<Rightarrow> sync_cond objects \<Rightarrow> (sync_cond objects, int) outcome" where
  "sthread_cond_signal p w = object_call (sync_cond_signal p w) ERROR_INVALID"

definition sthread_cond_broadcast :: "platform \<Rightarrow> ptr \<Rightarrow> sync_cond objects \<Rightarrow> (sync_cond objects, int) outcome" where
  "sthread_cond_broadcast p = object_call (sync_cond_broadcast p) ERROR_INVALID"

subsection \<open>Semaphores\<close>

text \<open>
  Here each semaphore has its own set of live parts. \<open>on_sem\<close> applies a function of sync.c to
  one of them.
\<close>

type_synonym sem_object = "sync_sem \<times> sem_part set"

definition on_sem ::
  "(ptr \<Rightarrow> sync_sem heap \<times> sem_part set \<Rightarrow> (sync_sem heap \<times> sem_part set, 'r) outcome) \<Rightarrow>
   ptr \<Rightarrow> sem_object heap \<Rightarrow> (sem_object heap, 'r) outcome" where
  "on_sem f sem h =
     (let live = (case h sem of Some x \<Rightarrow> snd x | None \<Rightarrow> {}) in
      bind_outcome (f sem (\<lambda>q. map_option fst (h q), live)) (\<lambda>s r.
        Returns (case fst s sem of None \<Rightarrow> h | Some x \<Rightarrow> h(sem \<mapsto> (x, snd s))) r))"

definition keep_parts ::
  "(sync_sem heap \<Rightarrow> (sync_sem heap, 'r) outcome) \<Rightarrow> sync_sem heap \<times> sem_part set \<Rightarrow>
   (sync_sem heap \<times> sem_part set, 'r) outcome" where
  "keep_parts f s = bind_outcome (f (fst s)) (\<lambda>h r. Returns (h, snd s) r)"

definition sthread_sem_init ::
  "platform \<Rightarrow> int \<Rightarrow> int \<Rightarrow> u32 \<Rightarrow> sem_object \<Rightarrow> ptr \<Rightarrow> ptr \<Rightarrow> sem_object objects \<Rightarrow> (sem_object objects, int) outcome" where
  "sthread_sem_init p lock_ret cond_ret value =
     object_init (on_sem (\<lambda>sem. sync_sem_init p lock_ret cond_ret sem value))"

definition sthread_sem_destroy ::
  "platform \<Rightarrow> int \<Rightarrow> int \<Rightarrow> ptr \<Rightarrow> sem_object objects \<Rightarrow> (sem_object objects, int) outcome" where
  "sthread_sem_destroy p cond_ret lock_ret = object_destroy (on_sem (sync_sem_destroy p cond_ret lock_ret))"

definition sthread_sem_wait :: "ptr \<Rightarrow> sem_object objects \<Rightarrow> (sem_object objects, sem_res) outcome" where
  "sthread_sem_wait = object_call (on_sem (\<lambda>sem. keep_parts (sync_sem_wait sem))) (Code ERROR_INVALID)"

definition sthread_sem_trywait :: "ptr \<Rightarrow> sem_object objects \<Rightarrow> (sem_object objects, sem_res) outcome" where
  "sthread_sem_trywait = object_call (on_sem (\<lambda>sem. keep_parts (sync_sem_trywait sem))) (Code ERROR_INVALID)"

definition sthread_sem_post :: "ptr \<Rightarrow> sem_object objects \<Rightarrow> (sem_object objects, sem_res) outcome" where
  "sthread_sem_post = object_call (on_sem (\<lambda>sem. keep_parts (sync_sem_post sem))) (Code ERROR_INVALID)"

definition sthread_sem_getvalue :: "ptr \<Rightarrow> ptr \<Rightarrow> sem_object objects \<Rightarrow> (sem_object objects, sem_res) outcome" where
  "sthread_sem_getvalue sem value s =
     with_internal sem (fst s) (Returns s (Code ERROR_INVALID)) (\<lambda>internal.
       if value = NULL then Returns s (Code ERROR_INVALID)
       else object_call (on_sem (\<lambda>q. keep_parts (sync_sem_getvalue q value))) (Code ERROR_INVALID) sem s)"

lemmas [sthread_defs] = object_init_def object_destroy_def object_call_def with_internal_def
  sthread_mutex_init_def sthread_mutex_destroy_def sthread_mutex_lock_def sthread_mutex_trylock_def
  sthread_mutex_unlock_def sthread_cond_init_def sthread_cond_destroy_def cond_wait_call_def
  sthread_cond_wait_def sthread_cond_timedwait_def sthread_cond_signal_def sthread_cond_broadcast_def
  sthread_sem_init_def sthread_sem_destroy_def sthread_sem_wait_def sthread_sem_trywait_def
  sthread_sem_post_def sthread_sem_getvalue_def on_sem_def keep_parts_def

section \<open>The contract of the objects\<close>

text \<open>
  What init and destroy of sync.c promise to the wrapper: both write to their own block only, an
  init that returns 0 leaves the object fit for destroy, and destroy of such an object succeeds.
  \<open>raw\<close> holds of what malloc delivers.
\<close>

locale object_contract =
  fixes init :: "ptr \<Rightarrow> 'a heap \<Rightarrow> ('a heap, int) outcome"
    and destroy :: "ptr \<Rightarrow> 'a heap \<Rightarrow> ('a heap, int) outcome"
    and raw :: "'a \<Rightarrow> bool"
    and fit :: "'a \<Rightarrow> bool"
  assumes init_local: "b \<noteq> NULL \<Longrightarrow> h b = Some x \<Longrightarrow> raw x \<Longrightarrow>
      \<exists>y r. init b h = Returns (h(b \<mapsto> y)) r \<and> (r = 0 \<longrightarrow> fit y)"
    and destroy_fit: "b \<noteq> NULL \<Longrightarrow> h b = Some y \<Longrightarrow> fit y \<Longrightarrow> \<exists>z. destroy b h = Returns (h(b \<mapsto> z)) 0"
begin

lemma init_destroy:
  assumes "fst s obj = Some old" and "snd s block = None" and "raw garbage"
    and "object_init init garbage block obj s = Returns s' r"
  shows "(r \<noteq> SUCCESS \<longrightarrow> s' = s) \<and>
    (r = SUCCESS \<longrightarrow> fst s' obj = Some block \<and> block \<noteq> NULL \<and> (\<exists>x. snd s' block = Some x \<and> fit x) \<and>
      object_destroy destroy obj s' = Returns ((fst s)(obj \<mapsto> NULL), snd s) SUCCESS)"
proof (cases "obj = NULL \<or> block = NULL")
  case True
  with assms(4) show ?thesis by (auto simp: object_init_def split: if_splits)
next
  case False
  then have n: "obj \<noteq> NULL" "block \<noteq> NULL" by auto
  let ?h = "(snd s)(block \<mapsto> garbage)"
  obtain y c where i: "init block ?h = Returns (?h(block \<mapsto> y)) c" "c = 0 \<longrightarrow> fit y"
    using init_local [OF n(2) _ assms(3), of ?h] by auto
  have u: "(snd s)(block := None) = snd s" using assms(2) by auto
  show ?thesis
  proof (cases "c = 0")
    case True
    let ?h' = "(snd s)(block \<mapsto> y)"
    from i True n assms(1,4) have s': "s' = ((fst s)(obj \<mapsto> block), ?h')" "r = SUCCESS"
      by (auto simp: object_init_def)
    obtain z where "destroy block ?h' = Returns (?h'(block \<mapsto> z)) 0"
      using destroy_fit [OF n(2), of ?h' y] i(2) True by auto
    with s' n i(2) True u show ?thesis by (simp add: object_destroy_def with_internal_def)
  next
    case False
    with i n assms(4) u show ?thesis by (auto simp: object_init_def)
  qed
qed

end

definition fit_mutex :: "sync_mutex \<Rightarrow> bool" where
  "fit_mutex m \<longleftrightarrow> checked_mutex m \<and> pm_owner (sm_lock m) = None"

definition fit_cond :: "sync_cond \<Rightarrow> bool" where
  "fit_cond c \<longleftrightarrow> sc_initialized c \<and> pc_waiters (sc_cond c) = Map.empty"

definition fit_sem :: "sem_object \<Rightarrow> bool" where
  "fit_sem x \<longleftrightarrow> ss_initialized (fst x) \<and> snd x = {Sem_Cond_Var, Sem_Lock}"

interpretation mutex_api: object_contract "sync_mutex_init p ret" "sync_mutex_destroy p" "\<lambda>_. True" fit_mutex
  by unfold_locales (auto simp: sync_defs pthread_defs fit_mutex_def checked_mutex_def Let_def)

interpretation cond_api: object_contract "sync_cond_init p ret" "sync_cond_destroy p" "\<lambda>_. True" fit_cond
  by unfold_locales (auto simp: sync_defs pthread_defs fit_cond_def Let_def)

interpretation sem_api: object_contract "on_sem (\<lambda>sem. sync_sem_init p lock_ret cond_ret sem value)"
  "on_sem (sync_sem_destroy p 0 0)" "\<lambda>x. snd x = {}" fit_sem
  by unfold_locales (auto simp: on_sem_def sync_sem_init_def sync_sem_destroy_def fit_sem_def Let_def)

text \<open>
  C32. Initialising and destroying the user's objects: for mutexes, condition variables and semaphores
  alike, an init that fails leaves nothing allocated and the user's structure as it was; one that
  succeeds stores a live initialised object, and destroying it frees that and nothing else.
\<close>

theorem sthread_init_destroy:
  assumes "objs obj = Some old" and "ms block = None" and "cs block = None" and "ss block = None"
    and "snd sem_garbage = {}"
  shows "(sthread_mutex_init p ret mutex_garbage block obj (objs, ms) = Returns m' r \<longrightarrow>
      (if r = SUCCESS then sthread_mutex_destroy p obj m' = Returns (objs(obj \<mapsto> NULL), ms) SUCCESS
       else m' = (objs, ms))) \<and>
    (sthread_cond_init p ret cond_garbage block obj (objs, cs) = Returns c' r \<longrightarrow>
      (if r = SUCCESS then sthread_cond_destroy p obj c' = Returns (objs(obj \<mapsto> NULL), cs) SUCCESS
       else c' = (objs, cs))) \<and>
    (sthread_sem_init p ret ret' value sem_garbage block obj (objs, ss) = Returns s' r \<longrightarrow>
      (if r = SUCCESS then sthread_sem_destroy p 0 0 obj s' = Returns (objs(obj \<mapsto> NULL), ss) SUCCESS
       else s' = (objs, ss)))"
  using mutex_api.init_destroy [of "(objs, ms)"] cond_api.init_destroy [of "(objs, cs)"]
    sem_api.init_destroy [of "(objs, ss)"] assms
  unfolding sthread_mutex_init_def sthread_mutex_destroy_def sthread_cond_init_def
    sthread_cond_destroy_def sthread_sem_init_def sthread_sem_destroy_def
  by auto

abbreviation some_mutex :: sync_mutex where
  "some_mutex \<equiv> \<lparr>sm_lock = \<lparr>pm_type = PTHREAD_MUTEX_NORMAL, pm_owner = None\<rparr>, sm_initialized = False\<rparr>"

lemma sthread_init_destroy_witness:
  "\<exists>m'. sthread_mutex_init Linux 0 some_mutex 64 8 ([8 \<mapsto> 5], Map.empty) = Returns m' SUCCESS \<and>
     sthread_mutex_destroy Linux 8 m' = Returns ([8 \<mapsto> NULL], Map.empty) SUCCESS"
proof -
  obtain m' where m': "sthread_mutex_init Linux 0 some_mutex 64 8 ([8 \<mapsto> 5], Map.empty) = Returns m' SUCCESS"
    by (simp add: sthread_mutex_init_def object_init_def sync_defs pthread_defs Let_def)
  from sthread_init_destroy [of "[8 \<mapsto> 5]" 8 5 Map.empty 64 Map.empty Map.empty "(undefined, {})" Linux 0
      some_mutex m' SUCCESS] m' show ?thesis by auto
qed

text \<open>
  C34. Destroying a mutex that is locked returns BUSY but destroys it all the same: its block is freed
  and the user's structure emptied, so that the owner's unlock answers INVALID, and a thread that is
  about to lock through the pointer it has read uses a freed block.
\<close>

theorem sthread_mutex_destroy_busy:
  assumes "obj \<noteq> NULL" and "fst s obj = Some b" and "b \<noteq> NULL" and "snd s b = Some m"
    and "checked_mutex m" and "pm_owner (sm_lock m) = Some t"
  shows "\<exists>s'. sthread_mutex_destroy p obj s = Returns s' ERROR_BUSY \<and> snd s' b = None \<and>
    sthread_mutex_unlock p t obj s' = Returns s' ERROR_INVALID \<and> sync_mutex_lock p u b (snd s') = Undefined"
  using assms
  by (simp add: sthread_mutex_destroy_def sthread_mutex_unlock_def object_destroy_def object_call_def
      with_internal_def sync_defs pthread_defs checked_mutex_def deref_def Let_def)

lemma sthread_mutex_destroy_busy_witness:
  "\<exists>s'. sthread_mutex_destroy Linux 8 ([8 \<mapsto> 64], [64 \<mapsto>
      \<lparr>sm_lock = \<lparr>pm_type = PTHREAD_MUTEX_ERRORCHECK, pm_owner = Some 1\<rparr>, sm_initialized = True\<rparr>]) =
     Returns s' ERROR_BUSY \<and> sthread_mutex_unlock Linux 1 8 s' = Returns s' ERROR_INVALID"
proof -
  let ?m = "\<lparr>sm_lock = \<lparr>pm_type = PTHREAD_MUTEX_ERRORCHECK, pm_owner = Some 1\<rparr>, sm_initialized = True\<rparr>"
  from sthread_mutex_destroy_busy [of 8 "([8 \<mapsto> 64], [64 \<mapsto> ?m])" 64 ?m 1 Linux 2]
  show ?thesis by (auto simp: checked_mutex_def)
qed

section \<open>The pool\<close>

datatype sthread_priority =
    STHREAD_PRIORITY_LOW | STHREAD_PRIORITY_NORMAL | STHREAD_PRIORITY_HIGH | STHREAD_PRIORITY_CRITICAL

primrec sthread_priority_value :: "sthread_priority \<Rightarrow> nat" where
  "sthread_priority_value STHREAD_PRIORITY_LOW = 0"
| "sthread_priority_value STHREAD_PRIORITY_NORMAL = 1"
| "sthread_priority_value STHREAD_PRIORITY_HIGH = 2"
| "sthread_priority_value STHREAD_PRIORITY_CRITICAL = 3"

text \<open>The cast keeps the number.\<close>

fun cast_priority :: "sthread_priority \<Rightarrow> task_priority" where
  "cast_priority STHREAD_PRIORITY_LOW = TASK_PRIORITY_LOW"
| "cast_priority STHREAD_PRIORITY_NORMAL = TASK_PRIORITY_NORMAL"
| "cast_priority STHREAD_PRIORITY_HIGH = TASK_PRIORITY_HIGH"
| "cast_priority STHREAD_PRIORITY_CRITICAL = TASK_PRIORITY_CRITICAL"

lemma cast_priority_value: "priority_value (cast_priority q) = sthread_priority_value q"
  by (cases q) simp_all

record sthread_pool_config =
  cfg_num_threads :: size_t
  cfg_queue_capacity :: size_t
  cfg_stack_size :: size_t
  cfg_enable_priorities :: bool

definition sthread_pool_create :: "create_env \<Rightarrow> size_t \<Rightarrow> ledger \<Rightarrow> (ledger, thread_pool option) outcome" where
  "sthread_pool_create env num_threads = thread_pool_create env num_threads 0"

text \<open>\<open>config\<close> is None for NULL.\<close>

definition sthread_pool_create_with_config ::
  "create_env \<Rightarrow> sthread_pool_config option \<Rightarrow> ledger \<Rightarrow> (ledger, thread_pool option) outcome" where
  "sthread_pool_create_with_config env config st =
     (case config of None \<Rightarrow> Returns st None
      | Some c \<Rightarrow> thread_pool_create env (cfg_num_threads c) (cfg_queue_capacity c) st)"

text \<open>
  The functions that run the machine of Pool_Machine: \<open>Inl\<close> is an answer given at once, \<open>Inr\<close> the
  call of thread_pool.c that follows, whose answer is translated by the \<open>_code\<close> functions.
\<close>

definition sthread_pool_submit_priority ::
  "ptr \<Rightarrow> ptr \<Rightarrow> ptr \<Rightarrow> sthread_priority \<Rightarrow> psys \<Rightarrow> int + pool_pc" where
  "sthread_pool_submit_priority pool func arg priority s =
     (if pool = NULL \<or> func = NULL then Inl ERROR_INVALID
      else pool_enter pool (Submit func arg (cast_priority priority)) s)"

definition sthread_pool_submit :: "ptr \<Rightarrow> ptr \<Rightarrow> ptr \<Rightarrow> psys \<Rightarrow> int + pool_pc" where
  "sthread_pool_submit pool func arg s =
     (if pool = NULL \<or> func = NULL then Inl ERROR_INVALID
      else pool_enter pool (Submit func arg TASK_PRIORITY_NORMAL) s)"

definition submit_code :: "int \<Rightarrow> int" where
  "submit_code ret = (if ret = - 2 then ERROR_SHUTDOWN else if ret = 0 then SUCCESS else ERROR_SYSTEM)"

definition sthread_pool_wait :: "ptr \<Rightarrow> psys \<Rightarrow> int + pool_pc" where
  "sthread_pool_wait pool s = (if pool = NULL then Inl ERROR_INVALID else pool_enter pool Wait s)"

definition wait_code :: "int \<Rightarrow> int" where
  "wait_code ret = (if ret = 0 then SUCCESS else ERROR_SYSTEM)"

definition sthread_pool_destroy :: "ptr \<Rightarrow> psys \<Rightarrow> int + pool_pc" where
  "sthread_pool_destroy pool s = (if pool = NULL then Inl ERROR_INVALID else pool_enter pool Destroy s)"

definition sthread_pool_pending :: "ptr \<Rightarrow> psys \<Rightarrow> int + pool_pc" where
  "sthread_pool_pending pool = pool_enter pool Pending"

definition sthread_pool_active :: "ptr \<Rightarrow> psys \<Rightarrow> size_t" where
  "sthread_pool_active = thread_pool_active"

definition sthread_pool_size :: "ptr \<Rightarrow> thread_pool \<Rightarrow> size_t" where
  "sthread_pool_size = thread_pool_size"



end
