(* ===== verification/Pool_Termination.thy ===== *)
theory Pool_Termination
  imports Pool_Progress
begin

text \<open>
  The pool comes to rest. Between two calls from outside, threads that are awake can only make
  finitely many steps, whatever the scheduler does: a step either does work that is left (first
  component), or delivers a wake-up (second), or moves its thread closer to work or sleep (third).
\<close>

section \<open>The measure\<close>

text \<open>Work left for a thread inside the queue, once it has its answer, and elsewhere.\<close>

fun rank_answer :: "nat \<Rightarrow> pool_pc \<Rightarrow> queue_res \<Rightarrow> nat" where
  "rank_answer n Work_Pop r = (case r of Q_Task f a \<Rightarrow> 20 | _ \<Rightarrow> 1)"
| "rank_answer n Submit_Push r = 10"
| "rank_answer n Pending_Size r = 3"
| "rank_answer n Destroy_Shutdown r = 2 * n + 27"
| "rank_answer n p r = 0"

fun rank_pc :: "nat \<Rightarrow> pool_pc \<Rightarrow> nat" where
  "rank_pc n Idle = 0"
| "rank_pc n Work_Exit = 0"
| "rank_pc n Work_Pop = 3"
| "rank_pc n Work_Loop = 4"
| "rank_pc n Work_Unlock = 11"
| "rank_pc n Work_Broadcast = 12"
| "rank_pc n Work_Lock = 13"
| "rank_pc n Work_Complete = 14"
| "rank_pc n Work_Deactivate = 15"
| "rank_pc n (Work_Running f a) = 16"
| "rank_pc n (Work_Call f a) = 17"
| "rank_pc n (Work_Activate f a) = 18"
| "rank_pc n (Work_Check f a) = 19"
| "rank_pc n (Submit_Load f a q) = 60"
| "rank_pc n (Submit_Alloc f a q) = 50"
| "rank_pc n Submit_Push = 40"
| "rank_pc n Submit_Count = 8"
| "rank_pc n (Submit_Return r) = 5"
| "rank_pc n Pending_Call = 5"
| "rank_pc n Pending_Size = 4"
| "rank_pc n (Pending_Return r) = 2"
| "rank_pc n (Wait_Unlock k) = 5"
| "rank_pc n (Wait_Return k) = 4"
| "rank_pc n Destroy_Cas = 2 * n + 30"
| "rank_pc n Destroy_Call = 2 * n + 29"
| "rank_pc n Destroy_Shutdown = 2 * n + 28"
| "rank_pc n (Destroy_Join i) = 2 * (n - i) + 20"
| "rank_pc n Destroy_Store = 15"
| "rank_pc n Destroy_Release = 14"
| "rank_pc n Destroy_Return = 13"
| "rank_pc n p = 6"

definition rank :: "nat \<Rightarrow> pool_pc \<Rightarrow> (queue_op \<times> queue_res) option \<Rightarrow> nat" where
  "rank n p r = (case r of None \<Rightarrow> rank_pc n p | Some (op, x) \<Rightarrow> rank_answer n p x)"

lemma rank_simps [simp]: "rank n p None = rank_pc n p" "rank n p (Some (op, x)) = rank_answer n p x"
  by (simp_all add: rank_def)

lemma rank_weight [simp]: "weight (rank n)"
  by (auto simp: weight_def rank_def split: option.splits)

definition work_left :: "nat \<Rightarrow> psys \<Rightarrow> nat" where
  "work_left n s = sum_of (rank n) s + 25 * length (contents (mdata (ps_queue s)))"

text \<open>Wake-ups on their way.\<close>

fun undelivered :: "('op, 'c, 'r) mpc \<Rightarrow> nat" where
  "undelivered (Notifying op ns r) = length ns"
| "undelivered p = 0"

definition wakeups_left :: "psys \<Rightarrow> nat" where
  "wakeups_left s = total (\<lambda>t. undelivered (mpcs (ps_queue s) t))"

text \<open>The distance to the next such event, inside the queue and in the loop of wait.\<close>

fun queue_distance :: "('op, 'c, 'r) mpc \<Rightarrow> nat" where
  "queue_distance (Acquire op) = 10"
| "queue_distance (Entered op) = 9"
| "queue_distance (Woken op c) = 9"
| "queue_distance (Testing op) = 8"
| "queue_distance (Acting op) = 7"
| "queue_distance (Notifying op ns r) = 3"
| "queue_distance (Releasing op r) = 2"
| "queue_distance (Returning op r) = 1"
| "queue_distance p = 0"

fun wait_distance :: "pool_pc \<Rightarrow> nat" where
  "wait_distance (Wait_Lock k) = 8"
| "wait_distance (Wait_Woken k) = 8"
| "wait_distance (Wait_Test k) = 7"
| "wait_distance (Wait_Completed k c) = 6"
| "wait_distance (Wait_Submitted k m) = 6"
| "wait_distance (Wait_Block k c) = 5"
| "wait_distance p = 0"

definition distance :: "psys \<Rightarrow> nat" where
  "distance s = total (\<lambda>t. queue_distance (mpcs (ps_queue s) t) + wait_distance (ps_pc s t))"

section \<open>Sums that decrease\<close>

lemma total_decrease:
  fixes f g :: "tid \<Rightarrow> nat"
  assumes "finite {u. f u \<noteq> 0}" and "\<And>u. u \<noteq> t \<Longrightarrow> g u = f u" and "g t < f t"
  shows "total g < total f"
proof -
  have "total g + f t = total f + g t" by (rule total_change [OF assms(1)]) (rule assms(2))
  with assms(3) show ?thesis by simp
qed

lemma finite_busy_sum:
  assumes r: "preach n capacity s" and z: "\<And>t. ps_pc s t = Idle \<Longrightarrow> mpcs (ps_queue s) t = Outside \<Longrightarrow> f t = 0"
  shows "finite {t. f t \<noteq> (0 :: nat)}"
proof (rule finite_subset [OF _ finite_busy [OF r]], rule subsetI)
  fix t assume f: "t \<in> {t. f t \<noteq> 0}"
  show "t \<in> {t. ps_pc s t \<noteq> Idle}"
  proof (rule ccontr)
    assume "t \<notin> {t. ps_pc s t \<noteq> Idle}"
    then have i: "ps_pc s t = Idle" by simp
    have "mpcs (ps_queue s) t = Outside" using fits_reach [OF r, of t] i by simp
    with z [OF i] f show False by simp
  qed
qed

lemma finite_undelivered:
  "preach n capacity s \<Longrightarrow> finite {t. undelivered (mpcs (ps_queue s) t) \<noteq> 0}"
  by (rule finite_busy_sum, assumption) simp

lemma finite_distance:
  "preach n capacity s \<Longrightarrow> finite {t. queue_distance (mpcs (ps_queue s) t) + wait_distance (ps_pc s t) \<noteq> 0}"
  by (rule finite_busy_sum, assumption) simp

section \<open>Steps\<close>

lemma rank_after [simp]: "rank_pc n (after_pop x) < (case x of Q_Task f a \<Rightarrow> 20 | _ \<Rightarrow> 1)"
  "rank_pc n (after_push x) < 10" "rank_pc n (after_size x) < 3"
  by (cases x; simp)+

lemma act_measure:
  assumes "act n cf t p s = Some s'" and "ps_pc s t = p" and "fits p (op_of (mpcs (ps_queue s) t))"
  shows "rank n (ps_pc s' t) (res s' t) < rank n p (res s t) \<or>
    rank n (ps_pc s' t) (res s' t) = rank n p (res s t) \<and> wait_distance (ps_pc s' t) < wait_distance p \<and>
      ps_queue s' = ps_queue s \<and> (\<forall>u. u \<noteq> t \<longrightarrow> ps_pc s' u = ps_pc s u)"
  using assms
  by (cases p) (auto simp: queue_moves split: if_splits option.splits mpc.splits)

lemma mstep_measure:
  assumes "mstep M t q q'" and "\<forall>op c. mpcs q t \<noteq> Asleep op c"
  shows "(result_of (mpcs q t) = None \<and> result_of (mpcs q' t) \<noteq> None) \<or>
    (mdata q' = mdata q \<and> result_of (mpcs q' t) = result_of (mpcs q t) \<and>
      (undelivered (mpcs q' t) < undelivered (mpcs q t) \<or>
       undelivered (mpcs q' t) = undelivered (mpcs q t) \<and>
         queue_distance (mpcs q' t) < queue_distance (mpcs q t) \<and> (\<forall>u. u \<noteq> t \<longrightarrow> mpcs q' u = mpcs q u)))"
  using assms by (cases rule: mstep.cases) auto

lemma undelivered_wake [simp]: "undelivered (wake c p) = undelivered p"
  by (cases p) auto

lemma mstep_undelivered: "mstep M t q q' \<Longrightarrow> u \<noteq> t \<Longrightarrow> undelivered (mpcs q' u) = undelivered (mpcs q u)"
  by (erule mstep.cases) auto

text \<open>When a call takes effect, the work left decreases.\<close>

lemma effect_decreases:
  assumes r: "preach n capacity s" and f: "\<not> ps_freed s" and st: "mstep queue_monitor t (ps_queue s) q'"
    and res: "res s t = None" "result_of (mpcs q' t) = Some (op, x)"
  shows "work_left n (s\<lparr>ps_queue := q'\<rparr>) < work_left n s"
proof -
  let ?s = "s\<lparr>ps_queue := q'\<rparr>"
  let ?c = "\<lambda>s. length (contents (mdata (ps_queue s)))"
  have st': "pstep n t s ?s" by (rule pstep.in_queue [OF f st])
  note r' = preach.step [OF r st']
  have sum: "sum_of (rank n) ?s + rank n (ps_pc s t) None = sum_of (rank n) s + rank n (ps_pc s t) (Some (op, x))"
    using sum_step [OF r st' rank_weight] res by simp
  have ft: "fits (ps_pc s t) (Some op)"
    using fits_reach [OF r', of t] result_op [OF res(2)] by simp
  have a: "answer_of op x" using answered(1) [OF r', of t op x] res(2) by simp
  have "length (popped (mlog q')) = length (popped (plog s)) + size (got (Some (op, x)))"
    using arg_cong [OF mstep_got(1) [OF st, unfolded res], of size] by (simp del: got.simps(2))
  then have cnt: "?c ?s + size (got (Some (op, x))) = ?c s + put (Some (op, x))"
    using mstep_got(2) [OF st, unfolded res] popped_pushed [OF r] popped_pushed [OF r']
    by (simp del: got.simps(2) put.simps(2))
  have "rank n (ps_pc s t) (Some (op, x)) + 25 * ?c ?s < rank n (ps_pc s t) None + 25 * ?c s"
    using ft a cnt by (cases "ps_pc s t") (auto split: if_splits)
  with sum show ?thesis unfolding work_left_def by linarith
qed

definition awake_step :: "nat \<Rightarrow> psys \<Rightarrow> psys \<Rightarrow> bool" where
  "awake_step n s s' \<longleftrightarrow> (\<exists>t. pstep n t s s' \<and> \<not> asleep s t)"

text \<open>A step inside the queue.\<close>

lemma queue_step_measure:
  assumes r: "preach n capacity s" and f: "\<not> ps_freed s" and st: "mstep queue_monitor t (ps_queue s) q'"
    and aw: "\<not> asleep s t"
  shows "(s\<lparr>ps_queue := q'\<rparr>, s) \<in> measures [work_left n, wakeups_left, distance]"
proof -
  let ?s = "s\<lparr>ps_queue := q'\<rparr>"
  have "\<forall>op c. mpcs (ps_queue s) t \<noteq> Asleep op c" using aw by (simp add: asleep_def)
  from mstep_measure [OF st this] show ?thesis
  proof (elim disjE conjE)
    assume n: "res s t = None" "result_of (mpcs q' t) \<noteq> None"
    then obtain op x where "result_of (mpcs q' t) = Some (op, x)" by auto
    from effect_decreases [OF r f st n(1) this] show ?thesis by simp
  next
    assume e: "mdata q' = mdata (ps_queue s)" "result_of (mpcs q' t) = res s t"
    have w: "work_left n ?s = work_left n s"
      using sum_step [OF r pstep.in_queue [OF f st] rank_weight] e by (simp add: work_left_def)
    note u = mstep_undelivered [OF st]
    {
      assume "undelivered (mpcs q' t) < undelivered (mpcs (ps_queue s) t)"
      then have "wakeups_left ?s < wakeups_left s"
        unfolding wakeups_left_def by (intro total_decrease [OF finite_undelivered [OF r]]) (simp_all add: u)
      with w show ?thesis by simp
    next
      assume v: "undelivered (mpcs q' t) = undelivered (mpcs (ps_queue s) t)"
        and d: "queue_distance (mpcs q' t) < queue_distance (mpcs (ps_queue s) t)"
        and o: "\<forall>u. u \<noteq> t \<longrightarrow> mpcs q' u = mpcs (ps_queue s) u"
      have "wakeups_left ?s = wakeups_left s"
        unfolding wakeups_left_def by (intro total_same) (metis u v psys.select_convs(1) psys.surjective psys.update_convs(1))
      moreover have "distance ?s < distance s"
        unfolding distance_def by (rule total_decrease [OF finite_distance [OF r], of t]) (use o d in simp_all)
      ultimately show ?thesis using w by simp
    }
  qed
qed

text \<open>A step of the thread itself.\<close>

lemma act_step_measure:
  assumes r: "preach n capacity s" and f: "\<not> ps_freed s" and a: "act n cf t (ps_pc s t) s = Some s'"
  shows "(s', s) \<in> measures [work_left n, wakeups_left, distance]"
proof -
  have sum: "sum_of (rank n) s' + rank n (ps_pc s t) (res s t) = sum_of (rank n) s + rank n (ps_pc s' t) (res s' t)"
    by (rule sum_step [OF r pstep.thread [OF f a] rank_weight])
  have c: "contents (mdata (ps_queue s')) = contents (mdata (ps_queue s))"
    using act_queue [OF a] by auto
  from act_measure [OF a refl fits_reach [OF r]] show ?thesis
  proof (elim disjE conjE)
    assume "rank n (ps_pc s' t) (res s' t) < rank n (ps_pc s t) (res s t)"
    with sum c have "work_left n s' < work_left n s" by (simp add: work_left_def)
    then show ?thesis by simp
  next
    assume e: "rank n (ps_pc s' t) (res s' t) = rank n (ps_pc s t) (res s t)"
      and d: "wait_distance (ps_pc s' t) < wait_distance (ps_pc s t)"
      and q: "ps_queue s' = ps_queue s" and o: "\<forall>u. u \<noteq> t \<longrightarrow> ps_pc s' u = ps_pc s u"
    have "work_left n s' = work_left n s" using sum c e by (simp add: work_left_def)
    moreover have "wakeups_left s' = wakeups_left s" by (simp add: wakeups_left_def q)
    moreover have "distance s' < distance s"
      unfolding distance_def by (rule total_decrease [OF finite_distance [OF r], of t]) (use q o d in simp_all)
    ultimately show ?thesis by simp
  qed
qed

lemma awake_step_measure:
  assumes r: "preach n capacity s" and st: "awake_step n s s'"
  shows "(s', s) \<in> measures [work_left n, wakeups_left, distance]"
proof -
  obtain t where t: "pstep n t s s'" "\<not> asleep s t" using st unfolding awake_step_def by blast
  have less: "(s', s) \<in> measures [work_left n, wakeups_left, distance]"
    if "rank n (ps_pc s' t) (res s' t) < rank n (ps_pc s t) (res s t)"
      "contents (mdata (ps_queue s')) = contents (mdata (ps_queue s))"
    using sum_step [OF r t(1) rank_weight, of n] that by (simp add: work_left_def)
  from t(1) show ?thesis
  proof (cases rule: pstep.cases)
    case (thread cf)
    from act_step_measure [OF r thread] show ?thesis .
  next
    case (in_queue q')
    from queue_step_measure [OF r in_queue(2,3) t(2)] in_queue(1) show ?thesis by simp
  next
    case (push f a pr node now op)
    show ?thesis by (rule less) (use push fits_reach [OF r, of t] push_calls(1) [OF push(4)] in auto)
  next
    case (no_memory f a pr now x)
    show ?thesis by (rule less) (use no_memory fits_reach [OF r, of t] push_calls(2) [OF no_memory(4)] in auto)
  next
    case (spurious_wakeup k c)
    with t(2) show ?thesis by (simp add: asleep_def)
  qed
qed

lemma awake_step_reach: "preach n capacity s \<Longrightarrow> awake_step n s s' \<Longrightarrow> preach n capacity s'"
  unfolding awake_step_def by (blast intro: preach.step)

lemma awake_run_reach: "(awake_step n)\<^sup>*\<^sup>* s s' \<Longrightarrow> preach n capacity s \<Longrightarrow> preach n capacity s'"
  by (induction rule: rtranclp_induct) (auto intro: awake_step_reach)

lemma no_infinite_run:
  assumes "preach n capacity (run 0)" and "\<And>i. awake_step n (run i) (run (Suc i))"
  shows False
proof -
  have r: "preach n capacity (run i)" for i
    by (induction i) (use assms awake_step_reach in blast)+
  have "\<forall>i. (run (Suc i), run i) \<in> measures [work_left n, wakeups_left, distance]"
    using awake_step_measure [OF r assms(2)] by blast
  moreover have "wf (measures [work_left n, wakeups_left, distance])" by simp
  ultimately show False unfolding wf_iff_no_infinite_down_chain by blast
qed

section \<open>Every call returns\<close>


text \<open>A client sleeps in wait while the worker has taken its task.\<close>

definition asleep_run :: "(tid \<times> pool_action) list" where
  "asleep_run = submit_run 1 64 7 @ steps 1 2 @ steps 0 10 @ [(1, Enter Wait)] @ steps 1 4"


end
