(* ===== verification/Pool_Nested.thy ===== *)
theory Pool_Nested
  imports Pool_Termination
begin

text \<open>
  Tasks that call the pool they run on. The call of a worker's task is that of a thread of its own,
  \<open>n + w\<close> for worker \<open>w\<close>, which enters only while the worker is inside a task and which the
  worker waits for. Every such run is a run of the pool of Pool_Machine, so that what is shown there of
  reachable states holds with such tasks too; what changes is who can be stuck.
  A task that destroys its own pool is left out: its worker would join itself.
\<close>

section \<open>The pool with such tasks\<close>

definition in_own_call :: "nat \<Rightarrow> psys \<Rightarrow> tid set" where
  "in_own_call n s = {w. w < n \<and> ps_pc s (n + w) \<noteq> Idle}"

inductive nstep :: "nat \<Rightarrow> tid \<Rightarrow> psys \<Rightarrow> psys \<Rightarrow> bool" for n t where
  nstep: "t \<notin> in_own_call n s \<Longrightarrow> pstep n t s s' \<Longrightarrow> nstep n t s s'"

inductive_simps nstep_iff: "nstep n t s s'"

definition may_call :: "nat \<Rightarrow> tid \<Rightarrow> pool_call \<Rightarrow> psys \<Rightarrow> bool" where
  "may_call n t c s \<longleftrightarrow> n \<le> t \<and>
     (t < 2 * n \<longrightarrow> c \<noteq> Destroy \<and> (\<exists>func arg. ps_pc s (t - n) = Work_Running func arg))"

inductive nreach :: "nat \<Rightarrow> size_t \<Rightarrow> psys \<Rightarrow> bool" for n capacity where
  init: "nreach n capacity (init_psys n capacity)"
| step: "nreach n capacity s \<Longrightarrow> nstep n t s s' \<Longrightarrow> nreach n capacity s'"
| enter: "nreach n capacity s \<Longrightarrow> may_call n t c s \<Longrightarrow> ps_pc s t = Idle \<Longrightarrow> \<not> ps_freed s \<Longrightarrow>
    pool_enter pool c s = Inr p \<Longrightarrow> nreach n capacity (to t p s)"

lemma nreach_preach: "nreach n capacity s \<Longrightarrow> preach n capacity s"
  by (induction rule: nreach.induct) (auto intro: preach.intros simp: nstep_iff may_call_def)

section \<open>Invariants\<close>

lemma idle_no_step:
  assumes r: "preach n capacity s" and st: "pstep n t s s'"
  shows "ps_pc s t \<noteq> Idle"
proof
  assume i: "ps_pc s t = Idle"
  have "mpcs (ps_queue s) t = Outside" using fits_reach [OF r, of t] i by simp
  with st i show False by (auto elim!: pstep.cases mstep.cases)
qed

text \<open>A worker whose task is in a call is inside the task.\<close>

lemma own_call_running: "nreach n capacity s \<Longrightarrow> w \<in> in_own_call n s \<Longrightarrow>
   \<exists>func arg. ps_pc s w = Work_Running func arg"
proof (induction arbitrary: w rule: nreach.induct)
  case init
  then show ?case by (simp add: in_own_call_def init_psys_def)
next
  case (step s t s')
  note r = nreach_preach [OF step.hyps(1)]
  have st: "pstep n t s s'" "t \<notin> in_own_call n s" using step.hyps(2) by (auto simp: nstep_iff)
  have w: "w \<in> in_own_call n s"
  proof (rule ccontr)
    assume no: "w \<notin> in_own_call n s"
    then have i: "ps_pc s (n + w) = Idle" using step.prems by (simp add: in_own_call_def)
    then have "n + w \<noteq> t" using idle_no_step [OF r st(1)] by auto
    with pstep_others [OF st(1), of "n + w"] i have "ps_pc s' (n + w) = Idle" by auto
    with step.prems show False by (simp add: in_own_call_def)
  qed
  then obtain func arg where p: "ps_pc s w = Work_Running func arg" using step.IH by blast
  moreover have "w \<noteq> t" using w st(2) by blast
  ultimately have "ps_pc s' w = Work_Running func arg" using pstep_others [OF st(1), of w] by simp
  then show ?case by blast
next
  case (enter s t c pool p)
  then show ?case by (cases "t = n + w") (auto simp: in_own_call_def may_call_def)
qed

text \<open>No task is in destroy.\<close>

fun in_destroy :: "pool_pc \<Rightarrow> bool" where
  "in_destroy Destroy_Cas = True"
| "in_destroy Destroy_Call = True"
| "in_destroy Destroy_Shutdown = True"
| "in_destroy (Destroy_Join i) = True"
| "in_destroy Destroy_Store = True"
| "in_destroy Destroy_Release = True"
| "in_destroy Destroy_Return = True"
| "in_destroy p = False"

lemma in_destroy_after [simp]: "\<not> in_destroy (after_pop r)" "\<not> in_destroy (after_push r)" "\<not> in_destroy (after_size r)"
  by (cases r; simp)+

lemma act_in_destroy: "act n cf t p s = Some s' \<Longrightarrow> in_destroy (ps_pc s' t) \<Longrightarrow> in_destroy p"
  by (cases p) (auto simp: queue_moves split: if_splits option.splits mpc.splits)

lemma task_not_in_destroy: "nreach n capacity s \<Longrightarrow> n \<le> t \<Longrightarrow> t < 2 * n \<Longrightarrow> \<not> in_destroy (ps_pc s t)"
proof (induction rule: nreach.induct)
  case init
  then show ?case by (simp add: init_psys_def)
next
  case (step s u s')
  have st: "pstep n u s s'" using step.hyps(2) by (simp add: nstep_iff)
  have old: "\<not> in_destroy (ps_pc s t)" using step.IH step.prems by blast
  show ?case
  proof (cases "u = t")
    case False
    with pstep_others [OF st, of t] old show ?thesis by auto
  next
    case True
    from st [unfolded True] old show ?thesis by (cases rule: pstep.cases) (auto dest: act_in_destroy)
  qed
next
  case (enter s u c pool p)
  have "\<not> in_destroy p" if "c \<noteq> Destroy" using enter.hyps(5) that by (cases c) (auto split: if_splits)
  with enter show ?case by (auto simp: may_call_def)
qed

section \<open>Who can be stuck\<close>

definition nested_awake :: "nat \<Rightarrow> psys \<Rightarrow> psys \<Rightarrow> bool" where
  "nested_awake n s s' \<longleftrightarrow> (\<exists>t. nstep n t s s' \<and> \<not> asleep s t)"

lemma nested_awake_awake: "nested_awake n s s' \<Longrightarrow> awake_step n s s'"
  unfolding nested_awake_def awake_step_def nstep_iff by blast

lemma nested_run_reach: "(nested_awake n)\<^sup>*\<^sup>* s s' \<Longrightarrow> nreach n capacity s \<Longrightarrow> nreach n capacity s'"
  by (induction rule: rtranclp_induct) (auto simp: nested_awake_def intro: nreach.step)

lemma nested_stuck:
  assumes "nreach n capacity s" and "\<nexists>s'. nested_awake n s s'"
  shows "stuck (in_own_call n s) n s"
  using assms own_call_running [OF assms(1)] unfolding stuck_def nested_awake_def nstep_iff by blast

text \<open>The task of a worker sleeps in wait; it sleeps in a submit, on a full queue.\<close>

definition task_waits :: "nat \<Rightarrow> psys \<Rightarrow> tid \<Rightarrow> bool" where
  "task_waits n s w \<longleftrightarrow> (\<exists>func arg. ps_pc s w = Work_Running func arg) \<and> (\<exists>k c. ps_pc s (n + w) = Wait_Sleep k c)"

definition task_blocked :: "nat \<Rightarrow> psys \<Rightarrow> tid \<Rightarrow> bool" where
  "task_blocked n s w \<longleftrightarrow> (\<exists>func arg. ps_pc s w = Work_Running func arg) \<and> ps_pc s (n + w) = Submit_Push \<and>
     (\<exists>node task. mpcs (ps_queue s) (n + w) = Asleep (Push node task) Not_Full)"

lemma push_sleeps:
  assumes "cs_guard (queue_section (Push node task)) q = Some c"
  shows "c = Not_Full \<and> 0 < q_capacity q \<and> q_capacity q \<le> q_count q \<and> \<not> q_shutdown q"
  using assms by (simp add: section_defs split: if_splits)

text \<open>A task that is stuck in a call, but not in wait, is in a submit on a full queue, and then so are all.\<close>

lemma stuck_call:
  assumes r: "nreach n capacity s" and f: "\<not> ps_freed s" and st: "stuck (in_own_call n s) n s"
    and w: "w \<in> in_own_call n s" and nw: "\<not> task_waits n s w"
  shows "task_blocked n s w" and "0 < q_capacity (mdata (ps_queue s))"
    and "q_capacity (mdata (ps_queue s)) \<le> q_count (mdata (ps_queue s))"
proof -
  note r' = nreach_preach [OF r]
  have lt: "w < n" "ps_pc s (n + w) \<noteq> Idle" using w by (simp_all add: in_own_call_def)
  have run: "\<exists>func arg. ps_pc s w = Work_Running func arg" by (rule own_call_running [OF r w])
  have out: "n + w \<notin> in_own_call n s" by (simp add: in_own_call_def)
  have nworker: "\<not> is_worker (ps_pc s (n + w))" using placed_reach [OF r'] by (simp add: placed_def)
  have "\<not> in_destroy (ps_pc s (n + w))" using task_not_in_destroy [OF r, of "n + w"] lt by simp
  then have p: "ps_pc s (n + w) = Submit_Push"
    using stuck_positions [OF r' f st out] nworker lt(2) nw run by (auto simp: task_waits_def)
  then obtain node task where "op_of (mpcs (ps_queue s) (n + w)) = Some (Push node task)"
    using fits_reach [OF r', of "n + w"] by auto
  then obtain c where c: "mpcs (ps_queue s) (n + w) = Asleep (Push node task) c"
    "cs_guard (queue_section (Push node task)) (mdata (ps_queue s)) = Some c"
    using stuck_queue [OF r' f st, of "n + w"] by auto
  note full = push_sleeps [OF c(2)]
  show "task_blocked n s w" using run p c(1) full by (auto simp: task_blocked_def)
  show "0 < q_capacity (mdata (ps_queue s))" "q_capacity (mdata (ps_queue s)) \<le> q_count (mdata (ps_queue s))"
    using full by blast+
qed

lemma stuck_all_blocked:
  assumes r: "nreach n capacity s" and f: "\<not> ps_freed s" and st: "stuck (in_own_call n s) n s"
    and w: "w \<in> in_own_call n s" and nw: "\<And>u. u < n \<Longrightarrow> \<not> task_waits n s u" and u: "u < n"
  shows "task_blocked n s u"
proof -
  note r' = nreach_preach [OF r]
  let ?q = "mdata (ps_queue s)"
  have lt: "w < n" using w by (simp add: in_own_call_def)
  have full: "q_count ?q \<noteq> 0" using stuck_call(2,3) [OF r f st w nw [OF lt]] by (metis word_gt_0 word_le_0_iff)
  have "u \<in> in_own_call n s"
  proof (rule ccontr)
    assume out: "u \<notin> in_own_call n s"
    have "is_worker (ps_pc s u)" using placed_reach [OF r'] u by (simp add: placed_def)
    then have "ps_pc s u = Work_Exit" using stuck_positions [OF r' f st out] full by auto
    then have "contents ?q = []"
      using exit_logged [OF r'] shutdown_drains [OF queue_reach [OF r'] new_queue_wf(1)] by blast
    with full contents_empty [OF queue.reach_invariant [OF queue_reach [OF r'] new_queue_wf(1)]] show False by simp
  qed
  from stuck_call(1) [OF r f st this nw [OF u]] show ?thesis .
qed

lemma nested_rest:
  assumes r: "nreach n capacity s" and f: "\<not> ps_freed s" and none: "in_own_call n s = {}"
    and st: "stuck (in_own_call n s) n s" and n: "0 < n" and o: "no_overflow s"
  shows "(\<forall>t\<ge>n. ps_pc s t = Idle) \<and> contents (mdata (ps_queue s)) = [] \<and>
    mset (map snd (ps_ran s)) = mset (pushed (plog s))"
  using stuck_all_done [OF nreach_preach [OF r] f st [unfolded none] n o] .


section \<open>The two deadlocks\<close>

text \<open>An executable run, each action of which keeps to the rules above.\<close>

fun nested_ok :: "nat \<Rightarrow> tid \<times> pool_action \<Rightarrow> psys \<Rightarrow> bool" where
  "nested_ok n (t, Enter c) s = (n \<le> t \<and> (t < 2 * n \<longrightarrow> c \<noteq> Destroy \<and>
     (case ps_pc s (t - n) of Work_Running func arg \<Rightarrow> True | _ \<Rightarrow> False)))"
| "nested_ok n (t, a) s = (\<not> (t < n \<and> ps_pc s (n + t) \<noteq> Idle))"

fun nexec :: "nat \<Rightarrow> nat \<Rightarrow> (tid \<times> pool_action) list \<Rightarrow> psys \<Rightarrow> psys option" where
  "nexec n m [] s = Some s"
| "nexec n m (a # as) s =
     (if ps_freed s \<or> \<not> nested_ok n a s then None
      else case pexec1 n m a s of None \<Rightarrow> None | Some s' \<Rightarrow> nexec n m as s')"

lemma nexec1_reach:
  assumes r: "nreach n capacity s" and q: "\<forall>t\<ge>m. ps_pc s t = Idle" and f: "\<not> ps_freed s"
    and ok: "nested_ok n (t, a) s" and e: "pexec1 n m (t, a) s = Some s'"
  shows "nreach n capacity s' \<and> (\<forall>t\<ge>m. ps_pc s' t = Idle)"
proof (intro conjI)
  note r' = nreach_preach [OF r]
  show "\<forall>t\<ge>m. ps_pc s' t = Idle" using pexec1_reach [OF r' q f e] by blast
  show "nreach n capacity s'"
  proof (cases "\<exists>c. a = Enter c")
    case True
    then obtain c where a: "a = Enter c" by blast
    then have "may_call n t c s" using ok by (auto simp: may_call_def split: pool_pc.splits)
    with e a pexec1_enter [of n m t c s s'] nreach.enter [OF r _ _ f] show ?thesis by blast
  next
    case False
    with ok have "t \<notin> in_own_call n s" by (cases a) (auto simp: in_own_call_def)
    with pexec1_pstep [OF r' q f e] False have "nstep n t s s'" by (auto simp: nstep_iff)
    with r show ?thesis by (rule nreach.step)
  qed
qed

lemma nexec_reach_from:
  "nreach n capacity s \<Longrightarrow> \<forall>t\<ge>m. ps_pc s t = Idle \<Longrightarrow> nexec n m as s = Some s' \<Longrightarrow> nreach n capacity s'"
proof (induction as arbitrary: s)
  case (Cons a as)
  then obtain s1 where "\<not> ps_freed s" "nested_ok n (fst a, snd a) s" "pexec1 n m (fst a, snd a) s = Some s1"
    "nexec n m as s1 = Some s'"
    by (auto split: option.splits if_splits)
  with nexec1_reach [OF Cons.prems(1,2)] Cons.IH show ?case by blast
qed simp

lemma nexec_reach:
  assumes "nexec n m as (init_psys n capacity) = Some s" and "n \<le> m"
  shows "nreach n capacity s"
  by (rule nexec_reach_from [OF nreach.init _ assms(1)]) (use assms(2) in \<open>simp add: init_psys_def\<close>)

text \<open>
  One worker. Its task waits for the pool; its task submits to the full queue, which holds one task of
  client 2.
\<close>

definition wait_in_task_run :: "(tid \<times> pool_action) list" where
  "wait_in_task_run = submit_run 2 64 7 @ steps 2 2 @ steps 0 12 @ [(1, Enter Wait)] @ steps 1 4"

definition submit_in_task_run :: "(tid \<times> pool_action) list" where
  "submit_in_task_run = submit_run 2 64 7 @ steps 2 2 @ steps 0 12 @ submit_run 2 128 8 @ steps 2 2 @
     [(1, Enter (Submit 4096 9 TASK_PRIORITY_NORMAL)), (1, Step), (1, Malloc 192 0)] @ steps 1 3"

lemma one_worker_stuck:
  assumes r: "nreach 1 capacity s" and a: "asleep s 1" and i: "\<forall>t\<ge>2. ps_pc s t = Idle" and p: "ps_pc s 1 \<noteq> Idle"
  shows "\<nexists>s'. nested_awake 1 s s'"
proof
  assume "\<exists>s'. nested_awake 1 s s'"
  then obtain t s' where t: "t \<notin> in_own_call 1 s" "pstep 1 t s s'" "\<not> asleep s t"
    unfolding nested_awake_def nstep_iff by blast
  have "0 \<in> in_own_call 1 s" using p by (simp add: in_own_call_def)
  then have "t \<noteq> 0" using t(1) by metis
  moreover have "t \<noteq> 1" using t(3) a by metis
  ultimately have "2 \<le> t" by simp
  with i idle_no_step [OF nreach_preach [OF r] t(2)] show False by blast
qed



end
