(* ===== verification/Pool_Effects.thy ===== *)
theory Pool_Effects
  imports Pool_Progress
begin

text \<open>
  What the tasks do to the data they share. A task is a list of actions; the state of the running
  pool gets the actions that each worker has still to do and the shared data, and the threads outside of
  the pool that call it are given. When a pool with one client returns from wait, the data are what a
  loop over the submitted tasks would have made of them, provided the actions of the tasks commute
  or there is only one worker.
\<close>

section \<open>The pool with data\<close>

text \<open>
  An action is an atomic operation on the shared data, or a step that touches what no other task does
  at the same time; between its call and its return a worker does the actions of its task, one by one,
  while the others go on.
\<close>

type_synonym 'g program = "ptr \<times> ptr \<Rightarrow> ('g \<Rightarrow> 'g) list"

fun perform :: "('g \<Rightarrow> 'g) list \<Rightarrow> 'g \<Rightarrow> 'g" where
  "perform [] g = g"
| "perform (x # xs) g = perform xs (x g)"

fun task_actions :: "'g program \<Rightarrow> pool_pc \<Rightarrow> ('g \<Rightarrow> 'g) list" where
  "task_actions prog (Work_Running func arg) = prog (func, arg)"
| "task_actions prog p = []"

inductive client_reach ::
  "nat \<Rightarrow> size_t \<Rightarrow> tid set \<Rightarrow> 'g program \<Rightarrow> 'g \<Rightarrow> psys \<Rightarrow> (tid \<Rightarrow> ('g \<Rightarrow> 'g) list) \<Rightarrow> 'g \<Rightarrow> bool"
  for n capacity clients prog g0 where
  init: "client_reach n capacity clients prog g0 (init_psys n capacity) (\<lambda>_. []) g0"
| step: "client_reach n capacity clients prog g0 s rest g \<Longrightarrow> rest t = [] \<Longrightarrow> pstep n t s s' \<Longrightarrow>
    client_reach n capacity clients prog g0 s' (rest(t := task_actions prog (ps_pc s' t))) g"
| action: "client_reach n capacity clients prog g0 s rest g \<Longrightarrow> rest t = x # xs \<Longrightarrow>
    client_reach n capacity clients prog g0 s (rest(t := xs)) (x g)"
| enter: "client_reach n capacity clients prog g0 s rest g \<Longrightarrow> t \<in> clients \<Longrightarrow> n \<le> t \<Longrightarrow> ps_pc s t = Idle \<Longrightarrow>
    \<not> ps_freed s \<Longrightarrow> pool_enter pool c s = Inr p \<Longrightarrow> client_reach n capacity clients prog g0 (to t p s) rest g"

lemma perform_append [simp]: "perform (xs @ ys) g = perform ys (perform xs g)"
  by (induction xs g rule: perform.induct) simp_all

lemma client_preach: "client_reach n capacity clients prog g0 s rest g \<Longrightarrow> preach n capacity s"
  by (induction rule: client_reach.induct) (auto intro: preach.intros)

lemma others_idle: "client_reach n capacity clients prog g0 s rest g \<Longrightarrow> n \<le> t \<Longrightarrow> t \<notin> clients \<Longrightarrow> ps_pc s t = Idle"
proof (induction rule: client_reach.induct)
  case init
  then show ?case by (simp add: init_psys_def)
next
  case (step s rest g u s')
  then have i: "ps_pc s t = Idle" by simp
  have "mpcs (ps_queue s) t = Outside" using fits_reach [OF client_preach [OF step.hyps(1)], of t] i by simp
  then have "u \<noteq> t" using step.hyps(3) i by (auto elim!: pstep.cases mstep.cases)
  with pstep_others [OF step.hyps(3), of t] i show ?case by auto
next
  case (enter s rest g u pool c p)
  then show ?case by auto
qed auto

text \<open>A worker that has actions left is inside its task.\<close>

lemma rest_running: "client_reach n capacity clients prog g0 s rest g \<Longrightarrow> rest t \<noteq> [] \<Longrightarrow>
   \<exists>func arg. ps_pc s t = Work_Running func arg"
proof (induction rule: client_reach.induct)
  case (step s rest g u s')
  show ?case
  proof (cases "u = t")
    case True
    with step.prems show ?thesis by (cases "ps_pc s' t") auto
  next
    case False
    with step.prems step.IH obtain func arg where "ps_pc s t = Work_Running func arg" by auto
    with pstep_others [OF step.hyps(3), of t] False show ?thesis by auto
  qed
next
  case (action s rest g u x xs)
  then show ?case by (auto split: if_splits)
next
  case (enter s rest g u pool c p)
  then show ?case by auto
qed simp

lemma rest_empty:
  assumes "client_reach n capacity clients prog g0 s rest g" and "\<And>func arg. ps_pc s t \<noteq> Work_Running func arg"
  shows "rest t = []"
  using rest_running [OF assms(1), of t] assms(2) by metis

section \<open>The data are made of the actions that have been done\<close>

fun started :: "pool_pc \<Rightarrow> (ptr \<times> ptr) list" where
  "started (Work_Running f a) = [(f, a)]"
| "started p = []"

lemma started_after [simp]: "started (after_pop r) = []" "started (after_push r) = []" "started (after_size r) = []"
  by (cases r; simp)+

lemma actions_started: "task_actions prog p = concat (map prog (started p))"
  by (cases p) auto

lemma act_started: "act n cf t p s = Some s' \<Longrightarrow> map snd (ps_ran s') = map snd (ps_ran s) @ started (ps_pc s' t)"
  by (cases p) (auto simp: queue_moves split: if_splits option.splits mpc.splits)

lemma pstep_started:
  assumes r: "preach n capacity s" and st: "pstep n t s s'"
  shows "map snd (ps_ran s') = map snd (ps_ran s) @ started (ps_pc s' t)"
  using st
proof (cases rule: pstep.cases)
  case (thread cf)
  show ?thesis by (rule act_started [OF thread(2)])
next
  case (in_queue q')
  have "\<exists>op. op_of (mpcs (ps_queue s) t) = Some op" using in_queue(3) by (auto elim: mstep.cases)
  with fits_reach [OF r, of t] have "started (ps_pc s t) = []" by (cases "ps_pc s t") auto
  with in_queue(1) show ?thesis by simp
qed auto

lemma finite_rest:
  assumes "client_reach n capacity clients prog g0 s rest g"
  shows "finite {t. mset (rest t) \<noteq> {#}}"
  by (rule finite_subset [OF _ finite_busy [OF client_preach [OF assms]]]) (use rest_running [OF assms] in fastforce)

abbreviation all_actions :: "'g program \<Rightarrow> (ptr \<times> ptr) list \<Rightarrow> ('g \<Rightarrow> 'g) list" where
  "all_actions prog xs \<equiv> concat (map prog xs)"

lemma mset_all_actions: "mset (all_actions prog xs) = sum_mset (image_mset (\<lambda>x. mset (prog x)) (mset xs))"
  by (induction xs) simp_all

lemma effects_account: "client_reach n capacity clients prog g0 s rest g \<Longrightarrow>
   \<exists>xs. g = perform xs g0 \<and> mset (all_actions prog (map snd (ps_ran s))) = mset xs + total (\<lambda>t. mset (rest t))"
proof (induction rule: client_reach.induct)
  case init
  show ?case by (intro exI [of _ "[]"]) (simp add: init_psys_def)
next
  case (step s rest g t s')
  let ?rest = "rest(t := task_actions prog (ps_pc s' t))"
  obtain xs where xs: "g = perform xs g0"
    "mset (all_actions prog (map snd (ps_ran s))) = mset xs + total (\<lambda>t. mset (rest t))" using step.IH by blast
  have "total (\<lambda>u. mset (?rest u)) + mset (rest t) = total (\<lambda>u. mset (rest u)) + mset (?rest t)"
    by (rule total_change [OF finite_rest [OF step.hyps(1)]]) simp
  then have "total (\<lambda>u. mset (?rest u)) = total (\<lambda>u. mset (rest u)) + mset (task_actions prog (ps_pc s' t))"
    using step.hyps(2) by simp
  with xs pstep_started [OF client_preach [OF step.hyps(1)] step.hyps(3)] show ?case
    by (intro exI [of _ xs]) (simp add: actions_started)
next
  case (action s rest g t x as)
  obtain xs where xs: "g = perform xs g0"
    "mset (all_actions prog (map snd (ps_ran s))) = mset xs + total (\<lambda>t. mset (rest t))" using action.IH by blast
  have "total (\<lambda>u. mset ((rest(t := as)) u)) + mset (rest t) = total (\<lambda>u. mset (rest u)) + mset ((rest(t := as)) t)"
    by (rule total_change [OF finite_rest [OF action.hyps(1)]]) simp
  then have "total (\<lambda>u. mset (rest u)) = total (\<lambda>u. mset ((rest(t := as)) u)) + {#x#}"
    using action.hyps(2) by simp
  with xs show ?case by (intro exI [of _ "xs @ [x]"]) simp
next
  case (enter s rest g t pool c p)
  then show ?case by simp
qed

section \<open>One client\<close>

text \<open>While the only client waits, nothing is submitted: what it has read stays the count.\<close>

fun waiting_for :: "pool_pc \<Rightarrow> size_t option" where
  "waiting_for (Wait_Lock k) = Some k"
| "waiting_for (Wait_Test k) = Some k"
| "waiting_for (Wait_Completed k c) = Some k"
| "waiting_for (Wait_Submitted k m) = Some k"
| "waiting_for (Wait_Block k c) = Some k"
| "waiting_for (Wait_Sleep k c) = Some k"
| "waiting_for (Wait_Woken k) = Some k"
| "waiting_for (Wait_Unlock k) = Some k"
| "waiting_for (Wait_Return k) = Some k"
| "waiting_for p = None"

lemma waiting_after [simp]: "waiting_for (after_pop r) = None" "waiting_for (after_push r) = None"
  "waiting_for (after_size r) = None" "waiting_for (wake_waiter p) = waiting_for p"
  by (cases r; simp)+ (cases p; simp)

lemma act_waiting: "act n cf t p s = Some s' \<Longrightarrow> waiting_for (ps_pc s' t) = Some k \<Longrightarrow>
   waiting_for p = Some k \<and> ps_submitted s' = ps_submitted s"
  by (cases p) (auto simp: queue_moves split: if_splits option.splits mpc.splits)

lemma act_submitted: "act n cf t p s = Some s' \<Longrightarrow> p \<noteq> Submit_Count \<Longrightarrow> ps_submitted s' = ps_submitted s"
  by (cases p) (auto simp: queue_moves split: if_splits option.splits mpc.splits)

lemma waiting_count: "client_reach n capacity {t} prog g0 s rest g \<Longrightarrow> n \<le> t \<Longrightarrow>
   waiting_for (ps_pc s t) = Some k \<Longrightarrow> ps_submitted s = k"
proof (induction arbitrary: k rule: client_reach.induct)
  case init
  then show ?case by (simp add: init_psys_def)
next
  case (step s rest g u s')
  note r = client_preach [OF step.hyps(1)]
  have "waiting_for (ps_pc s t) = Some k \<and> ps_submitted s' = ps_submitted s"
  proof (cases "u = t")
    case True
    from step.hyps(3) [unfolded True] show ?thesis
    proof (cases rule: pstep.cases)
      case (thread cf)
      from act_waiting [OF thread(2) step.prems(2)] show ?thesis by simp
    qed (use step.prems in auto)
  next
    case False
    have "ps_pc s u \<noteq> Submit_Count"
    proof
      assume c: "ps_pc s u = Submit_Count"
      then have "\<not> is_worker (ps_pc s u)" by simp
      then have "n \<le> u" using placed_reach [OF r] by (simp add: placed_def)
      with others_idle [OF step.hyps(1)] c False show False by auto
    qed
    have "ps_submitted s' = ps_submitted s"
      using step.hyps(3) \<open>ps_pc s u \<noteq> Submit_Count\<close>
      by (cases rule: pstep.cases) (auto dest: act_submitted)
    with pstep_others [OF step.hyps(3), of t] False step.prems(2) show ?thesis by auto
  qed
  with step.IH step.prems(1) show ?case by simp
next
  case (action s rest g u x xs)
  then show ?case by simp
next
  case (enter s rest g u pool c p)
  then show ?case by (cases c) (auto split: if_splits)
qed

lemma waiting_all_counted:
  assumes r: "client_reach n capacity {t} prog g0 s rest g" and t: "n \<le> t" and w: "waiting_for (ps_pc s t) = Some k"
  shows "sum_of uncounted s = 0"
proof (rule trans [OF total_same total_zero])
  fix u
  note r' = client_preach [OF r]
  have "fits (ps_pc s u) (op_of (mpcs (ps_queue s) u))" by (rule fits_reach [OF r'])
  moreover have "is_worker (ps_pc s u) \<or> ps_pc s u = Idle \<or> u = t"
    using others_idle [OF r, of u] placed_reach [OF r'] by (auto simp: placed_def not_le [symmetric])
  ultimately have "ps_pc s u \<noteq> Submit_Count \<and> ps_pc s u \<noteq> Submit_Push" using w by auto
  moreover have "put (res s u) = 0" if "ps_pc s u \<noteq> Submit_Push"
  proof (cases "res s u")
    case (Some x)
    obtain op q where x: "res s u = Some (op, q)" using Some by (cases x) auto
    have "fits (ps_pc s u) (Some op)" using fits_reach [OF r', of u] result_op [OF x] by simp
    with that x show ?thesis by (cases "ps_pc s u") auto
  qed simp
  ultimately show "uncounted (ps_pc s u) (res s u) = 0" by (simp add: uncounted_def)
qed

lemma client_wait_done:
  assumes r: "client_reach n capacity {t} prog g0 s rest g" and t: "n \<le> t" and o: "no_overflow s"
    and w: "ps_pc s t = Wait_Return k"
  shows "contents (mdata (ps_queue s)) = [] \<and> mset (map snd (ps_ran s)) = mset (pushed (plog s)) \<and> running s = 0"
proof -
  note r' = client_preach [OF r]
  have "waiting_for (ps_pc s t) = Some k" using w by simp
  from waiting_count [OF r t this] waiting_all_counted [OF r t this] counter_values(1) [OF r' o]
  have "length (pushed (plog s)) = unat k" by simp
  with waited_all_done [OF r' o w] show ?thesis by blast
qed

text \<open>When no task is running, no action is left.\<close>

lemma no_actions_left:
  assumes r: "client_reach n capacity clients prog g0 s rest g" and z: "running s = 0"
  shows "rest t = []"
proof -
  have "finite {t. calling (ps_pc s t) \<noteq> 0}"
    by (rule finite_weight [OF client_preach [OF r], of "\<lambda>p r. calling p"]) simp
  from total_zero_iff [OF this] z have "calling (ps_pc s t) = 0" by blast
  then show ?thesis by (intro rest_empty [OF r]) auto
qed

section \<open>One worker\<close>

text \<open>With one worker the actions are done in the order of the calls.\<close>

lemma single_worker_effects: "client_reach 1 capacity clients prog g0 s rest g \<Longrightarrow>
   \<exists>xs. g = perform xs g0 \<and> all_actions prog (map snd (ps_ran s)) = xs @ rest 0"
proof (induction rule: client_reach.induct)
  case init
  then show ?case by (intro exI [of _ "[]"]) (simp add: init_psys_def)
next
  case (step s rest g t s')
  note r = client_preach [OF step.hyps(1)]
  obtain xs where xs: "g = perform xs g0" "all_actions prog (map snd (ps_ran s)) = xs @ rest 0"
    using step.IH by blast
  note ran = pstep_started [OF r step.hyps(3)]
  show ?case
  proof (cases "t = 0")
    case False
    have "\<not> is_worker (ps_pc s' t)"
      using placed_reach [OF preach.step [OF r step.hyps(3)]] False by (simp add: placed_def)
    then have "started (ps_pc s' t) = []" by (cases "ps_pc s' t") auto
    with ran xs False show ?thesis by auto
  next
    case True
    with ran xs step.hyps(2) show ?thesis by (auto simp: actions_started)
  qed
next
  case (action s rest g t x as)
  obtain func arg where "ps_pc s t = Work_Running func arg"
    using rest_running [OF action.hyps(1), of t] action.hyps(2) by auto
  then have "t = 0" using placed_reach [OF client_preach [OF action.hyps(1)]] by (metis is_worker.simps(6) less_one placed_def)
  with action obtain xs where "g = perform xs g0" "all_actions prog (map snd (ps_ran s)) = xs @ x # as" by auto
  with \<open>t = 0\<close> show ?case by (intro exI [of _ "xs @ [x]"]) simp
next
  case (enter s rest g t pool c p)
  then show ?case by simp
qed

section \<open>Tasks whose actions commute\<close>

text \<open>On data with the property \<open>ok\<close>, which the actions keep.\<close>

locale action_tasks =
  fixes prog :: "'g program" and ok :: "'g \<Rightarrow> bool"
  assumes keeps: "ok g \<Longrightarrow> x \<in> set (prog a) \<Longrightarrow> ok (x g)"
    and commute: "ok g \<Longrightarrow> x \<in> set (prog a) \<Longrightarrow> y \<in> set (prog b) \<Longrightarrow> x (y g) = y (x g)"
begin

lemma action_first:
  "ok g \<Longrightarrow> set us \<subseteq> (\<Union>a. set (prog a)) \<Longrightarrow> x \<in> set (prog a) \<Longrightarrow> x (perform us g) = perform us (x g)"
proof (induction us arbitrary: g)
  case (Cons u us)
  then obtain b where u: "u \<in> set (prog b)" by auto
  with Cons.IH [of "u g"] Cons.prems keeps [OF Cons.prems(1) u] commute [OF Cons.prems(1,3) u] show ?case by simp
qed simp

lemma order_irrelevant:
  "mset xs = mset ys \<Longrightarrow> ok g \<Longrightarrow> set xs \<subseteq> (\<Union>a. set (prog a)) \<Longrightarrow> perform xs g = perform ys g"
proof (induction xs arbitrary: ys g)
  case (Cons x xs)
  obtain a where x: "x \<in> set (prog a)" using Cons.prems(3) by auto
  have "x \<in> set ys" using mset_eq_setD [OF Cons.prems(1)] by auto
  then obtain us vs where ys: "ys = us @ x # vs" by (meson split_list)
  then have m: "mset xs = mset (us @ vs)" using Cons.prems(1) by simp
  have "set us \<subseteq> set (x # xs)" using mset_eq_setD [OF Cons.prems(1)] ys by auto
  then have "set us \<subseteq> (\<Union>a. set (prog a))" using Cons.prems(3) by blast
  from action_first [OF Cons.prems(2) this x] have "perform ys g = perform (us @ vs) (x g)" by (simp add: ys)
  with Cons.IH [OF m keeps [OF Cons.prems(2) x]] Cons.prems(3) show ?case by simp
qed simp

lemma wait_then_performed:
  assumes "client_reach n capacity {t} prog g0 s rest g" and "n \<le> t" and "no_overflow s"
    and "ps_pc s t = Wait_Return k" and "ok g0"
  shows "g = perform (all_actions prog (pushed (plog s))) g0"
proof -
  note d = client_wait_done [OF assms(1-4)]
  from effects_account [OF assms(1)] obtain xs where xs: "g = perform xs g0"
    "mset (all_actions prog (map snd (ps_ran s))) = mset xs + total (\<lambda>t. mset (rest t))" by blast
  have "total (\<lambda>t. mset (rest t)) = {#}"
    by (rule trans [OF total_same total_zero]) (simp add: no_actions_left [OF assms(1)] d)
  moreover have "mset (all_actions prog (map snd (ps_ran s))) = mset (all_actions prog (pushed (plog s)))"
    using d by (simp only: mset_all_actions)
  ultimately have m: "mset xs = mset (all_actions prog (pushed (plog s)))" using xs(2) by simp
  have "set xs \<subseteq> (\<Union>a. set (prog a))" using mset_eq_setD [OF m] by auto
  from order_irrelevant [OF m assms(5) this] xs(1) show ?thesis by simp
qed

end

text \<open>Tasks of one action each.\<close>

locale commuting_tasks =
  fixes eff :: "ptr \<times> ptr \<Rightarrow> 'g \<Rightarrow> 'g"
  assumes commute: "eff x (eff y g) = eff y (eff x g)"

sublocale commuting_tasks \<subseteq> single: action_tasks "\<lambda>x. [eff x]" "\<lambda>_. True"
  by unfold_locales (auto simp: commute)

context commuting_tasks
begin

lemma wait_then_done:
  assumes "client_reach n capacity {t} (\<lambda>x. [eff x]) g0 s rest g" and "n \<le> t" and "no_overflow s"
    and "ps_pc s t = Wait_Return k"
  shows "g = fold eff (pushed (plog s)) g0"
proof -
  have "perform (all_actions (\<lambda>x. [eff x]) xs) g = fold eff xs g" for xs g
    by (induction xs arbitrary: g) simp_all
  with single.wait_then_performed [OF assms] show ?thesis by simp
qed

end

text \<open>
  C16. With one worker, whatever the tasks do and however many clients there are: when the pool is at
  rest, the shared data are what a loop over the accepted tasks, in the order of acceptance, would
  have made of them; and in particular when the only client returns from wait.
\<close>

theorem thread_pool_sequential:
  assumes "client_reach 1 capacity clients prog g0 s rest g"
  shows "(contents (mdata (ps_queue s)) = [] \<and> at_rest s 0 \<longrightarrow> g = perform (all_actions prog (pushed (plog s))) g0) \<and>
    (clients = {1} \<and> no_overflow s \<and> ps_pc s 1 = Wait_Return k \<longrightarrow>
      g = perform (all_actions prog (pushed (plog s))) g0)"
proof -
  note r = client_preach [OF assms]
  obtain xs where xs: "g = perform xs g0" "all_actions prog (map snd (ps_ran s)) = xs @ rest 0"
    using single_worker_effects [OF assms] by blast
  have order: "pushed (plog s) = map snd (ps_ran s) @ in_hand s 0 @ map task_ref (contents (mdata (ps_queue s)))"
    using single_worker [OF r] fifo_order [OF queue_reach [OF r] new_queue_wf(1)] by simp
  have "g = perform (all_actions prog (pushed (plog s))) g0" if c: "contents (mdata (ps_queue s)) = []" and a: "at_rest s 0"
  proof -
    have "res s 0 = None" using a fits_reach [OF r, of 0] by (auto simp: at_rest_def)
    with a have "in_hand s 0 = []" by (auto simp: at_rest_def in_hand_def)
    moreover have "rest 0 = []" by (rule rest_empty [OF assms]) (use a in \<open>auto simp: at_rest_def\<close>)
    ultimately show ?thesis using xs order c by simp
  qed
  moreover have "g = perform (all_actions prog (pushed (plog s))) g0"
    if "clients = {1}" "no_overflow s" "ps_pc s 1 = Wait_Return k"
  proof -
    have d: "mset (map snd (ps_ran s)) = mset (pushed (plog s))" "running s = 0"
      using client_wait_done [OF assms [unfolded that(1)] _ that(2,3)] by auto
    have "map snd (ps_ran s) = pushed (plog s)" using order arg_cong [OF d(1), of size] by simp
    with xs no_actions_left [OF assms d(2), of 0] show ?thesis by simp
  qed
  ultimately show ?thesis by blast
qed

section \<open>Arguments\<close>

text \<open>The clients pass pointers to the elements of an array at \<open>base\<close>; an element has \<open>bytes\<close> bytes.\<close>

definition array_at :: "nat \<Rightarrow> ptr \<Rightarrow> 'a list \<Rightarrow> ptr \<Rightarrow> 'a option" where
  "array_at bytes base xs arg = (let d = unat (arg - base) in
     if d mod bytes = 0 \<and> d div bytes < length xs then Some (xs ! (d div bytes)) else None)"

lemma array_at_set: "array_at bytes base xs arg = Some x \<Longrightarrow> x \<in> set xs"
  by (auto simp: array_at_def Let_def split: if_splits)

lemma array_at_nth:
  assumes "bytes * length xs < 2 ^ 64" and "t < length xs" and "0 < bytes"
  shows "array_at bytes base xs (base + word_of_nat (bytes * t)) = Some (xs ! t)"
proof -
  have "bytes * t \<le> bytes * length xs" using assms(2) by simp
  then have "bytes * t < 2 ^ 64" using assms(1) by linarith
  then have "unat (word_of_nat (bytes * t) :: 64 word) = bytes * t" by (rule unat_of_nat_small)
  with assms(2,3) show ?thesis by (simp add: array_at_def del: of_nat_mult)
qed

section \<open>Concrete runs\<close>

text \<open>The executable scheduler of Pool_Exec, with the data: a worker first does the actions it has left.\<close>

fun gexec :: "nat \<Rightarrow> nat \<Rightarrow> 'g program \<Rightarrow> (tid \<times> pool_action) list \<Rightarrow> psys \<times> (tid \<Rightarrow> ('g \<Rightarrow> 'g) list) \<times> 'g \<Rightarrow>
   (psys \<times> (tid \<Rightarrow> ('g \<Rightarrow> 'g) list) \<times> 'g) option" where
  "gexec n m prog [] x = Some x"
| "gexec n m prog ((t, a) # as) (s, rest, g) =
     (case rest t of x # xs \<Rightarrow> gexec n m prog as (s, rest(t := xs), x g)
      | [] \<Rightarrow> if ps_freed s then None else case pexec1 n m (t, a) s of None \<Rightarrow> None
        | Some s' \<Rightarrow> gexec n m prog as (s', rest(t := task_actions prog (ps_pc s' t)), g))"

lemma gexec1_reach:
  assumes r: "client_reach n capacity clients prog g0 s rest g" and q: "\<forall>t\<ge>m. ps_pc s t = Idle" and f: "\<not> ps_freed s"
    and i: "rest t = []" and e: "pexec1 n m (t, a) s = Some s'" and c: "t \<in> clients \<or> t < n"
  shows "client_reach n capacity clients prog g0 s' (rest(t := task_actions prog (ps_pc s' t))) g"
proof (cases "\<exists>c. a = Enter c")
  case True
  then obtain c where a: "a = Enter c" by blast
  with e pexec1_enter obtain p where p: "n \<le> t" "ps_pc s t = Idle" "pool_enter 1 c s = Inr p" "s' = to t p s"
    by blast
  have "task_actions prog p = []" using p(3) by (cases c) (auto split: if_splits)
  then have "rest(t := task_actions prog (ps_pc s' t)) = rest" using i p(4) by (simp add: fun_upd_idem)
  with client_reach.enter [OF r _ p(1,2) f p(3)] p(1,4) c show ?thesis by auto
next
  case False
  with pexec1_pstep [OF client_preach [OF r] q f e] have "pstep n t s s'" by blast
  from client_reach.step [OF r i this] show ?thesis .
qed

lemma gexec_reach_from:
  "client_reach n capacity clients prog g0 s rest g \<Longrightarrow> \<forall>t\<ge>m. ps_pc s t = Idle \<Longrightarrow>
   gexec n m prog as (s, rest, g) = Some (s', rest', g') \<Longrightarrow> list_all (\<lambda>a. fst a \<in> clients \<or> fst a < n) as \<Longrightarrow>
   client_reach n capacity clients prog g0 s' rest' g'"
proof (induction as arbitrary: s rest g)
  case (Cons ta as)
  obtain t a where ta: "ta = (t, a)" by (cases ta)
  show ?case
  proof (cases "rest t")
    case left: (Cons x xs)
    with Cons.prems(3) ta have e: "gexec n m prog as (s, rest(t := xs), x g) = Some (s', rest', g')" by simp
    show ?thesis by (rule Cons.IH [OF client_reach.action [OF Cons.prems(1) left] Cons.prems(2) e]) (use Cons.prems(4) in simp)
  next
    case Nil
    with Cons.prems(3) ta obtain s1 where f: "\<not> ps_freed s" and e: "pexec1 n m (t, a) s = Some s1"
      "gexec n m prog as (s1, rest(t := task_actions prog (ps_pc s1 t)), g) = Some (s', rest', g')"
      by (auto split: option.splits if_splits)
    have "\<forall>t\<ge>m. ps_pc s1 t = Idle"
      using pexec1_reach [OF client_preach [OF Cons.prems(1)] Cons.prems(2) f e(1)] by blast
    moreover have "client_reach n capacity clients prog g0 s1 (rest(t := task_actions prog (ps_pc s1 t))) g"
      by (rule gexec1_reach [OF Cons.prems(1,2) f Nil e(1)]) (use Cons.prems(4) ta in simp)
    ultimately show ?thesis using Cons.IH e(2) Cons.prems(4) by simp
  qed
qed simp

lemma gexec_reach:
  assumes "gexec n m prog as (init_psys n capacity, \<lambda>_. [], g0) = Some (s, rest, g)" and "n \<le> m"
    and "list_all (\<lambda>a. fst a \<in> clients \<or> fst a < n) as"
  shows "client_reach n capacity clients prog g0 s rest g"
  by (rule gexec_reach_from [OF client_reach.init _ assms(1,3)]) (use assms(2) in \<open>simp add: init_psys_def\<close>)

text \<open>The tasks append their argument to a list, twice: two tasks, then wait.\<close>

definition append_run :: "(tid \<times> pool_action) list" where
  "append_run = submit_run 1 64 7 @ steps 1 2 @ submit_run 1 128 8 @ steps 1 2 @ steps 0 40 @
     [(1, Enter Wait)] @ steps 1 4"

definition append_twice :: "ptr list program" where
  "append_twice x = [\<lambda>xs. xs @ [snd x], \<lambda>xs. xs @ [snd x]]"

lemma thread_pool_sequential_witness:
  "\<exists>s rest. gexec 1 2 append_twice append_run (init_psys 1 4, \<lambda>_. [], []) = Some (s, rest, [7, 7, 8, 8]) \<and>
     perform (all_actions append_twice (pushed (plog s))) [] = [7, 7, 8, 8]"
proof -
  have "\<exists>s rest. gexec 1 2 append_twice append_run (init_psys 1 4, \<lambda>_. [], []) = Some (s, rest, [7, 7, 8, 8]) \<and>
      ps_pc s 1 = Wait_Return 2 \<and> length (pushed (plog s)) = 2"
    by (simp add: append_run_def append_twice_def run_defs pushed_def)
  then obtain s rest where s: "gexec 1 2 append_twice append_run (init_psys 1 4, \<lambda>_. [], []) = Some (s, rest, [7, 7, 8, 8])"
    "ps_pc s 1 = Wait_Return 2" "length (pushed (plog s)) = 2" by blast
  have r: "client_reach 1 4 {1} append_twice [] s rest [7, 7, 8, 8]"
    by (rule gexec_reach [OF s(1)]) (simp_all add: append_run_def submit_run_def list_all_iff)
  have "no_overflow s" using s(3) by (simp add: no_overflow_def)
  with thread_pool_sequential [OF r, of 2] s(1,2) show ?thesis by auto
qed

end
