(* ===== verification/Pool_Programs.thy ===== *)
theory Pool_Programs
  imports Pool_Effects Pool_Termination
begin

text \<open>
  Programs that use a pool: each client thread has a list of calls to make, one after the other, as the
  examples do. Such a program ends under any schedule; what has become of its tasks and of their data
  when it has is shown here for all programs, and once more for a main that destroys the pool at last.
\<close>

section \<open>Programs\<close>

text \<open>
  \<open>se_refused\<close> is a ghost: the tasks for which submit has answered, or is about to answer, an error.
\<close>

record 'g session =
  se_pool :: psys
  se_rest :: "tid \<Rightarrow> ('g \<Rightarrow> 'g) list"
  se_data :: 'g
  se_todo :: "tid \<Rightarrow> pool_call list"
  se_refused :: "(ptr \<times> ptr) list"

definition init_session :: "nat \<Rightarrow> size_t \<Rightarrow> (tid \<Rightarrow> pool_call list) \<Rightarrow> 'g \<Rightarrow> 'g session" where
  "init_session n capacity programs g0 =
     \<lparr>se_pool = init_psys n capacity, se_rest = (\<lambda>_. []), se_data = g0, se_todo = programs, se_refused = []\<rparr>"

fun submits :: "pool_call list \<Rightarrow> (ptr \<times> ptr) list" where
  "submits [] = []"
| "submits (Submit func arg priority # cs) = (func, arg) # submits cs"
| "submits (c # cs) = submits cs"

text \<open>The task that a thread inside submit has not got accepted yet.\<close>

fun offer :: "pool_pc \<Rightarrow> queue_op option \<Rightarrow> (queue_op \<times> queue_res) option \<Rightarrow> (ptr \<times> ptr) list" where
  "offer (Submit_Load func arg priority) op r = [(func, arg)]"
| "offer (Submit_Alloc func arg priority) op r = [(func, arg)]"
| "offer Submit_Push (Some (Push node task)) r = (if put r = 1 then [] else [task_ref task])"
| "offer p op r = []"

definition offered :: "psys \<Rightarrow> tid \<Rightarrow> (ptr \<times> ptr) list" where
  "offered s t = offer (ps_pc s t) (op_of (mpcs (ps_queue s) t)) (res s t)"

definition turned_away :: "psys \<Rightarrow> tid \<Rightarrow> psys \<Rightarrow> (ptr \<times> ptr) list" where
  "turned_away s t s' = (case ps_pc s' t of Submit_Return r \<Rightarrow> offered s t | _ \<Rightarrow> [])"

text \<open>
  A step of thread \<open>t\<close>: of the pool, an action of the task it is in, or its next call; \<open>pool\<close> is the
  pointer that the clients got from creation.
\<close>

inductive program_step :: "nat \<Rightarrow> ptr \<Rightarrow> 'g program \<Rightarrow> tid \<Rightarrow> 'g session \<Rightarrow> 'g session \<Rightarrow> bool"
  for n pool prog t where
  in_pool: "se_rest x t = [] \<Longrightarrow> pstep n t (se_pool x) s' \<Longrightarrow> program_step n pool prog t x
    (x\<lparr>se_pool := s', se_rest := (se_rest x)(t := task_actions prog (ps_pc s' t)),
       se_refused := se_refused x @ turned_away (se_pool x) t s'\<rparr>)"
| action: "se_rest x t = f # fs \<Longrightarrow> program_step n pool prog t x
    (x\<lparr>se_rest := (se_rest x)(t := fs), se_data := f (se_data x)\<rparr>)"
| call: "n \<le> t \<Longrightarrow> se_todo x t = c # cs \<Longrightarrow> ps_pc (se_pool x) t = Idle \<Longrightarrow> \<not> ps_freed (se_pool x) \<Longrightarrow>
    pool_enter pool c (se_pool x) = Inr p \<Longrightarrow> program_step n pool prog t x
    (x\<lparr>se_pool := to t p (se_pool x), se_todo := (se_todo x)(t := cs)\<rparr>)"
| refused: "n \<le> t \<Longrightarrow> se_todo x t = c # cs \<Longrightarrow> ps_pc (se_pool x) t = Idle \<Longrightarrow> \<not> ps_freed (se_pool x) \<Longrightarrow>
    pool_enter pool c (se_pool x) = Inl r \<Longrightarrow> program_step n pool prog t x
    (x\<lparr>se_todo := (se_todo x)(t := cs), se_refused := se_refused x @ submits [c]\<rparr>)"

inductive program_reach ::
  "nat \<Rightarrow> size_t \<Rightarrow> ptr \<Rightarrow> 'g program \<Rightarrow> (tid \<Rightarrow> pool_call list) \<Rightarrow> 'g \<Rightarrow> 'g session \<Rightarrow> bool"
  for n capacity pool prog programs g0 where
  init: "program_reach n capacity pool prog programs g0 (init_session n capacity programs g0)"
| step: "program_reach n capacity pool prog programs g0 x \<Longrightarrow> program_step n pool prog t x x' \<Longrightarrow>
    program_reach n capacity pool prog programs g0 x'"

definition awake_program_step :: "nat \<Rightarrow> ptr \<Rightarrow> 'g program \<Rightarrow> 'g session \<Rightarrow> 'g session \<Rightarrow> bool" where
  "awake_program_step n pool prog x x' \<longleftrightarrow> (\<exists>t. program_step n pool prog t x x' \<and> \<not> asleep (se_pool x) t)"

text \<open>Finitely many clients, which are no workers, with fewer than \<open>2 ^ 64\<close> submits.\<close>

definition client_programs :: "nat \<Rightarrow> (tid \<Rightarrow> pool_call list) \<Rightarrow> bool" where
  "client_programs n programs \<longleftrightarrow> finite {t. programs t \<noteq> []} \<and> (\<forall>t<n. programs t = []) \<and>
     size (total (\<lambda>t. mset (submits (programs t)))) < 2 ^ 64"

text \<open>Of the calls of all programs, those that are submits.\<close>

abbreviation all_submits :: "(tid \<Rightarrow> pool_call list) \<Rightarrow> (ptr \<times> ptr) multiset" where
  "all_submits programs \<equiv> total (\<lambda>t. mset (submits (programs t)))"

lemma init_session_simps [simp]: "se_pool (init_session n capacity programs g0) = init_psys n capacity"
  "se_rest (init_session n capacity programs g0) = (\<lambda>_. [])" "se_data (init_session n capacity programs g0) = g0"
  "se_todo (init_session n capacity programs g0) = programs" "se_refused (init_session n capacity programs g0) = []"
  by (simp_all add: init_session_def)

lemma entered_no_actions: "pool_enter pool c s = Inr p \<Longrightarrow> task_actions prog p = []"
  by (cases c) (auto split: if_splits)

lemma todo_programs: "program_reach n capacity pool prog programs g0 x \<Longrightarrow> programs t = [] \<Longrightarrow> se_todo x t = []"
proof (induction rule: program_reach.induct)
  case (step x u x')
  from step.hyps(2) step.IH [OF step.prems] show ?case by (cases rule: program_step.cases) auto
qed simp

lemma program_client:
  "program_reach n capacity pool prog programs g0 x \<Longrightarrow>
   client_reach n capacity {t. programs t \<noteq> []} prog g0 (se_pool x) (se_rest x) (se_data x)"
proof (induction rule: program_reach.induct)
  case init
  then show ?case using client_reach.init by simp
next
  case (step x t x')
  from step.hyps(2) show ?case
  proof (cases rule: program_step.cases)
    case (in_pool s')
    with client_reach.step [OF step.IH in_pool(2,3)] show ?thesis by (simp del: fun_upd_apply)
  next
    case (action f fs)
    with client_reach.action [OF step.IH action(2)] show ?thesis by (simp del: fun_upd_apply)
  next
    case (call c cs p)
    have "programs t \<noteq> []" using todo_programs [OF step.hyps(1), of t] call(3) by auto
    with call client_reach.enter [OF step.IH, of t] show ?thesis by simp
  next
    case (refused c cs r)
    with step.IH show ?thesis by simp
  qed
qed

lemmas program_preach = client_preach [OF program_client]

section \<open>Every task is accepted or turned away\<close>

lemma submits_append [simp]: "submits (xs @ ys) = submits xs @ submits ys"
  by (induction xs rule: submits.induct) simp_all

lemma submits_Cons: "submits (c # cs) = submits [c] @ submits cs"
  by (cases c) simp_all

lemma offered_idle: "ps_pc s t = Idle \<Longrightarrow> offered s t = []"
  by (simp add: offered_def)

lemma finite_offered: "preach n capacity s \<Longrightarrow> finite {t. mset (offered s t) \<noteq> {#}}"
  by (rule finite_subset [OF _ finite_busy]) (auto simp: offered_idle)

lemma offered_others:
  assumes "preach n capacity s" and "pstep n t s s'" and "u \<noteq> t"
  shows "offered s' u = offered s u"
proof -
  have "op_of (mpcs (ps_queue s') u) = op_of (mpcs (ps_queue s) u)"
    using assms(2)
  proof (cases rule: pstep.cases)
    case (thread cf)
    then show ?thesis using act_queue_others assms(3) by metis
  next
    case (in_queue q')
    from in_queue(3) have "op_of (mpcs q' u) = op_of (mpcs (ps_queue s) u)"
      using assms(3) by (cases rule: mstep.cases) auto
    with in_queue(1) show ?thesis by simp
  qed (use assms(3) in auto)
  with pstep_others [OF assms(2,3)] res_others [OF assms(2,3)] show ?thesis by (auto simp: offered_def)
qed


lemma act_offered:
  assumes "act n cf t p s = Some s'" and "ps_pc s t = p" and "fits p (op_of (mpcs (ps_queue s) t))"
    and "\<And>op r. res s t = Some (op, r) \<Longrightarrow> answer_of op r"
  shows "mset (offered s' t) + mset (turned_away s t s') = mset (offered s t)"
  using assms
  by (cases p) (auto simp: offered_def turned_away_def queue_moves split: if_splits option.splits mpc.splits)

lemma pushed_by_other: "(\<And>node task. op \<noteq> Push node task) \<Longrightarrow> pushed_by (t, op, r) = []"
  by (cases op) auto

lemma pstep_offered:
  assumes r: "preach n capacity s" and st: "pstep n t s s'"
  shows "mset (pushed (plog s')) + mset (offered s' t) + mset (turned_away s t s') =
    mset (pushed (plog s)) + mset (offered s t)"
  using st
proof (cases rule: pstep.cases)
  case (thread cf)
  from act_offered [OF thread(2) refl fits_reach [OF r]] answered(1) [OF r] act_log [OF thread(2)]
  show ?thesis by simp
next
  case (in_queue q')
  have op: "op_of (mpcs q' t) = op_of (mpcs (ps_queue s) t)" if "op_of (mpcs (ps_queue s) t) \<noteq> None"
    using in_queue(3) by (cases rule: mstep.cases) auto
  show ?thesis
  proof (cases "ps_pc s t = Submit_Push")
    case True
    then obtain node task where "op_of (mpcs (ps_queue s) t) = Some (Push node task)"
      using fits_reach [OF r, of t] by auto
    with True op mstep_effect [OF in_queue(3)] in_queue(1) show ?thesis
      by (auto simp: offered_def turned_away_def task_ref_def split: if_splits)
  next
    case False
    have "\<nexists>node task. op_of (mpcs (ps_queue s) t) = Some (Push node task)"
      using False fits_reach [OF r, of t] by (cases "ps_pc s t") auto
    then have "pushed (mlog q') = pushed (plog s)"
      using mstep_effect [OF in_queue(3)] by (auto simp: pushed_by_other)
    with False in_queue(1) show ?thesis by (cases "ps_pc s t") (simp_all add: offered_def turned_away_def)
  qed
next
  case (push f a pr node now op)
  with push_calls(1) [OF push(4)] show ?thesis by (simp add: offered_def turned_away_def task_ref_def)
next
  case (no_memory f a pr now x)
  with push_calls(2) [OF no_memory(4)] show ?thesis by (simp add: offered_def turned_away_def)
next
  case (spurious_wakeup k c)
  then show ?thesis by (simp add: offered_def turned_away_def)
qed

lemma finite_todo_sum:
  assumes "program_reach n capacity pool prog programs g0 x" and "finite {t. programs t \<noteq> []}" and "f [] = 0"
  shows "finite {t. f (se_todo x t) \<noteq> 0}"
  by (rule finite_subset [OF _ assms(2)]) (use todo_programs [OF assms(1)] assms(3) in auto)


lemma no_submits: "(\<And>t. programs t = []) \<Longrightarrow> all_submits programs = {#}"
  by (rule trans [OF total_same total_zero]) simp

text \<open>The ways a task moves from one place to another.\<close>

lemma account_moves:
  fixes a b c d e :: "'a :: comm_monoid_add"
  shows "a + b + c + d = x \<Longrightarrow> a' + b' + e = a + b \<Longrightarrow> a' + b' + c + (d + e) = x"
    and "a + b + c + d = x \<Longrightarrow> c' + e = c \<Longrightarrow> b' = b + e \<Longrightarrow> a + b' + c' + d = x"
    and "a + b + c + d = x \<Longrightarrow> c' + e = c \<Longrightarrow> a + b + c' + (d + e) = x"
  by (metis add.assoc add.commute)+

lemma submits_account: "program_reach n capacity pool prog programs g0 x \<Longrightarrow> finite {t. programs t \<noteq> []} \<Longrightarrow>
   mset (pushed (plog (se_pool x))) + total (\<lambda>t. mset (offered (se_pool x) t)) +
     all_submits (se_todo x) + mset (se_refused x) = all_submits programs"
proof (induction rule: program_reach.induct)
  case init
  have "total (\<lambda>t. mset (offered (init_psys n capacity) t)) = {#}"
    by (rule trans [OF total_same total_zero]) (simp add: offered_def init_psys_def)
  then show ?case by (simp add: init_psys_def init_msys_def)
next
  case (step x t x')
  note r = program_preach [OF step.hyps(1)]
  note IH = step.IH [OF step.prems]
  have todo: "all_submits ((se_todo x)(t := cs)) + mset (submits [c]) = all_submits (se_todo x)"
    if c: "se_todo x t = c # cs" for c cs
  proof -
    have "all_submits ((se_todo x)(t := cs)) + mset (submits (se_todo x t)) =
        all_submits (se_todo x) + mset (submits (((se_todo x)(t := cs)) t))"
      by (rule total_change [OF finite_todo_sum [OF step.hyps(1) step.prems]]) simp_all
    then have "all_submits ((se_todo x)(t := cs)) + mset (submits [c]) + mset (submits cs) =
        all_submits (se_todo x) + mset (submits cs)" using submits_Cons [of c cs] c by (simp add: ac_simps)
    then show ?thesis by (simp only: add_right_cancel)
  qed
  from step.hyps(2) show ?case
  proof (cases rule: program_step.cases)
    case (in_pool s')
    let ?o = "\<lambda>s. total (\<lambda>t. mset (offered s t))"
    have a: "?o s' + mset (offered (se_pool x) t) = ?o (se_pool x) + mset (offered s' t)"
      by (rule total_change [OF finite_offered [OF r]]) (simp add: offered_others [OF r in_pool(3)])
    have b: "mset (pushed (plog s')) + mset (offered s' t) + mset (turned_away (se_pool x) t s') =
        mset (pushed (plog (se_pool x))) + mset (offered (se_pool x) t)"
      by (rule pstep_offered [OF r in_pool(3)])
    have "(mset (pushed (plog s')) + ?o s' + mset (turned_away (se_pool x) t s')) +
          (mset (offered s' t) + mset (offered (se_pool x) t)) =
        (mset (pushed (plog (se_pool x))) + ?o (se_pool x)) + (mset (offered s' t) + mset (offered (se_pool x) t))"
      using arg_cong2 [OF a b, of "(+)"] by (simp only: ac_simps)
    then have c: "mset (pushed (plog s')) + ?o s' + mset (turned_away (se_pool x) t s') =
        mset (pushed (plog (se_pool x))) + ?o (se_pool x)" by (simp only: add_right_cancel)
    from account_moves(1) [OF IH c] in_pool(1) show ?thesis by simp
  next
    case (action f fs)
    with IH show ?thesis by simp
  next
    case (call c cs p)
    let ?s = "se_pool x"
    have o: "offered ?s t = []" using call(4) by (simp add: offered_idle)
    have "offered (to t p ?s) t = submits [c]" using call(6) by (cases c) (auto simp: offered_def split: if_splits)
    moreover have "total (\<lambda>u. mset (offered (to t p ?s) u)) + mset (offered ?s t) =
        total (\<lambda>u. mset (offered ?s u)) + mset (offered (to t p ?s) t)"
      by (rule total_change [OF finite_offered [OF r]]) (simp add: offered_def)
    ultimately have "total (\<lambda>u. mset (offered (to t p ?s) u)) = total (\<lambda>u. mset (offered ?s u)) + mset (submits [c])"
      using o by simp
    from account_moves(2) [OF IH todo [OF call(3)] this] call(1) show ?thesis by (simp del: fun_upd_apply)
  next
    case (refused c cs r)
    from account_moves(3) [OF IH todo [OF refused(3)]] refused(1) show ?thesis by (simp del: fun_upd_apply)
  qed
qed

lemma few_submits:
  assumes "program_reach n capacity pool prog programs g0 x" and "finite {t. programs t \<noteq> []}"
    and "size (all_submits programs) < 2 ^ 64"
  shows "no_overflow (se_pool x)"
  using assms(3) arg_cong [OF submits_account [OF assms(1,2)], of size] by (simp add: no_overflow_def)


section \<open>Programs end\<close>

definition calls_left :: "'g session \<Rightarrow> nat" where
  "calls_left x = total (\<lambda>t. length (se_todo x t))"

definition actions_left :: "'g session \<Rightarrow> nat" where
  "actions_left x = total (\<lambda>t. length (se_rest x t))"

abbreviation program_measure :: "nat \<Rightarrow> ('g session \<times> 'g session) set" where
  "program_measure n \<equiv> measures [calls_left, \<lambda>x. work_left n (se_pool x), \<lambda>x. wakeups_left (se_pool x),
     \<lambda>x. distance (se_pool x), actions_left]"

lemma awake_program_step_measure:
  assumes r: "program_reach n capacity pool prog programs g0 x" and f: "finite {t. programs t \<noteq> []}"
    and st: "awake_program_step n pool prog x x'"
  shows "(x', x) \<in> program_measure n"
proof -
  obtain t where t: "program_step n pool prog t x x'" "\<not> asleep (se_pool x) t"
    using st unfolding awake_program_step_def by blast
  have less: "calls_left x' < calls_left x"
    if "se_todo x t = c # cs" "se_todo x' = (se_todo x)(t := cs)" for c cs
    unfolding calls_left_def by (rule total_decrease [where t = t, OF finite_todo_sum [OF r f]]) (simp_all add: that)
  from t(1) show ?thesis
  proof (cases rule: program_step.cases)
    case (in_pool s')
    have "awake_step n (se_pool x) s'" using in_pool(3) t(2) unfolding awake_step_def by blast
    from awake_step_measure [OF program_preach [OF r] this] in_pool(1) show ?thesis
      by (auto simp: calls_left_def)
  next
    case (action a as)
    have "finite {t. length (se_rest x t) \<noteq> 0}"
      using finite_rest [OF program_client [OF r]] by simp
    then have "actions_left x' < actions_left x"
      unfolding actions_left_def by (rule total_decrease [where t = t]) (simp_all add: action)
    with action(1) show ?thesis by (simp add: calls_left_def)
  next
    case (call c cs p)
    from less [OF call(3)] call(1) show ?thesis by simp
  next
    case (refused c cs y)
    from less [OF refused(3)] refused(1) show ?thesis by simp
  qed
qed

lemma no_infinite_program:
  assumes "program_reach n capacity pool prog programs g0 (run 0)" and "finite {t. programs t \<noteq> []}"
    and "\<And>i. awake_program_step n pool prog (run i) (run (Suc i))"
  shows False
proof -
  have r: "program_reach n capacity pool prog programs g0 (run i)" for i
  proof (induction i)
    case (Suc i)
    with assms(3) [of i] show ?case unfolding awake_program_step_def by (blast intro: program_reach.step)
  qed (rule assms(1))
  have "\<forall>i. (run (Suc i), run i) \<in> program_measure n"
    using awake_program_step_measure [OF r assms(2,3)] by blast
  moreover have "wf (program_measure n)" by simp
  ultimately show False unfolding wf_iff_no_infinite_down_chain by blast
qed

section \<open>The state in which a program ends\<close>

definition ended :: "nat \<Rightarrow> ptr \<Rightarrow> 'g program \<Rightarrow> 'g session \<Rightarrow> bool" where
  "ended n pool prog x \<longleftrightarrow> (\<nexists>x'. awake_program_step n pool prog x x')"

lemma ended_no_step: "ended n pool prog x \<Longrightarrow> program_step n pool prog t x x' \<Longrightarrow> asleep (se_pool x) t"
  unfolding ended_def awake_program_step_def by blast

lemma ended_no_actions:
  assumes r: "program_reach n capacity pool prog programs g0 x" and e: "ended n pool prog x"
  shows "se_rest x t = []"
proof (cases "se_rest x t")
  case (Cons f fs)
  obtain func arg where p: "ps_pc (se_pool x) t = Work_Running func arg"
    using rest_running [OF program_client [OF r], of t] Cons by auto
  then have "mpcs (ps_queue (se_pool x)) t = Outside" using fits_reach [OF program_preach [OF r], of t] by simp
  with p have "\<not> asleep (se_pool x) t" by (simp add: asleep_def)
  with ended_no_step [OF e program_step.action [OF Cons]] show ?thesis by blast
qed

lemma ended_stuck:
  assumes "program_reach n capacity pool prog programs g0 x" and "ended n pool prog x"
  shows "stuck {} n (se_pool x)"
  unfolding stuck_def
  using ended_no_step [OF assms(2) program_step.in_pool [OF ended_no_actions [OF assms]]] by blast

text \<open>Unless the pool has been freed meanwhile, all calls have been made and have returned.\<close>

lemma ended_calls_made:
  assumes r: "program_reach n capacity pool prog programs g0 x" and e: "ended n pool prog x"
    and f: "\<not> ps_freed (se_pool x)" and n: "0 < n" and o: "no_overflow (se_pool x)" and t: "n \<le> t"
  shows "se_todo x t = [] \<and> ps_pc (se_pool x) t = Idle"
proof -
  note r' = program_preach [OF r]
  have i: "ps_pc (se_pool x) t = Idle"
    using stuck_all_done [OF r' f ended_stuck [OF r e] n o] t by blast
  moreover have "mpcs (ps_queue (se_pool x)) t = Outside" using fits_reach [OF r', of t] i by simp
  ultimately have aw: "\<not> asleep (se_pool x) t" by (simp add: asleep_def)
  have "se_todo x t = []"
  proof (cases "se_todo x t")
    case (Cons c cs)
    show ?thesis
    proof (cases "pool_enter pool c (se_pool x)")
      case (Inl y)
      from ended_no_step [OF e program_step.refused [OF t Cons i f Inl]] aw show ?thesis by blast
    next
      case (Inr p)
      from ended_no_step [OF e program_step.call [OF t Cons i f Inr]] aw show ?thesis by blast
    qed
  qed
  with i show ?thesis by blast
qed

text \<open>In either case all tasks that were accepted have been called and have returned.\<close>

lemma freed_all_done:
  assumes r: "preach n capacity s" and f: "ps_freed s" and n: "0 < n"
  shows "contents (mdata (ps_queue s)) = [] \<and> mset (map snd (ps_ran s)) = mset (pushed (plog s))"
proof -
  have w: "ps_pc s j = Work_Exit" if "j < n" for j
    by (rule single_destroyD(4) [OF single_destroy_reach [OF r] f that])
  from exit_logged [OF r w [OF n]] shutdown_drains [OF queue_reach [OF r] new_queue_wf(1)]
  have "contents (mdata (ps_queue s)) = []" "popped (plog s) = pushed (plog s)" by auto
  moreover have "sum_of held s = {#}" by (rule resting_holds_nothing(1) [OF r]) (simp add: w at_rest_def)
  ultimately show ?thesis using tasks_account [OF r] by simp
qed

lemma ended_all_done:
  assumes r: "program_reach n capacity pool prog programs g0 x" and e: "ended n pool prog x"
    and n: "0 < n" and o: "no_overflow (se_pool x)"
  shows "contents (mdata (ps_queue (se_pool x))) = [] \<and>
    mset (map snd (ps_ran (se_pool x))) = mset (pushed (plog (se_pool x)))"
proof (cases "ps_freed (se_pool x)")
  case True
  from freed_all_done [OF program_preach [OF r] True n] show ?thesis .
next
  case False
  from stuck_all_done [OF program_preach [OF r] False ended_stuck [OF r e] n o] show ?thesis by blast
qed


lemma nothing_offered:
  assumes r: "preach n capacity s" and c: "\<And>t. n \<le> t \<Longrightarrow> ps_pc s t = Idle \<or> ps_pc s t = Destroy_Return"
  shows "total (\<lambda>t. mset (offered s t)) = {#}"
proof (rule trans [OF total_same total_zero])
  fix t
  have "is_worker (ps_pc s t) \<or> ps_pc s t = Idle \<or> ps_pc s t = Destroy_Return"
    using placed_reach [OF r] c [of t] by (auto simp: placed_def not_le)
  then show "mset (offered s t) = 0" by (cases "ps_pc s t") (simp_all add: offered_def)
qed

text \<open>
  C4. Programs end. Whatever the client threads call, in whatever order and under any schedule, with
  spurious wake-ups before: the threads that are awake cannot go on for ever; and when none of them can
  step, no task is running, the queue is empty and all accepted tasks have been called; all
  calls have been made and have returned, and each task was either accepted or refused, unless the
  pool has been freed meanwhile.
\<close>

theorem pool_programs_end:
  assumes "program_reach n capacity pool prog programs g0 x" and "client_programs n programs" and "0 < n"
  shows "(\<nexists>run. run 0 = x \<and> (\<forall>i. awake_program_step n pool prog (run i) (run (Suc i)))) \<and>
    (ended n pool prog x \<longrightarrow> (\<forall>t. se_rest x t = []) \<and> contents (mdata (ps_queue (se_pool x))) = [] \<and>
      mset (map snd (ps_ran (se_pool x))) = mset (pushed (plog (se_pool x))) \<and>
      (\<not> ps_freed (se_pool x) \<longrightarrow> (\<forall>t\<ge>n. se_todo x t = [] \<and> ps_pc (se_pool x) t = Idle) \<and>
        mset (pushed (plog (se_pool x))) + mset (se_refused x) = all_submits programs))"
proof (intro conjI impI)
  have p: "finite {t. programs t \<noteq> []}" "\<forall>t<n. programs t = []" "size (all_submits programs) < 2 ^ 64"
    using assms(2) by (simp_all add: client_programs_def)
  show "\<nexists>run. run 0 = x \<and> (\<forall>i. awake_program_step n pool prog (run i) (run (Suc i)))"
    using no_infinite_program [OF _ p(1)] assms(1) by metis
  assume e: "ended n pool prog x"
  note o = few_submits [OF assms(1) p(1,3)]
  show "\<forall>t. se_rest x t = []" using ended_no_actions [OF assms(1) e] by blast
  show "contents (mdata (ps_queue (se_pool x))) = []"
    "mset (map snd (ps_ran (se_pool x))) = mset (pushed (plog (se_pool x)))"
    using ended_all_done [OF assms(1) e assms(3) o] by blast+
  assume f: "\<not> ps_freed (se_pool x)"
  note made = ended_calls_made [OF assms(1) e f assms(3) o]
  show "\<forall>t\<ge>n. se_todo x t = [] \<and> ps_pc (se_pool x) t = Idle" using made by blast
  have "all_submits (se_todo x) = {#}" by (rule no_submits) (metis made not_le p(2) todo_programs [OF assms(1)])
  with submits_account [OF assms(1) p(1)] nothing_offered [OF program_preach [OF assms(1)]] made
  show "mset (pushed (plog (se_pool x))) + mset (se_refused x) = all_submits programs" by auto
qed

section \<open>Tasks whose actions commute\<close>

context action_tasks
begin

lemma program_performed:
  assumes r: "program_reach n capacity pool prog programs g0 x" and e: "ended n pool prog x"
    and n: "0 < n" and o: "no_overflow (se_pool x)" and g: "ok g0"
  shows "se_data x = perform (all_actions prog (pushed (plog (se_pool x)))) g0"
proof -
  from effects_account [OF program_client [OF r]] obtain xs where xs: "se_data x = perform xs g0"
    "mset (all_actions prog (map snd (ps_ran (se_pool x)))) = mset xs + total (\<lambda>t. mset (se_rest x t))" by blast
  have "total (\<lambda>t. mset (se_rest x t)) = {#}"
    by (rule trans [OF total_same total_zero]) (simp add: ended_no_actions [OF r e])
  moreover have "mset (all_actions prog (map snd (ps_ran (se_pool x)))) =
      mset (all_actions prog (pushed (plog (se_pool x))))"
    using ended_all_done [OF r e n o] by (simp only: mset_all_actions)
  ultimately have m: "mset xs = mset (all_actions prog (pushed (plog (se_pool x))))" using xs(2) by simp
  have "set xs \<subseteq> (\<Union>a. set (prog a))" using mset_eq_setD [OF m] by auto
  from order_irrelevant [OF m g this] xs(1) show ?thesis by simp
qed

end

context commuting_tasks
begin

lemma program_done:
  assumes "program_reach n capacity pool (\<lambda>x. [eff x]) programs g0 x" and "ended n pool (\<lambda>x. [eff x]) x"
    and "0 < n" and "no_overflow (se_pool x)"
  shows "se_data x = fold eff (pushed (plog (se_pool x))) g0"
proof -
  have "perform (all_actions (\<lambda>x. [eff x]) xs) g = fold eff xs g" for xs g
    by (induction xs arbitrary: g) simp_all
  with single.program_performed [OF assms] show ?thesis by simp
qed

end

section \<open>A main that destroys its pool at last\<close>

definition main_program :: "tid \<Rightarrow> pool_call list \<Rightarrow> tid \<Rightarrow> pool_call list" where
  "main_program main calls = (\<lambda>_. [])(main := calls @ [Destroy])"

definition before_destroy :: "tid \<Rightarrow> 'g session \<Rightarrow> bool" where
  "before_destroy main x \<longleftrightarrow> (\<exists>cs. se_todo x main = cs @ [Destroy] \<and> Destroy \<notin> set cs) \<and>
     ps_state (se_pool x) = POOL_STATE_RUNNING \<and> ps_pc (se_pool x) main \<noteq> Destroy_Cas \<and> \<not> ps_freed (se_pool x)"

definition past_destroy :: "tid \<Rightarrow> 'g session \<Rightarrow> bool" where
  "past_destroy main x \<longleftrightarrow> se_todo x main = [] \<and>
     (ps_pc (se_pool x) main = Destroy_Cas \<and> ps_state (se_pool x) = POOL_STATE_RUNNING \<and> \<not> ps_freed (se_pool x) \<or>
      destroying (ps_pc (se_pool x) main) \<and> \<not> ps_freed (se_pool x) \<or>
      ps_pc (se_pool x) main = Destroy_Return \<and> ps_freed (se_pool x))"

lemma after_not_cas [simp]: "after_pop r \<noteq> Destroy_Cas" "after_push r \<noteq> Destroy_Cas" "after_size r \<noteq> Destroy_Cas"
  by (cases r; simp)+

lemma act_main:
  assumes "act n cf t p s = Some s'"
  shows "ps_state s' \<noteq> ps_state s \<Longrightarrow> p = Destroy_Cas \<or> destroying p"
    and "ps_freed s' \<noteq> ps_freed s \<Longrightarrow> p = Destroy_Release"
    and "ps_pc s' t \<noteq> Destroy_Cas"
  using assms
  by (cases p; auto simp: queue_moves split: if_splits option.splits mpc.splits; fail)+

lemma act_main_destroy:
  assumes "act n cf t p s = Some s'"
  shows "p = Destroy_Cas \<Longrightarrow> ps_state s = POOL_STATE_RUNNING \<Longrightarrow> destroying (ps_pc s' t)"
    and "destroying p \<Longrightarrow> destroying (ps_pc s' t) \<and> ps_freed s' = ps_freed s \<or> ps_pc s' t = Destroy_Return \<and> ps_freed s'"
  using assms
  by (cases p; auto simp: queue_moves split: if_splits option.splits mpc.splits; fail)+


lemma pstep_main:
  assumes "pstep n t s s'"
  shows "ps_state s' \<noteq> ps_state s \<Longrightarrow> ps_pc s t = Destroy_Cas \<or> destroying (ps_pc s t)"
    and "ps_freed s' \<noteq> ps_freed s \<Longrightarrow> ps_pc s t = Destroy_Release"
    and "ps_pc s t \<noteq> Destroy_Cas \<Longrightarrow> ps_pc s' t \<noteq> Destroy_Cas"
    and "ps_pc s t = Destroy_Cas \<Longrightarrow> ps_state s = POOL_STATE_RUNNING \<Longrightarrow> preach n capacity s \<Longrightarrow> destroying (ps_pc s' t)"
    and "destroying (ps_pc s t) \<Longrightarrow>
      destroying (ps_pc s' t) \<and> ps_freed s' = ps_freed s \<or> ps_pc s' t = Destroy_Return \<and> ps_freed s'"
proof -
  show "ps_state s' \<noteq> ps_state s \<Longrightarrow> ps_pc s t = Destroy_Cas \<or> destroying (ps_pc s t)"
    using assms by (cases rule: pstep.cases) (auto dest: act_main(1))
  show "ps_freed s' \<noteq> ps_freed s \<Longrightarrow> ps_pc s t = Destroy_Release"
    using assms by (cases rule: pstep.cases) (auto dest: act_main(2))
  show "ps_pc s t \<noteq> Destroy_Cas \<Longrightarrow> ps_pc s' t \<noteq> Destroy_Cas"
    using assms by (cases rule: pstep.cases) (auto dest: act_main(3))
  show "destroying (ps_pc s t) \<Longrightarrow>
      destroying (ps_pc s' t) \<and> ps_freed s' = ps_freed s \<or> ps_pc s' t = Destroy_Return \<and> ps_freed s'"
    using assms by (cases rule: pstep.cases) (auto dest: act_main_destroy(2))
  assume c: "ps_pc s t = Destroy_Cas" "ps_state s = POOL_STATE_RUNNING" and r: "preach n capacity s"
  have o: "mpcs (ps_queue s) t = Outside" using fits_reach [OF r, of t] c(1) by simp
  show "destroying (ps_pc s' t)"
    using assms
  proof (cases rule: pstep.cases)
    case (thread cf)
    from act_main_destroy(1) [OF thread(2) c] show ?thesis .
  next
    case (in_queue q')
    with o show ?thesis by (auto elim: mstep.cases)
  qed (use c in auto)
qed

lemma main_step:
  assumes r: "preach n capacity s" and i: "\<And>t. n \<le> t \<Longrightarrow> t \<noteq> main \<Longrightarrow> ps_pc s t = Idle" and m: "n \<le> main"
    and st: "pstep n t s s'" and t: "t \<noteq> main"
  shows "ps_state s' = ps_state s \<and> ps_freed s' = ps_freed s \<and>
    (ps_pc s' main = ps_pc s main \<or> (\<exists>k c. ps_pc s main = Wait_Sleep k c \<and> ps_pc s' main = Wait_Woken k))"
proof -
  have "is_worker (ps_pc s t) \<or> ps_pc s t = Idle"
    using placed_reach [OF r] i [of t] t by (auto simp: placed_def not_le)
  then have "ps_pc s t \<noteq> Destroy_Cas \<and> \<not> destroying (ps_pc s t) \<and> ps_pc s t \<noteq> Destroy_Release"
    by (cases "ps_pc s t") auto
  with pstep_main(1,2) [OF st] pstep_others [OF st, of main] t show ?thesis by blast
qed

text \<open>The pool runs until main destroys it, and then main has nothing else to do.\<close>

lemma main_inv_pool_step:
  assumes r: "preach n capacity (se_pool x)" and i: "\<And>t. n \<le> t \<Longrightarrow> t \<noteq> main \<Longrightarrow> ps_pc (se_pool x) t = Idle"
    and m: "n \<le> main" and st: "pstep n t (se_pool x) s'" and inv: "before_destroy main x \<or> past_destroy main x"
    and x': "se_pool x' = s'" "se_todo x' = se_todo x"
  shows "before_destroy main x' \<or> past_destroy main x'"
proof (cases "t = main")
  case False
  from main_step [OF r i m st False] inv x' show ?thesis
    unfolding before_destroy_def past_destroy_def by auto
next
  case True
  note st' = st [unfolded True]
  have f: "\<not> ps_freed (se_pool x)" using st by (cases rule: pstep.cases)
  from inv show ?thesis
  proof
    assume b: "before_destroy main x"
    then have run: "ps_state (se_pool x) = POOL_STATE_RUNNING" "ps_pc (se_pool x) main \<noteq> Destroy_Cas"
      by (simp_all add: before_destroy_def)
    have "\<not> destroying (ps_pc (se_pool x) main)" by (rule single_destroyD(2) [OF single_destroy_reach [OF r] run(1)])
    then have "ps_pc (se_pool x) main \<noteq> Destroy_Release" "ps_state s' = ps_state (se_pool x)"
      using pstep_main(1) [OF st'] run(2) by auto
    with pstep_main(2) [OF st'] pstep_main(3) [OF st' run(2)] b x' show ?thesis
      by (auto simp: before_destroy_def)
  next
    assume d: "past_destroy main x"
    then consider (cas) "ps_pc (se_pool x) main = Destroy_Cas" "ps_state (se_pool x) = POOL_STATE_RUNNING"
      | (on) "destroying (ps_pc (se_pool x) main)" using f by (auto simp: past_destroy_def)
    then show ?thesis
    proof cases
      case cas
      from pstep_main(2) [OF st'] pstep_main(4) [OF st' cas r] cas(1) d f x' show ?thesis
        by (auto simp: past_destroy_def)
    next
      case on
      from pstep_main(5) [OF st' on] d f x' show ?thesis by (auto simp: past_destroy_def)
    qed
  qed
qed

lemma main_programs:
  assumes "n \<le> main" and "length calls < 2 ^ 64"
  shows "client_programs n (main_program main calls)" and "all_submits (main_program main calls) = mset (submits calls)"
proof -
  have l: "length (submits cs) \<le> length cs" for cs by (induction cs rule: submits.induct) simp_all
  have "total (\<lambda>t. mset (submits (main_program main calls t))) = sum (\<lambda>t. mset (submits (main_program main calls t))) {main}"
    by (rule total_superset) (auto simp: main_program_def)
  then show s: "all_submits (main_program main calls) = mset (submits calls)" by (simp add: main_program_def)
  have "finite {t. main_program main calls t \<noteq> []}" by (rule finite_subset [of _ "{main}"]) (auto simp: main_program_def)
  moreover have "\<forall>t<n. main_program main calls t = []" using assms(1) by (simp add: main_program_def)
  ultimately show "client_programs n (main_program main calls)"
    using s l [of calls] assms(2) by (simp add: client_programs_def)
qed

lemma main_inv:
  "program_reach n capacity pool prog (main_program main calls) g0 x \<Longrightarrow> n \<le> main \<Longrightarrow> pool \<noteq> NULL \<Longrightarrow>
   Destroy \<notin> set calls \<Longrightarrow> before_destroy main x \<or> past_destroy main x"
proof (induction rule: program_reach.induct)
  case init
  then show ?case by (auto simp: before_destroy_def main_program_def init_psys_def)
next
  case (step x t x')
  note IH = step.IH [OF step.prems]
  have idle: "ps_pc (se_pool x) u = Idle" if "n \<le> u" "u \<noteq> main" for u
    by (rule others_idle [OF program_client [OF step.hyps(1)] that(1)]) (use that(2) in \<open>simp add: main_program_def\<close>)
  have main: "t = main" if "se_todo x t = c # cs" for c cs
    using todo_programs [OF step.hyps(1), of t] that by (cases "t = main") (auto simp: main_program_def)
  from step.hyps(2) show ?case
  proof (cases rule: program_step.cases)
    case (in_pool s')
    then have x': "se_pool x' = s'" "se_todo x' = se_todo x" by simp_all
    show ?thesis
      by (rule main_inv_pool_step [OF program_preach [OF step.hyps(1)] idle step.prems(1) in_pool(3) IH x'])
  next
    case (action f fs)
    with IH show ?thesis by (simp add: before_destroy_def past_destroy_def)
  next
    case (call c cs p)
    then have b: "before_destroy main x" using IH main [OF call(3)] by (auto simp: past_destroy_def)
    then obtain ds where ds: "c # cs = ds @ [Destroy]" "Destroy \<notin> set ds"
      using call(3) main [OF call(3)] by (auto simp: before_destroy_def)
    show ?thesis
    proof (cases ds)
      case Nil
      with ds call main [OF call(3)] b show ?thesis by (auto simp: before_destroy_def past_destroy_def split: if_splits)
    next
      case (Cons d ds')
      then have "c \<noteq> Destroy" "p \<noteq> Destroy_Cas" using ds call(6) by (cases c; auto split: if_splits)+
      with ds call main [OF call(3)] b Cons show ?thesis by (auto simp: before_destroy_def)
    qed
  next
    case (refused c cs r)
    then have b: "before_destroy main x" using IH main [OF refused(3)] by (auto simp: past_destroy_def)
    moreover have "c \<noteq> Destroy" using refused(6) step.prems(2) by auto
    ultimately show ?thesis using refused(1,3) main [OF refused(3)]
      by (auto simp: before_destroy_def Cons_eq_append_conv)
  qed
qed

text \<open>How a program of main ends.\<close>

lemma main_program_end:
  assumes r: "program_reach n capacity pool prog (main_program main calls) g0 x" and n: "0 < n" "n \<le> main"
    and p: "pool \<noteq> NULL" "Destroy \<notin> set calls" "length calls < 2 ^ 64" and e: "ended n pool prog x"
  shows "ps_freed (se_pool x)" and "se_todo x main = []" and "ps_pc (se_pool x) main = Destroy_Return"
    and "no_overflow (se_pool x)"
    and "mset (pushed (plog (se_pool x))) + mset (se_refused x) = mset (submits calls)"
proof -
  note c = main_programs [OF n(2) p(3)]
  then have fin: "finite {t. main_program main calls t \<noteq> []}" and small: "size (all_submits (main_program main calls)) < 2 ^ 64"
    by (simp_all add: client_programs_def)
  note inv = main_inv [OF r n(2) p(1,2)]
  show o: "no_overflow (se_pool x)" by (rule few_submits [OF r fin small])
  show f: "ps_freed (se_pool x)"
  proof (rule ccontr)
    assume "\<not> ps_freed (se_pool x)"
    from ended_calls_made [OF r e this n(1) o n(2)] inv show False
      by (auto simp: before_destroy_def past_destroy_def)
  qed
  with inv have d: "past_destroy main x" by (simp add: before_destroy_def)
  then show t: "se_todo x main = []" by (simp add: past_destroy_def)
  from d f single_destroyD(3) [OF single_destroy_reach [OF program_preach [OF r]] f, of main]
  show pc: "ps_pc (se_pool x) main = Destroy_Return" by (auto simp: past_destroy_def)
  have other: "se_todo x u = []" if "u \<noteq> main" for u
    by (rule todo_programs [OF r]) (use that in \<open>simp add: main_program_def\<close>)
  have "ps_pc (se_pool x) u = Idle \<or> ps_pc (se_pool x) u = Destroy_Return" if "n \<le> u" for u
    using others_idle [OF program_client [OF r] that] pc by (cases "u = main") (auto simp: main_program_def)
  from nothing_offered [OF program_preach [OF r] this] submits_account [OF r fin] no_submits [of "se_todo x"] other t c(2)
  show "mset (pushed (plog (se_pool x))) + mset (se_refused x) = mset (submits calls)" by (metis add.right_neutral)
qed


section \<open>A main that submits, waits and destroys\<close>

text \<open>The shape of most clients; \<open>sthread_pool_submit\<close> passes the normal priority.\<close>

definition submit_calls :: "(ptr \<times> ptr) list \<Rightarrow> pool_call list" where
  "submit_calls xs = map (\<lambda>(func, arg). Submit func arg TASK_PRIORITY_NORMAL) xs"

lemma submits_of_calls [simp]: "submits (submit_calls xs) = xs" "length (submit_calls xs) = length xs"
  "Destroy \<notin> set (submit_calls xs)"
  by (induction xs) (auto simp: submit_calls_def)

abbreviation batch_program :: "tid \<Rightarrow> (ptr \<times> ptr) list \<Rightarrow> tid \<Rightarrow> pool_call list" where
  "batch_program main xs \<equiv> (\<lambda>_. [])(main := submit_calls xs @ [Wait, Destroy])"

lemma batch_program_main: "batch_program main xs = main_program main (submit_calls xs @ [Wait])"
  by (simp add: main_program_def)

lemma batch_programs:
  assumes "n \<le> main" and "Suc (length xs) < 2 ^ 64"
  shows "client_programs n (batch_program main xs)" and "all_submits (batch_program main xs) = mset xs"
  unfolding batch_program_main using main_programs [OF assms(1), of "submit_calls xs @ [Wait]"] assms(2) by simp_all

lemma batch_no_overflow:
  assumes "program_reach n capacity pool prog (batch_program main xs) g0 x" and "n \<le> main" and "Suc (length xs) < 2 ^ 64"
  shows "no_overflow (se_pool x)" and "mset (pushed (plog (se_pool x))) \<subseteq># mset xs"
proof -
  note c = batch_programs [OF assms(2,3)]
  then have f: "finite {t. batch_program main xs t \<noteq> []}" and s: "size (all_submits (batch_program main xs)) < 2 ^ 64"
    by (simp_all add: client_programs_def)
  show "no_overflow (se_pool x)" by (rule few_submits [OF assms(1) f s])
  show "mset (pushed (plog (se_pool x))) \<subseteq># mset xs"
    unfolding submits_account [OF assms(1) f, unfolded c(2), symmetric] by (simp add: add.assoc)
qed

lemma batch_client:
  assumes "program_reach n capacity pool prog (batch_program main xs) g0 x"
  shows "client_reach n capacity {main} prog g0 (se_pool x) (se_rest x) (se_data x)"
proof -
  have "{t. batch_program main xs t \<noteq> []} = {main}" by auto
  with program_client [OF assms] show ?thesis by (simp del: fun_upd_apply)
qed

lemma batch_no_infinite_run:
  assumes "program_reach n capacity pool prog (batch_program main xs) g0 x" and "n \<le> main" and "Suc (length xs) < 2 ^ 64"
  shows "\<nexists>run. run 0 = x \<and> (\<forall>i. awake_program_step n pool prog (run i) (run (Suc i)))"
proof -
  have "finite {t. batch_program main xs t \<noteq> []}"
    using batch_programs(1) [OF assms(2,3)] by (simp add: client_programs_def)
  from no_infinite_program [OF _ this] assms(1) show ?thesis by metis
qed

lemma batch_end:
  assumes "program_reach n capacity pool prog (batch_program main xs) g0 x" and "0 < n" "n \<le> main"
    and "pool \<noteq> NULL" "Suc (length xs) < 2 ^ 64" and "ended n pool prog x"
  shows "ps_freed (se_pool x)" and "se_todo x main = []"
    and "mset (pushed (plog (se_pool x))) + mset (se_refused x) = mset xs"
proof -
  have "Destroy \<notin> set (submit_calls xs @ [Wait])" "length (submit_calls xs @ [Wait]) < 2 ^ 64" using assms(5) by simp_all
  from main_program_end [OF assms(1) [unfolded batch_program_main] assms(2-4) this assms(6)]
  show "ps_freed (se_pool x)" "se_todo x main = []"
    "mset (pushed (plog (se_pool x))) + mset (se_refused x) = mset xs" by simp_all
qed

section \<open>Concrete runs\<close>

lemma freed_ended:
  assumes r: "program_reach n capacity pool prog programs g0 x" and f: "ps_freed (se_pool x)"
  shows "ended n pool prog x"
proof -
  note r' = program_preach [OF r]
  have "se_rest x t = []" for t
  proof (rule rest_empty [OF program_client [OF r]])
    fix func arg
    show "ps_pc (se_pool x) t \<noteq> Work_Running func arg"
    proof
      assume p: "ps_pc (se_pool x) t = Work_Running func arg"
      then have "t < n" using placed_reach [OF r'] by (metis is_worker.simps(6) placed_def)
      with single_destroyD(4) [OF single_destroy_reach [OF r'] f] p show False by auto
    qed
  qed
  moreover have "\<not> pstep n t (se_pool x) s'" for t s' using f by (auto elim: pstep.cases)
  ultimately show ?thesis using f unfolding ended_def awake_program_step_def
    by (auto elim!: program_step.cases)
qed

text \<open>The scheduler of Pool_Effects for programs: a call has to be the next of its client.\<close>

fun program_exec :: "nat \<Rightarrow> nat \<Rightarrow> 'g program \<Rightarrow> (tid \<times> pool_action) list \<Rightarrow> 'g session \<Rightarrow> 'g session option" where
  "program_exec n m prog [] x = Some x"
| "program_exec n m prog ((t, a) # as) x =
     (case se_rest x t of
        f # fs \<Rightarrow> program_exec n m prog as (x\<lparr>se_rest := (se_rest x)(t := fs), se_data := f (se_data x)\<rparr>)
      | [] \<Rightarrow> if ps_freed (se_pool x) then None else
        (case pexec1 n m (t, a) (se_pool x) of None \<Rightarrow> None
         | Some s' \<Rightarrow> (case a of
             Enter c \<Rightarrow> (case se_todo x t of [] \<Rightarrow> None
               | d # cs \<Rightarrow> if c = d then program_exec n m prog as (x\<lparr>se_pool := s', se_todo := (se_todo x)(t := cs)\<rparr>) else None)
           | _ \<Rightarrow> program_exec n m prog as (x\<lparr>se_pool := s', se_rest := (se_rest x)(t := task_actions prog (ps_pc s' t)),
               se_refused := se_refused x @ turned_away (se_pool x) t s'\<rparr>))))"

lemma program_exec_reach_from:
  "program_reach n capacity 1 prog programs g0 x \<Longrightarrow> \<forall>t\<ge>m. ps_pc (se_pool x) t = Idle \<Longrightarrow>
   program_exec n m prog as x = Some x' \<Longrightarrow> program_reach n capacity 1 prog programs g0 x'"
proof (induction as arbitrary: x)
  case (Cons ta as)
  obtain t a where ta: "ta = (t, a)" by (cases ta)
  show ?case
  proof (cases "se_rest x t")
    case left: (Cons f fs)
    with Cons.prems(3) ta
    have e: "program_exec n m prog as (x\<lparr>se_rest := (se_rest x)(t := fs), se_data := f (se_data x)\<rparr>) = Some x'" by simp
    show ?thesis
      by (rule Cons.IH [OF program_reach.step [OF Cons.prems(1) program_step.action [OF left]] _ e]) (use Cons.prems(2) in simp)
  next
    case rest: Nil
    with Cons.prems(3) ta obtain s1 where f: "\<not> ps_freed (se_pool x)" and e: "pexec1 n m (t, a) (se_pool x) = Some s1"
      by (auto split: option.splits if_splits simp del: pexec1.simps)
    note idle = conjunct2 [OF pexec1_reach [OF program_preach [OF Cons.prems(1)] Cons.prems(2) f e]]
    show ?thesis
    proof (cases "\<exists>c. a = Enter c")
      case True
      then obtain c where c: "a = Enter c" by blast
      with Cons.prems(3) ta rest f e obtain cs where cs: "se_todo x t = c # cs"
        "program_exec n m prog as (x\<lparr>se_pool := s1, se_todo := (se_todo x)(t := cs)\<rparr>) = Some x'"
        by (auto split: list.splits if_splits simp del: pexec1.simps)
      from pexec1_enter [OF e [unfolded c]] obtain p where p: "n \<le> t" "ps_pc (se_pool x) t = Idle"
        "pool_enter 1 c (se_pool x) = Inr p" "s1 = to t p (se_pool x)" by blast
      from program_reach.step [OF Cons.prems(1) program_step.call [OF p(1) cs(1) p(2) f p(3)]]
      show ?thesis using Cons.IH [OF _ _ cs(2)] idle p(4) by simp
    next
      case False
      with Cons.prems(3) ta rest f e have "program_exec n m prog as (x\<lparr>se_pool := s1,
          se_rest := (se_rest x)(t := task_actions prog (ps_pc s1 t)),
          se_refused := se_refused x @ turned_away (se_pool x) t s1\<rparr>) = Some x'"
        by (cases a) (simp_all del: pexec1.simps)
      moreover have "pstep n t (se_pool x) s1"
        using pexec1_pstep [OF program_preach [OF Cons.prems(1)] Cons.prems(2) f e] False by blast
      ultimately show ?thesis
        using Cons.IH [OF program_reach.step [OF Cons.prems(1) program_step.in_pool [OF rest]]] idle by simp
    qed
  qed
qed simp

lemma program_exec_reach:
  assumes "program_exec n m prog as (init_session n capacity programs g0) = Some x" and "n \<le> m"
  shows "program_reach n capacity 1 prog programs g0 x"
  by (rule program_exec_reach_from [OF program_reach.init _ assms(1)]) (use assms(2) in \<open>simp add: init_psys_def\<close>)

text \<open>One task, appended to a list by the only worker; main submits it and destroys the pool.\<close>

definition submit_destroy_run :: "(tid \<times> pool_action) list" where
  "submit_destroy_run = submit_run 1 64 7 @ steps 1 2 @ [(1, Enter Destroy)] @ steps 1 10 @ steps 0 27 @ steps 1 5"

lemma pool_programs_end_witness:
  "\<exists>x. program_exec 1 2 append_twice submit_destroy_run
       (init_session 1 4 (main_program 1 [Submit 4096 7 TASK_PRIORITY_NORMAL]) []) = Some x \<and>
     ended 1 1 append_twice x \<and> mset (map snd (ps_ran (se_pool x))) = {#(4096, 7)#} \<and> se_data x = [7, 7]"
proof -
  let ?x = "program_exec 1 2 append_twice submit_destroy_run
    (init_session 1 4 (main_program 1 [Submit 4096 7 TASK_PRIORITY_NORMAL]) [])"
  have "map_option (\<lambda>x. (pushed (plog (se_pool x)), ps_freed (se_pool x), se_data x)) ?x = Some ([(4096, 7)], True, [7, 7])"
    by (simp add: submit_destroy_run_def append_twice_def run_defs pushed_def init_session_def main_program_def)
  then obtain x where x: "?x = Some x" "pushed (plog (se_pool x)) = [(4096, 7)]" "ps_freed (se_pool x)" "se_data x = [7, 7]"
    by auto
  have r: "program_reach 1 4 1 append_twice (main_program 1 [Submit 4096 7 TASK_PRIORITY_NORMAL]) [] x"
    by (rule program_exec_reach [OF x(1)]) simp
  have e: "ended 1 1 append_twice x" by (rule freed_ended [OF r x(3)])
  have "client_programs 1 (main_program 1 [Submit 4096 7 TASK_PRIORITY_NORMAL])" by (rule main_programs(1)) simp_all
  from pool_programs_end [OF r this] e x show ?thesis by auto
qed

end
