(* ===== verification/Matrix_Multiply.thy ===== *)
theory Matrix_Multiply
  imports Prelude "HOL-Library.Multiset"
begin

text \<open>
  examples/matrix_multiply.c: the product of two matrices, sequential and as tasks on the pool, one
  per block of rows. The element type and its arithmetic are parameters, so that the results hold
  for the IEEE doubles of C as for any other numbers. Undefined behaviour (NULL, an index outside of
  the array, an \<open>int\<close> overflow) is None. Matrix_Pool runs the tasks on the pool.
\<close>

section \<open>Data\<close>

record 'a matrix =
  m_data :: "'a list"
  m_rows :: int
  m_cols :: int

record row_task =
  rt_A :: ptr
  rt_B :: ptr
  rt_C :: ptr
  rt_start_row :: int
  rt_end_row :: int

record 'a arith =
  zero_of :: 'a
  plus_of :: "'a \<Rightarrow> 'a \<Rightarrow> 'a"
  times_of :: "'a \<Rightarrow> 'a \<Rightarrow> 'a"

type_synonym 'a matrices = "ptr \<Rightarrow> 'a matrix option"

definition int_range :: "int \<Rightarrow> bool" where
  "int_range i \<longleftrightarrow> - (2 ^ 31) \<le> i \<and> i < 2 ^ 31"

section \<open>Operations\<close>

text \<open>
  \<open>block\<close> is the answer of malloc for the structure, \<open>data\<close> whether calloc succeeds. The result is
  the pointer returned, NULL on failure.
\<close>

definition matrix_create ::
  "'a arith \<Rightarrow> ptr \<Rightarrow> bool \<Rightarrow> int \<Rightarrow> int \<Rightarrow> 'a matrices \<Rightarrow> ('a matrices \<times> ptr) option" where
  "matrix_create ar block data rows cols h =
     (if block = NULL then Some (h, NULL)
      else if \<not> int_range (rows * cols) then None
      else if \<not> data \<or> rows * cols < 0 then Some (h, NULL)
      else Some (h(block \<mapsto> \<lparr>m_data = replicate (nat (rows * cols)) (zero_of ar), m_rows = rows, m_cols = cols\<rparr>), block))"

definition matrix_destroy :: "ptr \<Rightarrow> 'a matrices \<Rightarrow> 'a matrices option" where
  "matrix_destroy m h =
     (if m = NULL then Some h else case h m of None \<Rightarrow> None | Some _ \<Rightarrow> Some (h(m := None)))"

definition cell_index :: "'a matrix \<Rightarrow> int \<Rightarrow> int \<Rightarrow> nat option" where
  "cell_index m row col =
     (if int_range (row * m_cols m) \<and> int_range (row * m_cols m + col) \<and>
        0 \<le> row * m_cols m + col \<and> nat (row * m_cols m + col) < length (m_data m)
      then Some (nat (row * m_cols m + col)) else None)"

definition matrix_get :: "'a matrix \<Rightarrow> int \<Rightarrow> int \<Rightarrow> 'a option" where
  "matrix_get m row col = map_option (\<lambda>i. m_data m ! i) (cell_index m row col)"

definition matrix_set :: "'a matrix \<Rightarrow> int \<Rightarrow> int \<Rightarrow> 'a \<Rightarrow> 'a matrix option" where
  "matrix_set m row col val = map_option (\<lambda>i. m\<lparr>m_data := (m_data m)[i := val]\<rparr>) (cell_index m row col)"

text \<open>\<open>answers i\<close> is the i-th answer of rand, not negative; \<open>tenth\<close> is the division by 10.0.\<close>

definition matrix_randomize :: "(nat \<Rightarrow> int) \<Rightarrow> (int \<Rightarrow> 'a) \<Rightarrow> 'a matrix \<Rightarrow> 'a matrix option" where
  "matrix_randomize answers tenth m =
     (if \<not> int_range (m_rows m * m_cols m) \<or> length (m_data m) < nat (m_rows m * m_cols m) then None
      else Some (m\<lparr>m_data := map (\<lambda>i. tenth (answers i mod 100)) [0..<nat (m_rows m * m_cols m)] @
        drop (nat (m_rows m * m_cols m)) (m_data m)\<rparr>))"

text \<open>The inner loop: the sum over \<open>k\<close>, in this order.\<close>

fun dot :: "'a arith \<Rightarrow> 'a matrix \<Rightarrow> 'a matrix \<Rightarrow> int \<Rightarrow> int \<Rightarrow> int list \<Rightarrow> 'a \<Rightarrow> 'a option" where
  "dot ar A B i j [] acc = Some acc"
| "dot ar A B i j (k # ks) acc =
     (case matrix_get A i k of None \<Rightarrow> None | Some x \<Rightarrow>
      case matrix_get B k j of None \<Rightarrow> None | Some y \<Rightarrow>
        dot ar A B i j ks (plus_of ar acc (times_of ar x y)))"

text \<open>One element of the result: its sum is computed and stored.\<close>

definition compute_cell ::
  "'a arith \<Rightarrow> ptr \<Rightarrow> ptr \<Rightarrow> ptr \<Rightarrow> int \<times> int \<Rightarrow> 'a matrices \<Rightarrow> 'a matrices option" where
  "compute_cell ar a b c ij h =
     (case h a of None \<Rightarrow> None | Some A \<Rightarrow>
      case h b of None \<Rightarrow> None | Some B \<Rightarrow>
      case dot ar A B (fst ij) (snd ij) [0..m_cols A - 1] (zero_of ar) of None \<Rightarrow> None | Some acc \<Rightarrow>
      case h c of None \<Rightarrow> None | Some C \<Rightarrow>
        map_option (\<lambda>C'. h(c \<mapsto> C')) (matrix_set C (fst ij) (snd ij) acc))"

fun compute_cells ::
  "'a arith \<Rightarrow> ptr \<Rightarrow> ptr \<Rightarrow> ptr \<Rightarrow> (int \<times> int) list \<Rightarrow> 'a matrices \<Rightarrow> 'a matrices option" where
  "compute_cells ar a b c [] h = Some h"
| "compute_cells ar a b c (ij # ijs) h =
     (case compute_cell ar a b c ij h of None \<Rightarrow> None | Some h' \<Rightarrow> compute_cells ar a b c ijs h')"

text \<open>The elements in the order of the two outer loops.\<close>

definition row_cells :: "int \<Rightarrow> int \<Rightarrow> int \<Rightarrow> (int \<times> int) list" where
  "row_cells from until cols = concat (map (\<lambda>i. map (Pair i) [0..cols - 1]) [from..until - 1])"

definition compute_rows :: "'a arith \<Rightarrow> row_task \<Rightarrow> 'a matrices \<Rightarrow> 'a matrices option" where
  "compute_rows ar task h =
     (case h (rt_B task) of None \<Rightarrow> None | Some B \<Rightarrow>
        compute_cells ar (rt_A task) (rt_B task) (rt_C task)
          (row_cells (rt_start_row task) (rt_end_row task) (m_cols B)) h)"

definition matrix_multiply_sequential ::
  "'a arith \<Rightarrow> ptr \<Rightarrow> ptr \<Rightarrow> ptr \<Rightarrow> 'a matrices \<Rightarrow> 'a matrices option" where
  "matrix_multiply_sequential ar a b c h =
     (case h a of None \<Rightarrow> None | Some A \<Rightarrow>
      case h b of None \<Rightarrow> None | Some B \<Rightarrow> compute_cells ar a b c (row_cells 0 (m_rows A) (m_cols B)) h)"

text \<open>The loop that fills the array of tasks; the division is C's, of non-negative numbers.\<close>

definition row_tasks :: "ptr \<Rightarrow> ptr \<Rightarrow> ptr \<Rightarrow> int \<Rightarrow> int \<Rightarrow> row_task list" where
  "row_tasks a b c rows num_threads =
     (let rows_per_thread = rows div num_threads in
      map (\<lambda>t. \<lparr>rt_A = a, rt_B = b, rt_C = c, rt_start_row = t * rows_per_thread,
          rt_end_row = (if t = num_threads - 1 then rows else (t + 1) * rows_per_thread)\<rparr>)
        [0..num_threads - 1])"

text \<open>
  The tasks running on the pool: at each step one of them computes its next element. The elements
  of A and B are only read, so a finer interleaving of the loads makes no difference.
\<close>

inductive tasks_run ::
  "'a arith \<Rightarrow> ptr \<Rightarrow> ptr \<Rightarrow> ptr \<Rightarrow> (int \<times> int) list list \<Rightarrow> 'a matrices \<Rightarrow> 'a matrices option \<Rightarrow> bool"
  for ar a b c where
  finished: "\<forall>cells\<in>set todo. cells = [] \<Longrightarrow> tasks_run ar a b c todo h (Some h)"
| step: "t < length todo \<Longrightarrow> todo ! t = ij # ijs \<Longrightarrow> compute_cell ar a b c ij h = Some h' \<Longrightarrow>
    tasks_run ar a b c (todo[t := ijs]) h' r \<Longrightarrow> tasks_run ar a b c todo h r"
| undefined: "t < length todo \<Longrightarrow> todo ! t = ij # ijs \<Longrightarrow> compute_cell ar a b c ij h = None \<Longrightarrow>
    tasks_run ar a b c todo h None"

text \<open>
  The result of the parallel product, over the interleavings: the pool could be created, the tasks
  were allocated and accepted.
\<close>

definition matrix_multiply_parallel ::
  "'a arith \<Rightarrow> ptr \<Rightarrow> ptr \<Rightarrow> ptr \<Rightarrow> int \<Rightarrow> 'a matrices \<Rightarrow> 'a matrices option \<Rightarrow> bool" where
  "matrix_multiply_parallel ar a b c num_threads h r \<longleftrightarrow>
     (\<exists>A B. h a = Some A \<and> h b = Some B \<and>
        tasks_run ar a b c
          (map (\<lambda>task. row_cells (rt_start_row task) (rt_end_row task) (m_cols B))
             (row_tasks a b c (m_rows A) num_threads)) h r)"

text \<open>\<open>close\<close> is the negation of \<open>fabs(x - y) > epsilon\<close>.\<close>

definition matrix_equals :: "('a \<Rightarrow> 'a \<Rightarrow> bool) \<Rightarrow> 'a matrix \<Rightarrow> 'a matrix \<Rightarrow> bool" where
  "matrix_equals close A B \<longleftrightarrow> m_rows A = m_rows B \<and> m_cols A = m_cols B \<and>
     list_all (\<lambda>i. close (m_data A ! nat i) (m_data B ! nat i)) [0..m_rows A * m_cols A - 1]"

section \<open>Well-formed matrices\<close>

definition wf_matrix :: "'a matrix \<Rightarrow> bool" where
  "wf_matrix m \<longleftrightarrow> 0 \<le> m_rows m \<and> 0 \<le> m_cols m \<and> m_rows m * m_cols m < 2 ^ 31 \<and>
     length (m_data m) = nat (m_rows m * m_cols m)"

lemma cell_index_bound:
  fixes i j r c :: int
  assumes "0 \<le> i" "i < r" "0 \<le> j" "j < c"
  shows "0 \<le> i * c" "i * c + j < r * c"
proof -
  show "0 \<le> i * c" using assms by simp
  have "i * c + j < (i + 1) * c" using assms by (simp add: algebra_simps)
  also have "\<dots> \<le> r * c" using assms by (intro mult_right_mono) auto
  finally show "i * c + j < r * c" .
qed

lemma cell_index_wf:
  assumes "wf_matrix m" "0 \<le> i" "i < m_rows m" "0 \<le> j" "j < m_cols m"
  shows "cell_index m i j = Some (nat (i * m_cols m + j))" "nat (i * m_cols m + j) < length (m_data m)"
proof -
  note b = cell_index_bound [OF assms(2-5)]
  then have "int_range (i * m_cols m)" "int_range (i * m_cols m + j)"
    using assms unfolding wf_matrix_def int_range_def by linarith+
  then show "cell_index m i j = Some (nat (i * m_cols m + j))" "nat (i * m_cols m + j) < length (m_data m)"
    using b assms(1,4) by (simp_all add: cell_index_def wf_matrix_def)
qed


section \<open>What a list of elements computes\<close>

lemma dot_defined:
  assumes "wf_matrix A" "wf_matrix B" "m_cols A = m_rows B" "0 \<le> i" "i < m_rows A" "0 \<le> j" "j < m_cols B"
    and "\<forall>k\<in>set ks. 0 \<le> k \<and> k < m_cols A"
  shows "\<exists>v. dot ar A B i j ks acc = Some v"
  using assms(8)
proof (induction ks arbitrary: acc)
  case (Cons k ks)
  have "cell_index A i k \<noteq> None" "cell_index B k j \<noteq> None"
    using cell_index_wf(1) [of A i k] cell_index_wf(1) [of B k j] assms Cons.prems by auto
  with Cons show ?case by (auto simp: matrix_get_def)
qed simp

definition in_shape :: "int \<Rightarrow> int \<Rightarrow> int \<times> int \<Rightarrow> bool" where
  "in_shape rows cols ij \<longleftrightarrow> 0 \<le> fst ij \<and> fst ij < rows \<and> 0 \<le> snd ij \<and> snd ij < cols"

definition place :: "int \<Rightarrow> int \<times> int \<Rightarrow> nat" where
  "place cols ij = nat (fst ij * cols + snd ij)"

lemma place_inj:
  assumes "in_shape rows cols x" "in_shape rows cols y" "place cols x = place cols y"
  shows "x = y"
proof -
  note b = assms(1,2) [unfolded in_shape_def]
  have "0 \<le> fst x * cols + snd x" "0 \<le> fst y * cols + snd y" using b by (intro add_nonneg_nonneg; simp)+
  then have e: "fst x * cols + snd x = fst y * cols + snd y"
    using assms(3) by (simp add: place_def eq_nat_nat_iff)
  have "fst x = (fst x * cols + snd x) div cols" "fst y = (fst y * cols + snd y) div cols"
    using b by simp_all
  with e have "fst x = fst y" by simp
  with e show ?thesis by (simp add: prod_eq_iff)
qed

lemma place_surj:
  assumes "0 \<le> rows" "0 \<le> cols" "p < nat (rows * cols)"
  shows "\<exists>x. in_shape rows cols x \<and> place cols x = p"
proof -
  have c: "0 < cols" using assms by (cases "cols = 0") auto
  have p: "int p < rows * cols" using assms(3) by simp
  have "int p div cols < rows"
  proof (rule ccontr)
    assume "\<not> int p div cols < rows"
    then have "rows * cols \<le> (int p div cols) * cols" using c by (intro mult_right_mono) auto
    also have "\<dots> \<le> int p" using c by (simp add: minus_mod_eq_div_mult [symmetric])
    finally show False using p by simp
  qed
  with c have "in_shape rows cols (int p div cols, int p mod cols)"
    by (simp add: in_shape_def pos_imp_zdiv_nonneg_iff)
  moreover have "place cols (int p div cols, int p mod cols) = p" by (simp add: place_def)
  ultimately show ?thesis by blast
qed

text \<open>The writes, as one function on the data of the result.\<close>

fun fill :: "int \<Rightarrow> (int \<times> int \<Rightarrow> 'a) \<Rightarrow> (int \<times> int) list \<Rightarrow> 'a list \<Rightarrow> 'a list" where
  "fill cols v [] d = d"
| "fill cols v (x # xs) d = fill cols v xs (d[place cols x := v x])"

lemma length_fill [simp]: "length (fill cols v xs d) = length d"
  by (induction cols v xs d rule: fill.induct) auto

lemma place_bound: "in_shape rows cols x \<Longrightarrow> place cols x < nat (rows * cols)"
  using cell_index_bound [of "fst x" rows "snd x" cols] by (simp add: in_shape_def place_def)

lemma fill_nth:
  assumes "length d = nat (rows * cols)" "list_all (in_shape rows cols) xs" "in_shape rows cols x"
  shows "fill cols v xs d ! place cols x = (if x \<in> set xs then v x else d ! place cols x)"
  using assms
proof (induction xs arbitrary: d)
  case (Cons y ys)
  then have "length (d[place cols y := v y]) = nat (rows * cols)" "list_all (in_shape rows cols) ys" by simp_all
  note ih = Cons.IH [OF this Cons.prems(3)]
  show ?case
  proof (cases "y = x")
    case True
    with ih place_bound [OF Cons.prems(3)] Cons.prems(1) show ?thesis by simp
  next
    case False
    with place_inj [of rows cols y x] Cons.prems have "place cols y \<noteq> place cols x" by auto
    with ih False show ?thesis by simp
  qed
qed simp

text \<open>The order of the writes does not matter.\<close>

lemma fill_order:
  assumes "0 \<le> rows" "0 \<le> cols" "length d = nat (rows * cols)"
    and "list_all (in_shape rows cols) xs" "set ys = set xs"
  shows "fill cols v ys d = fill cols v xs d"
proof (rule nth_equalityI)
  fix p assume "p < length (fill cols v ys d)"
  then have "p < nat (rows * cols)" using assms(3) by simp
  from place_surj [OF assms(1,2) this] obtain x where x: "in_shape rows cols x" "place cols x = p" by blast
  have "list_all (in_shape rows cols) ys" using assms(4,5) by (simp add: list_all_iff)
  from fill_nth [OF assms(3) this x(1)] fill_nth [OF assms(3,4) x(1)] x(2) assms(5)
  show "fill cols v ys d ! p = fill cols v xs d ! p" by simp
qed simp

text \<open>The matrices of a product; what the result holds changes, the rest does not.\<close>

definition product_of :: "ptr \<Rightarrow> ptr \<Rightarrow> ptr \<Rightarrow> 'a matrix \<Rightarrow> 'a matrix \<Rightarrow> 'a matrix \<Rightarrow> 'a matrices \<Rightarrow> bool" where
  "product_of a b c A B C h \<longleftrightarrow> c \<noteq> a \<and> c \<noteq> b \<and> h a = Some A \<and> h b = Some B \<and> h c = Some C \<and>
     wf_matrix A \<and> wf_matrix B \<and> wf_matrix C \<and>
     m_cols A = m_rows B \<and> m_rows C = m_rows A \<and> m_cols C = m_cols B"

definition element :: "'a arith \<Rightarrow> 'a matrix \<Rightarrow> 'a matrix \<Rightarrow> int \<times> int \<Rightarrow> 'a" where
  "element ar A B ij = the (dot ar A B (fst ij) (snd ij) [0..m_cols A - 1] (zero_of ar))"

lemma compute_cell_defined:
  fixes ar :: "'a arith"
  assumes p: "product_of a b c A B C h" and s: "in_shape (m_rows C) (m_cols C) x"
  defines "C' \<equiv> C\<lparr>m_data := (m_data C)[place (m_cols C) x := element ar A B x]\<rparr>"
  shows "compute_cell ar a b c x h = Some (h(c \<mapsto> C'))" and "product_of a b c A B C' (h(c \<mapsto> C'))"
proof -
  note q = p [unfolded product_of_def] and b = s [unfolded in_shape_def]
  obtain v where v: "dot ar A B (fst x) (snd x) [0..m_cols A - 1] (zero_of ar) = Some v"
    using dot_defined [of A B "fst x" "snd x" "[0..m_cols A - 1]" ar "zero_of ar"] q b by auto
  then have e: "element ar A B x = v" by (simp add: element_def)
  have "cell_index C (fst x) (snd x) = Some (place (m_cols C) x)"
    using cell_index_wf(1) [of C "fst x" "snd x"] q b by (simp add: place_def)
  then show "compute_cell ar a b c x h = Some (h(c \<mapsto> C'))"
    using q v e by (simp add: compute_cell_def matrix_set_def C'_def)
  show "product_of a b c A B C' (h(c \<mapsto> C'))"
    using q by (auto simp: product_of_def C'_def wf_matrix_def)
qed

lemma compute_cells_defined:
  assumes "product_of a b c A B C h" and "list_all (in_shape (m_rows C) (m_cols C)) xs"
  shows "compute_cells ar a b c xs h =
    Some (h(c \<mapsto> C\<lparr>m_data := fill (m_cols C) (element ar A B) xs (m_data C)\<rparr>))"
  using assms
proof (induction xs arbitrary: h C)
  case Nil
  then show ?case by (auto simp: product_of_def)
next
  case (Cons x xs)
  then have s: "in_shape (m_rows C) (m_cols C) x" by simp
  note d = compute_cell_defined [OF Cons.prems(1) s, where ar = ar]
  have "list_all (in_shape (m_rows C) (m_cols C)) xs" using Cons.prems(2) by simp
  with Cons.IH [OF d(2)] show ?case by (simp add: d(1) del: fun_upd_apply)
qed

lemma compute_cells_order:
  assumes "product_of a b c A B C h" and "list_all (in_shape (m_rows C) (m_cols C)) xs" and "set ys = set xs"
  shows "compute_cells ar a b c ys h = compute_cells ar a b c xs h"
proof -
  have "list_all (in_shape (m_rows C) (m_cols C)) ys" using assms(2,3) by (simp add: list_all_iff)
  moreover have "fill (m_cols C) (element ar A B) ys (m_data C) = fill (m_cols C) (element ar A B) xs (m_data C)"
    using assms by (intro fill_order) (auto simp: product_of_def wf_matrix_def)
  ultimately show ?thesis by (simp add: compute_cells_defined [OF assms(1)] assms(2))
qed

section \<open>Interleavings\<close>

lemma set_concat_update:
  assumes "t < length todo" "todo ! t = x # xs"
  shows "set (concat todo) = insert x (set (concat (todo[t := xs])))"
proof -
  have "set todo = insert (x # xs) (set (take t todo @ drop (Suc t) todo))"
    by (subst id_take_nth_drop [OF assms(1)]) (auto simp: assms(2))
  moreover have "set (todo[t := xs]) = insert xs (set (take t todo @ drop (Suc t) todo))"
    using assms(1) by (subst upd_conv_take_nth_drop) auto
  ultimately show ?thesis by (simp add: Un_ac)
qed

text \<open>Every complete run computes the elements in some order.\<close>

lemma tasks_run_order:
  assumes "tasks_run ar a b c todo h r" and "product_of a b c A B C h"
    and "list_all (in_shape (m_rows C) (m_cols C)) (concat todo)"
  shows "\<exists>xs. set xs = set (concat todo) \<and> r = compute_cells ar a b c xs h"
  using assms
proof (induction arbitrary: C rule: tasks_run.induct)
  case (finished todo h)
  then have "concat todo = []" by simp
  then show ?case by (intro exI [of _ "[]"]) simp
next
  case (step t todo x xs h h' r)
  note u = set_concat_update [OF step.hyps(1,2)]
  have s: "in_shape (m_rows C) (m_cols C) x" using step.prems(2) unfolding list_all_iff u by simp
  note d = compute_cell_defined [OF step.prems(1) s, where ar = ar]
  have h': "h' = h(c \<mapsto> C\<lparr>m_data := (m_data C)[place (m_cols C) x := element ar A B x]\<rparr>)"
    using d(1) step.hyps(3) by simp
  let ?C' = "C\<lparr>m_data := (m_data C)[place (m_cols C) x := element ar A B x]\<rparr>"
  have dims: "m_rows ?C' = m_rows C" "m_cols ?C' = m_cols C" by simp_all
  have "list_all (in_shape (m_rows ?C') (m_cols ?C')) (concat (todo[t := xs]))"
    using step.prems(2) unfolding list_all_iff u dims by blast
  from step.IH [OF d(2) [folded h'] this]
  obtain ys where "set ys = set (concat (todo[t := xs]))" "r = compute_cells ar a b c ys h'" by blast
  with u step.hyps(3) show ?case by (intro exI [of _ "x # ys"]) simp
next
  case (undefined t todo x xs h)
  note u = set_concat_update [OF undefined.hyps(1,2)]
  have s: "in_shape (m_rows C) (m_cols C) x" using undefined.prems(2) unfolding list_all_iff u by simp
  from compute_cell_defined(1) [OF undefined.prems(1) s] undefined.hyps(3) show ?case by simp
qed

lemma compute_rows_cells:
  "product_of a b c A B C h \<Longrightarrow> compute_rows ar \<lparr>rt_A = a, rt_B = b, rt_C = c, rt_start_row = from, rt_end_row = until\<rparr> h =
     compute_cells ar a b c (row_cells from until (m_cols B)) h"
  by (simp add: compute_rows_def product_of_def)

text \<open>There is one.\<close>

lemma tasks_run_exists: "\<exists>r. tasks_run ar a b c todo h r"
proof (induction "length (concat todo)" arbitrary: todo h)
  case 0
  then show ?case by (auto intro!: tasks_run.finished)
next
  case (Suc k)
  then have "\<exists>cells\<in>set todo. cells \<noteq> []" by (metis Zero_not_Suc concat_eq_Nil_conv list.size(3))
  then obtain t x xs where t: "t < length todo" "todo ! t = x # xs"
    by (metis in_set_conv_nth list.exhaust)
  show ?case
  proof (cases "compute_cell ar a b c x h")
    case None
    with t show ?thesis by (blast intro: tasks_run.undefined)
  next
    case (Some h')
    have "length (concat todo) = Suc (length (concat (todo[t := xs])))"
      by (subst (1) id_take_nth_drop [OF t(1)], subst upd_conv_take_nth_drop [OF t(1)]) (simp add: t(2))
    with Suc.hyps(2) have "k = length (concat (todo[t := xs]))" by simp
    from Suc.hyps(1) [OF this] obtain r where "tasks_run ar a b c (todo[t := xs]) h' r" by blast
    with t Some show ?thesis by (blast intro: tasks_run.step)
  qed
qed

section \<open>The partition of the rows\<close>

lemma set_row_cells: "set (row_cells from until cols) = {from..<until} \<times> {0..<cols}"
  by (auto simp: row_cells_def)

lemma row_blocks:
  fixes rows n i :: int
  assumes "0 < n" "0 \<le> rows"
  defines "q \<equiv> rows div n"
  shows "0 \<le> i \<and> i < rows \<longleftrightarrow>
    (\<exists>t. 0 \<le> t \<and> t < n \<and> t * q \<le> i \<and> i < (if t = n - 1 then rows else (t + 1) * q))"
proof
  have q: "0 \<le> q" "n * q \<le> rows"
    using assms(1,2) by (simp_all add: q_def pos_imp_zdiv_nonneg_iff) (simp add: minus_mod_eq_mult_div [symmetric])
  {
    assume i: "0 \<le> i \<and> i < rows"
    show "\<exists>t. 0 \<le> t \<and> t < n \<and> t * q \<le> i \<and> i < (if t = n - 1 then rows else (t + 1) * q)"
    proof (cases "i < (n - 1) * q")
      case True
      then have "0 < q" using i q(1) assms(1) by (metis mult_zero_right not_less order_le_less)
      let ?t = "i div q"
      have t: "?t * q \<le> i" "i < (?t + 1) * q" "0 \<le> ?t"
      proof -
        have e: "i div q * q + i mod q = i" by simp
        have m: "0 \<le> i mod q" "i mod q < q" using \<open>0 < q\<close> by simp_all
        show "?t * q \<le> i" using e m by linarith
        have "(?t + 1) * q = ?t * q + q" by (simp add: distrib_right)
        with e m show "i < (?t + 1) * q" by linarith
        show "0 \<le> ?t" using \<open>0 < q\<close> i by (simp add: pos_imp_zdiv_nonneg_iff)
      qed
      have "?t < n - 1"
      proof (rule ccontr)
        assume "\<not> ?t < n - 1"
        then have "(n - 1) * q \<le> ?t * q" using q(1) by (intro mult_right_mono) auto
        with t(1) True show False by simp
      qed
      with t show ?thesis by (intro exI [of _ ?t]) simp
    next
      case False
      with i assms(1) show ?thesis by (intro exI [of _ "n - 1"]) simp
    qed
  next
    assume "\<exists>t. 0 \<le> t \<and> t < n \<and> t * q \<le> i \<and> i < (if t = n - 1 then rows else (t + 1) * q)"
    then obtain t where t: "0 \<le> t" "t < n" "t * q \<le> i" "i < (if t = n - 1 then rows else (t + 1) * q)" by blast
    have "0 \<le> t * q" using t(1) q(1) by simp
    moreover have "(t + 1) * q \<le> n * q" using t(2) q(1) by (intro mult_right_mono) auto
    ultimately show "0 \<le> i \<and> i < rows" using t(3,4) q(2) by (auto split: if_splits)
  }
qed

lemma row_tasks_rows:
  assumes "0 < n" "0 \<le> rows"
  shows "(\<Union>task\<in>set (row_tasks a b c rows n). {rt_start_row task..<rt_end_row task}) = {0..<rows}"
proof (rule set_eqI)
  fix i
  have "i \<in> (\<Union>task\<in>set (row_tasks a b c rows n). {rt_start_row task..<rt_end_row task}) \<longleftrightarrow>
    (\<exists>t. 0 \<le> t \<and> t < n \<and> t * (rows div n) \<le> i \<and> i < (if t = n - 1 then rows else (t + 1) * (rows div n)))"
    unfolding row_tasks_def Let_def set_map set_upto image_image UN_iff bex_simps Bex_def atLeastLessThan_iff
    by (intro iffI; elim exE conjE imageE; (rule exI)?; force)
  then show "i \<in> (\<Union>task\<in>set (row_tasks a b c rows n). {rt_start_row task..<rt_end_row task}) \<longleftrightarrow> i \<in> {0..<rows}"
    using row_blocks [OF assms, of i] unfolding atLeastLessThan_iff by blast
qed

lemma row_tasks_cells:
  assumes "0 < n" "0 \<le> rows"
  shows "set (concat (map (\<lambda>task. row_cells (rt_start_row task) (rt_end_row task) cols) (row_tasks a b c rows n))) =
    set (row_cells 0 rows cols)"
proof -
  have "set (concat (map (\<lambda>task. row_cells (rt_start_row task) (rt_end_row task) cols) (row_tasks a b c rows n))) =
    (\<Union>task\<in>set (row_tasks a b c rows n). {rt_start_row task..<rt_end_row task}) \<times> {0..<cols}"
    by (auto simp only: set_concat set_map set_row_cells image_image)
  then show ?thesis by (simp only: row_tasks_rows [OF assms] set_row_cells)
qed

text \<open>Two tasks have no row in common.\<close>

lemma row_tasks_disjoint:
  fixes n rows t u i :: int
  assumes "0 < n" "0 \<le> rows" "0 \<le> t" "t < u" "u < n"
    and "i < (if t = n - 1 then rows else (t + 1) * (rows div n))"
  shows "i < u * (rows div n)"
proof -
  have "(t + 1) * (rows div n) \<le> u * (rows div n)"
    using assms by (intro mult_right_mono) (auto simp: pos_imp_zdiv_nonneg_iff)
  with assms show ?thesis by simp
qed

text \<open>
  The parallel product equals the sequential one. For any number of threads, any element type and
  arithmetic, and matrices of fitting shape, every interleaving of the tasks ends, none is undefined, and
  the result is the same matrix, bit by bit, as that of the sequential loops. No two tasks write
  the same row, so there is no data race.
\<close>

lemma matrix_multiply_parallel_equals_sequential:
  assumes "product_of a b c A B C h" and "0 < num_threads"
  shows "(matrix_multiply_parallel ar a b c num_threads h r \<longleftrightarrow> r = matrix_multiply_sequential ar a b c h) \<and>
    matrix_multiply_sequential ar a b c h \<noteq> None \<and>
    (\<forall>t u i. 0 \<le> t \<and> t < u \<and> u < num_threads \<and>
      i < rt_end_row (row_tasks a b c (m_rows A) num_threads ! nat t) \<longrightarrow>
      i < rt_start_row (row_tasks a b c (m_rows A) num_threads ! nat u))"
proof -
  let ?cells = "map (\<lambda>task. row_cells (rt_start_row task) (rt_end_row task) (m_cols B)) (row_tasks a b c (m_rows A) num_threads)"
  note p = assms(1) [unfolded product_of_def]
  have rows: "0 \<le> m_rows A" using p by (simp add: wf_matrix_def)
  have seq: "matrix_multiply_sequential ar a b c h = compute_cells ar a b c (row_cells 0 (m_rows A) (m_cols B)) h"
    using p by (simp add: matrix_multiply_sequential_def)
  have shape: "list_all (in_shape (m_rows C) (m_cols C)) (row_cells 0 (m_rows A) (m_cols B))"
    using p by (auto simp: list_all_iff set_row_cells in_shape_def)
  note cells = row_tasks_cells [OF assms(2) rows, of "m_cols B" a b c]
  have shape': "list_all (in_shape (m_rows C) (m_cols C)) (concat ?cells)"
    using shape unfolding list_all_iff cells .
  have one: "r = matrix_multiply_sequential ar a b c h" if run: "tasks_run ar a b c ?cells h r" for r
  proof -
    obtain xs where xs: "set xs = set (concat ?cells)" "r = compute_cells ar a b c xs h"
      using tasks_run_order [OF run assms(1) shape'] by blast
    then have "set xs = set (row_cells 0 (m_rows A) (m_cols B))" using cells by simp
    from compute_cells_order [OF assms(1) shape this, of ar] xs(2) seq show ?thesis by simp
  qed
  have par: "matrix_multiply_parallel ar a b c num_threads h r \<longleftrightarrow> tasks_run ar a b c ?cells h r" for r
    using p by (simp add: matrix_multiply_parallel_def)
  obtain r' where "tasks_run ar a b c ?cells h r'" using tasks_run_exists by blast
  then have "matrix_multiply_parallel ar a b c num_threads h r \<longleftrightarrow> r = matrix_multiply_sequential ar a b c h"
    using one par by metis
  moreover have "matrix_multiply_sequential ar a b c h \<noteq> None"
    by (simp add: seq compute_cells_defined [OF assms(1) shape])
  moreover have "i < rt_start_row (row_tasks a b c (m_rows A) num_threads ! nat u)"
    if "0 \<le> t" "t < u" "u < num_threads" "i < rt_end_row (row_tasks a b c (m_rows A) num_threads ! nat t)" for t u i
    using row_tasks_disjoint [OF assms(2) rows that(1-3), of i] that
    by (simp add: row_tasks_def Let_def nth_upto)
  ultimately show ?thesis by blast
qed

text \<open>Three threads for two rows: the first two tasks are empty.\<close>

definition example_matrices :: "int matrices" where
  "example_matrices =
     [8 \<mapsto> \<lparr>m_data = [1, 2, 3, 4], m_rows = 2, m_cols = 2\<rparr>, 16 \<mapsto> \<lparr>m_data = [5, 6, 7, 8], m_rows = 2, m_cols = 2\<rparr>,
      24 \<mapsto> \<lparr>m_data = [0, 0, 0, 0], m_rows = 2, m_cols = 2\<rparr>]"

definition int_arith :: "int arith" where
  "int_arith = \<lparr>zero_of = 0, plus_of = (+), times_of = (*)\<rparr>"

lemma example_product:
  "\<exists>h. matrix_multiply_sequential int_arith 8 16 24 example_matrices = Some h \<and>
     h 24 = Some \<lparr>m_data = [19, 22, 43, 50], m_rows = 2, m_cols = 2\<rparr>"
  by (simp add: matrix_multiply_sequential_def example_matrices_def int_arith_def row_cells_def upto.simps
      compute_cell_def matrix_get_def matrix_set_def cell_index_def int_range_def)

lemma matrix_multiply_parallel_equals_sequential_witness:
  "\<exists>h. matrix_multiply_parallel int_arith 8 16 24 3 example_matrices (Some h) \<and>
     h 24 = Some \<lparr>m_data = [19, 22, 43, 50], m_rows = 2, m_cols = 2\<rparr>"
proof -
  obtain h where h: "matrix_multiply_sequential int_arith 8 16 24 example_matrices = Some h"
    "h 24 = Some \<lparr>m_data = [19, 22, 43, 50], m_rows = 2, m_cols = 2\<rparr>" using example_product by blast
  have "product_of 8 16 24 \<lparr>m_data = [1, 2, 3, 4], m_rows = 2, m_cols = 2\<rparr>
      \<lparr>m_data = [5, 6, 7, 8], m_rows = 2, m_cols = 2\<rparr> \<lparr>m_data = [0, 0, 0, 0], m_rows = 2, m_cols = 2\<rparr> example_matrices"
    by (simp add: product_of_def wf_matrix_def example_matrices_def)
  from matrix_multiply_parallel_equals_sequential [OF this, of 3 int_arith "Some h"] h show ?thesis by auto
qed

section \<open>Creation, destruction, comparison\<close>

lemma matrix_create_wf:
  assumes "matrix_create ar block data rows cols h = Some (h', m)" and "m \<noteq> NULL" and "0 \<le> rows" "0 \<le> cols"
  shows "\<exists>x. h' m = Some x \<and> wf_matrix x \<and> m_rows x = rows \<and> m_cols x = cols \<and> m_data x = replicate (nat (rows * cols)) (zero_of ar)"
  using assms by (auto simp: matrix_create_def wf_matrix_def int_range_def split: if_splits)

lemma matrix_create_destroy:
  "matrix_create ar block data rows cols h = Some (h', m) \<Longrightarrow> h block = None \<Longrightarrow> matrix_destroy m h' = Some h"
  by (auto simp: matrix_create_def matrix_destroy_def fun_upd_idem split: if_splits)

lemma matrix_randomize_wf:
  assumes "wf_matrix m"
  shows "\<exists>m'. matrix_randomize answers tenth m = Some m' \<and> wf_matrix m' \<and> m_rows m' = m_rows m \<and> m_cols m' = m_cols m \<and>
    set (m_data m') \<subseteq> tenth ` {0..99}"
proof -
  have "0 \<le> m_rows m * m_cols m" using assms by (simp add: wf_matrix_def)
  moreover have "m_rows m * m_cols m < 2 ^ 31" using assms by (simp add: wf_matrix_def)
  ultimately have "int_range (m_rows m * m_cols m)" unfolding int_range_def by linarith
  moreover have "tenth (i mod 100) \<in> tenth ` {0..99}" for i :: int
    using pos_mod_bound [of 100 i] by (intro imageI) simp
  ultimately show ?thesis using assms by (auto simp: matrix_randomize_def wf_matrix_def)
qed

text \<open>The check of main passes on equal matrices when no number is further than epsilon from itself.\<close>

lemma matrix_equals_refl: "(\<And>x. close x x) \<Longrightarrow> matrix_equals close m m"
  by (simp add: matrix_equals_def list_all_iff)

end
