(* ===== verification/Matrix_Pool.thy ===== *)
theory Matrix_Pool
  imports Pool_Programs Matrix_Multiply
begin

text \<open>
  The parallel product of examples/matrix_multiply.c on the running pool: main fills the array of tasks and
  submits a pointer to each, workers compute the elements of their rows one by one, main waits. The
  results of submit are ignored, as in C: a task that was not accepted is not computed.
\<close>

section \<open>The tasks of the pool\<close>

text \<open>The address of \<open>compute_rows\<close>; a \<open>row_task_t\<close> has 32 bytes.\<close>

definition COMPUTE_ROWS :: ptr where "COMPUTE_ROWS = 12288"

text \<open>The data are the matrices, None once something undefined has happened.\<close>

definition cell_action :: "'a arith \<Rightarrow> row_task \<Rightarrow> int \<times> int \<Rightarrow> 'a matrices option \<Rightarrow> 'a matrices option" where
  "cell_action ar task ij = (\<lambda>g. Option.bind g (compute_cell ar (rt_A task) (rt_B task) (rt_C task) ij))"

text \<open>What a call of \<open>compute_rows\<close> does, element by element; \<open>cols\<close> is \<open>task->B->cols\<close>.\<close>

definition matrix_prog :: "'a arith \<Rightarrow> ptr \<Rightarrow> row_task list \<Rightarrow> int \<Rightarrow> 'a matrices option program" where
  "matrix_prog ar base tasks cols = (\<lambda>(func, arg).
     if func = COMPUTE_ROWS then
       case array_at 32 base tasks arg of
         None \<Rightarrow> [\<lambda>_. None]
       | Some task \<Rightarrow> map (cell_action ar task) (row_cells (rt_start_row task) (rt_end_row task) cols)
     else [])"

text \<open>What main submits for the task of index \<open>t\<close>.\<close>

definition task_call :: "ptr \<Rightarrow> nat \<Rightarrow> ptr \<times> ptr" where
  "task_call base t = (COMPUTE_ROWS, base + word_of_nat (32 * t))"

text \<open>
  The calls of submit, in the order of the loop of \<open>matrix_multiply_parallel\<close>; \<open>pool\<close> and \<open>base\<close> are the
  answers of \<open>sthread_pool_create\<close> and malloc. Without a pool it returns; the division by zero and the
  store through NULL, which the code does not exclude, are None.
\<close>

definition parallel_calls :: "ptr \<Rightarrow> ptr \<Rightarrow> int \<Rightarrow> (ptr \<times> ptr) list option" where
  "parallel_calls pool base num_threads =
     (if pool = NULL then Some []
      else if num_threads = 0 \<or> 0 < num_threads \<and> base = NULL then None
      else Some (map (task_call base) [0..<nat num_threads]))"

section \<open>Elements of different tasks do not interfere\<close>

definition product_ok :: "ptr \<Rightarrow> ptr \<Rightarrow> ptr \<Rightarrow> int \<Rightarrow> int \<Rightarrow> 'a matrices option \<Rightarrow> bool" where
  "product_ok a b c rows cols g \<longleftrightarrow>
     (\<forall>h. g = Some h \<longrightarrow> (\<exists>A B C. product_of a b c A B C h \<and> m_rows A = rows \<and> m_cols B = cols))"

lemma row_task_cells:
  assumes "task \<in> set (row_tasks a b c rows num_threads)" "ij \<in> set (row_cells (rt_start_row task) (rt_end_row task) cols)" "0 \<le> rows"
  shows "in_shape rows cols ij"
proof -
  let ?f = "\<lambda>task. row_cells (rt_start_row task) (rt_end_row task) cols"
  have n: "0 < num_threads" using assms(1) by (auto simp: row_tasks_def Let_def)
  have "ij \<in> set (concat (map ?f (row_tasks a b c rows num_threads)))" using assms(1,2) by auto
  then have "ij \<in> set (row_cells 0 rows cols)" unfolding row_tasks_cells [OF n assms(3)] .
  then show ?thesis by (auto simp: set_row_cells in_shape_def)
qed

lemma prog_action:
  assumes "x \<in> set (matrix_prog ar base (row_tasks a b c rows num_threads) cols fa)"
  shows "x = (\<lambda>_. None) \<or>
    (\<exists>ij. x = (\<lambda>g. Option.bind g (compute_cell ar a b c ij)) \<and> (0 \<le> rows \<longrightarrow> in_shape rows cols ij))"
proof (cases "x = (\<lambda>_. None)")
  case False
  with assms obtain task ij where t: "array_at 32 base (row_tasks a b c rows num_threads) (snd fa) = Some task"
    and ij: "ij \<in> set (row_cells (rt_start_row task) (rt_end_row task) cols)" "x = cell_action ar task ij"
    by (auto simp: matrix_prog_def split: prod.splits if_splits option.splits)
  from array_at_set [OF t] have m: "task \<in> set (row_tasks a b c rows num_threads)" .
  then have "rt_A task = a" "rt_B task = b" "rt_C task = c" by (auto simp: row_tasks_def Let_def)
  with ij(2) have "x = (\<lambda>g. Option.bind g (compute_cell ar a b c ij))" by (simp add: cell_action_def)
  with row_task_cells [OF m ij(1)] show ?thesis by blast
qed simp

lemma product_shape: "product_of a b c A B C h \<Longrightarrow> 0 \<le> m_rows A \<and> m_rows C = m_rows A \<and> m_cols C = m_cols B"
  by (simp add: product_of_def wf_matrix_def)

interpretation product: action_tasks "matrix_prog ar base (row_tasks a b c rows num_threads) cols"
  "product_ok a b c rows cols" for ar :: "'a arith" and base a b c rows num_threads cols
proof
  let ?prog = "matrix_prog ar base (row_tasks a b c rows num_threads) cols"
  fix g :: "'a matrices option" and x fa
  assume g: "product_ok a b c rows cols g" and x: "x \<in> set (?prog fa)"
  show "product_ok a b c rows cols (x g)"
  proof (cases g)
    case None
    with prog_action [OF x] show ?thesis by (auto simp: product_ok_def)
  next
    case (Some h)
    with g obtain A B C where p: "product_of a b c A B C h" "m_rows A = rows" "m_cols B = cols"
      by (auto simp: product_ok_def)
    note shape = product_shape [OF p(1)]
    from prog_action [OF x] show ?thesis
    proof (elim disjE exE conjE)
      fix ij assume e: "x = (\<lambda>g. Option.bind g (compute_cell ar a b c ij))" and s: "0 \<le> rows \<longrightarrow> in_shape rows cols ij"
      then have "in_shape (m_rows C) (m_cols C) ij" using shape p by simp
      from compute_cell_defined [OF p(1) this, where ar = ar] p(2,3) e Some show ?thesis
        unfolding product_ok_def by auto
    qed (simp add: product_ok_def)
  qed
next
  let ?prog = "matrix_prog ar base (row_tasks a b c rows num_threads) cols"
  fix g :: "'a matrices option" and x y fa fb
  assume g: "product_ok a b c rows cols g" and x: "x \<in> set (?prog fa)" and y: "y \<in> set (?prog fb)"
  show "x (y g) = y (x g)"
  proof (cases g)
    case None
    with prog_action [OF x] prog_action [OF y] show ?thesis by auto
  next
    case (Some h)
    with g obtain A B C where p: "product_of a b c A B C h" "m_rows A = rows" "m_cols B = cols"
      by (auto simp: product_ok_def)
    note shape = product_shape [OF p(1)]
    have "Option.bind (compute_cell ar a b c kl h) (compute_cell ar a b c ij) =
        Option.bind (compute_cell ar a b c ij h) (compute_cell ar a b c kl)"
      if "0 \<le> rows \<longrightarrow> in_shape rows cols ij" "0 \<le> rows \<longrightarrow> in_shape rows cols kl" for ij kl
    proof -
      have l: "list_all (in_shape (m_rows C) (m_cols C)) [ij, kl]" using that shape p by simp
      have e: "compute_cells ar a b c [x, y] h = Option.bind (compute_cell ar a b c x h) (compute_cell ar a b c y)" for x y
        by (simp split: option.splits bind_splits)
      from compute_cells_order [OF p(1) l, of "[kl, ij]" ar] show ?thesis unfolding e by auto
    qed
    with prog_action [OF x] prog_action [OF y] Some show ?thesis by auto
  qed
qed

section \<open>The product\<close>

text \<open>The elements computed for a call.\<close>

definition call_cells :: "ptr \<Rightarrow> row_task list \<Rightarrow> int \<Rightarrow> ptr \<times> ptr \<Rightarrow> (int \<times> int) list" where
  "call_cells base tasks cols x = (case array_at 32 base tasks (snd x) of None \<Rightarrow> []
     | Some task \<Rightarrow> row_cells (rt_start_row task) (rt_end_row task) cols)"

lemma perform_cells:
  "perform (map (\<lambda>ij g. Option.bind g (compute_cell ar a b c ij)) xs) (Some h) = compute_cells ar a b c xs h"
proof (induction xs arbitrary: h)
  case (Cons x xs)
  have "perform (map (\<lambda>ij g. Option.bind g (compute_cell ar a b c ij)) xs) None = None" by (induction xs) simp_all
  with Cons show ?case by (simp split: option.splits)
qed simp

lemma calls_actions:
  assumes "\<forall>x \<in> set xs. \<exists>t < length tasks. x = task_call base t" and "32 * length tasks < 2 ^ 64"
    and "\<forall>task \<in> set tasks. rt_A task = a \<and> rt_B task = b \<and> rt_C task = c"
  shows "all_actions (matrix_prog ar base tasks cols) xs =
    map (\<lambda>ij g. Option.bind g (compute_cell ar a b c ij)) (concat (map (call_cells base tasks cols) xs))"
  using assms(1)
proof (induction xs)
  case (Cons x xs)
  then obtain t where t: "t < length tasks" "x = task_call base t" by auto
  have "rt_A (tasks ! t) = a" "rt_B (tasks ! t) = b" "rt_C (tasks ! t) = c" using assms(3) t(1) by auto
  then have "matrix_prog ar base tasks cols x =
      map (\<lambda>ij g. Option.bind g (compute_cell ar a b c ij)) (call_cells base tasks cols x)"
    using array_at_nth [OF assms(2) t(1), of base, simplified] t(2)
    by (simp add: matrix_prog_def call_cells_def task_call_def cell_action_def)
  with Cons show ?case by simp
qed simp

lemma call_cells_at:
  assumes "32 * length tasks < 2 ^ 64" and "t < length tasks"
  shows "call_cells base tasks cols (task_call base t) =
    row_cells (rt_start_row (tasks ! t)) (rt_end_row (tasks ! t)) cols"
  using array_at_nth [OF assms, of base, simplified] by (simp add: call_cells_def task_call_def)

lemma calls_cells:
  assumes calls: "\<forall>x \<in> set xs. \<exists>t < length tasks. x = task_call base t" and small: "32 * length tasks < 2 ^ 64"
  shows "ij \<in> set (concat (map (call_cells base tasks cols) xs)) \<longleftrightarrow> 0 \<le> snd ij \<and> snd ij < cols \<and>
    (\<exists>t. task_call base t \<in> set xs \<and> t < length tasks \<and>
       rt_start_row (tasks ! t) \<le> fst ij \<and> fst ij < rt_end_row (tasks ! t))" (is "_ \<longleftrightarrow> ?r")
proof
  assume "ij \<in> set (concat (map (call_cells base tasks cols) xs))"
  then obtain x where x: "x \<in> set xs" "ij \<in> set (call_cells base tasks cols x)" by auto
  then obtain t where t: "t < length tasks" "x = task_call base t" using calls by auto
  with x call_cells_at [OF small t(1)]
  have "rt_start_row (tasks ! t) \<le> fst ij \<and> fst ij < rt_end_row (tasks ! t) \<and> 0 \<le> snd ij \<and> snd ij < cols"
    by (cases ij) (simp add: set_row_cells)
  with x(1) t show ?r by blast
next
  assume ?r
  then obtain t where t: "task_call base t \<in> set xs" "t < length tasks"
    "0 \<le> snd ij \<and> snd ij < cols \<and> rt_start_row (tasks ! t) \<le> fst ij \<and> fst ij < rt_end_row (tasks ! t)" by blast
  then have "ij \<in> set (call_cells base tasks cols (task_call base t))"
    by (cases ij) (simp add: call_cells_at [OF small] set_row_cells)
  with t(1) show "ij \<in> set (concat (map (call_cells base tasks cols) xs))" by auto
qed

lemma all_calls_cells:
  assumes "set xs = task_call base ` {..<length tasks}" and small: "32 * length tasks < 2 ^ 64"
  shows "set (concat (map (call_cells base tasks cols) xs)) =
    set (concat (map (\<lambda>task. row_cells (rt_start_row task) (rt_end_row task) cols) tasks))"
proof -
  have "set (concat (map (call_cells base tasks cols) xs)) = (\<Union>t<length tasks. set (call_cells base tasks cols (task_call base t)))"
    using assms(1) by simp
  also have "\<dots> = (\<Union>t<length tasks. (\<lambda>task. set (row_cells (rt_start_row task) (rt_end_row task) cols)) (tasks ! t))"
    by (simp add: call_cells_at [OF small])
  also have "\<dots> = (\<Union>task\<in>set tasks. set (row_cells (rt_start_row task) (rt_end_row task) cols))"
    unfolding set_conv_nth by blast
  finally show ?thesis by simp
qed

text \<open>What main submits.\<close>

lemma parallel_calls_set:
  assumes "parallel_calls pool base num_threads = Some calls" and "pool \<noteq> NULL"
  shows "set calls = task_call base ` {..<nat num_threads}"
  using assms by (auto simp: parallel_calls_def split: if_splits)

text \<open>A list of calls of tasks computes the elements of their rows, which are inside the matrices.\<close>

lemma calls_compute:
  fixes ar :: "'a arith" and num_threads :: int
  assumes "product_of a b c A B C h" and "0 < num_threads" and "num_threads < 2 ^ 31"
  defines "tasks \<equiv> row_tasks a b c (m_rows A) num_threads"
  assumes "\<forall>x \<in> set xs. \<exists>t < nat num_threads. x = task_call base t"
  shows "perform (all_actions (matrix_prog ar base tasks (m_cols B)) xs) (Some h) =
      compute_cells ar a b c (concat (map (call_cells base tasks (m_cols B)) xs)) h"
    and "list_all (in_shape (m_rows C) (m_cols C)) (concat (map (call_cells base tasks (m_cols B)) xs))"
    and "ij \<in> set (concat (map (call_cells base tasks (m_cols B)) xs)) \<longleftrightarrow> 0 \<le> snd ij \<and> snd ij < m_cols B \<and>
      (\<exists>t. task_call base t \<in> set xs \<and> t < nat num_threads \<and>
         rt_start_row (tasks ! t) \<le> fst ij \<and> fst ij < rt_end_row (tasks ! t))"
proof -
  note shape = product_shape [OF assms(1)]
  have len: "length tasks = nat num_threads" by (simp add: tasks_def row_tasks_def Let_def)
  then have small: "32 * length tasks < 2 ^ 64" using assms(3) by simp
  have ptrs: "\<forall>task \<in> set tasks. rt_A task = a \<and> rt_B task = b \<and> rt_C task = c"
    by (auto simp: tasks_def row_tasks_def Let_def)
  have calls: "\<forall>x \<in> set xs. \<exists>t < length tasks. x = task_call base t" using assms(5) len by simp
  show "perform (all_actions (matrix_prog ar base tasks (m_cols B)) xs) (Some h) =
      compute_cells ar a b c (concat (map (call_cells base tasks (m_cols B)) xs)) h"
    using calls_actions [OF calls small ptrs, of ar "m_cols B"] perform_cells by simp
  note mem = calls_cells [OF calls small, where cols = "m_cols B"]
  then show "ij \<in> set (concat (map (call_cells base tasks (m_cols B)) xs)) \<longleftrightarrow> 0 \<le> snd ij \<and> snd ij < m_cols B \<and>
      (\<exists>t. task_call base t \<in> set xs \<and> t < nat num_threads \<and>
         rt_start_row (tasks ! t) \<le> fst ij \<and> fst ij < rt_end_row (tasks ! t))" by (simp only: len)
  show "list_all (in_shape (m_rows C) (m_cols C)) (concat (map (call_cells base tasks (m_cols B)) xs))"
  proof (unfold list_all_iff, rule ballI)
    fix ij assume "ij \<in> set (concat (map (call_cells base tasks (m_cols B)) xs))"
    then obtain t where "t < length tasks" "0 \<le> snd ij" "snd ij < m_cols B"
      "rt_start_row (tasks ! t) \<le> fst ij" "fst ij < rt_end_row (tasks ! t)" unfolding mem by blast
    then have "t < length tasks" "ij \<in> set (row_cells (rt_start_row (tasks ! t)) (rt_end_row (tasks ! t)) (m_cols B))"
      by (simp_all add: set_row_cells mem_Times_iff)
    then show "in_shape (m_rows C) (m_cols C) ij"
      using row_task_cells [of "tasks ! t" a b c "m_rows A" num_threads ij "m_cols B"] shape by (simp add: tasks_def)
  qed
qed

text \<open>The matrices after the calls.\<close>

definition rows_computed ::
  "'a arith \<Rightarrow> ptr \<Rightarrow> 'a matrix \<Rightarrow> 'a matrix \<Rightarrow> 'a matrix \<Rightarrow> 'a matrices \<Rightarrow> (int \<Rightarrow> bool) \<Rightarrow> 'a matrices option \<Rightarrow> bool" where
  "rows_computed ar c A B C h row g \<longleftrightarrow> (\<exists>C'. g = Some (h(c \<mapsto> C')) \<and>
     (\<forall>ij. in_shape (m_rows C) (m_cols C) ij \<longrightarrow> m_data C' ! place (m_cols C) ij =
        (if row (fst ij) then element ar A B ij else m_data C ! place (m_cols C) ij)))"

lemma calls_product:
  fixes ar :: "'a arith" and num_threads :: int
  assumes "product_of a b c A B C h" and "0 < num_threads" and "num_threads < 2 ^ 31"
  defines "tasks \<equiv> row_tasks a b c (m_rows A) num_threads"
  assumes "\<forall>x \<in> set xs. \<exists>t < nat num_threads. x = task_call base t"
  defines "g \<equiv> perform (all_actions (matrix_prog ar base tasks (m_cols B)) xs) (Some h)"
  shows "rows_computed ar c A B C h (\<lambda>i. \<exists>t. task_call base t \<in> set xs \<and> t < nat num_threads \<and>
      rt_start_row (tasks ! t) \<le> i \<and> i < rt_end_row (tasks ! t)) g"
    and "set xs = task_call base ` {..<nat num_threads} \<Longrightarrow> g = matrix_multiply_sequential ar a b c h"
proof -
  let ?cells = "concat (map (call_cells base tasks (m_cols B)) xs)"
  note shape = product_shape [OF assms(1)]
  note compute = calls_compute(1) [OF assms(1-3,5), of ar, folded tasks_def, folded g_def]
    calls_compute(2,3) [OF assms(1-3,5), folded tasks_def]
  let ?C = "C\<lparr>m_data := fill (m_cols C) (element ar A B) ?cells (m_data C)\<rparr>"
  have len: "length (m_data C) = nat (m_rows C * m_cols C)" using assms(1) by (simp add: product_of_def wf_matrix_def)
  have "m_data ?C ! place (m_cols C) ij = (if \<exists>t. task_call base t \<in> set xs \<and> t < nat num_threads \<and>
        rt_start_row (tasks ! t) \<le> fst ij \<and> fst ij < rt_end_row (tasks ! t)
      then element ar A B ij else m_data C ! place (m_cols C) ij)" if s: "in_shape (m_rows C) (m_cols C) ij" for ij
  proof -
    have "ij \<in> set ?cells \<longleftrightarrow> (\<exists>t. task_call base t \<in> set xs \<and> t < nat num_threads \<and>
        rt_start_row (tasks ! t) \<le> fst ij \<and> fst ij < rt_end_row (tasks ! t))"
      unfolding compute(3) using s shape by (simp add: in_shape_def)
    moreover have "m_data ?C = fill (m_cols C) (element ar A B) ?cells (m_data C)" by simp
    ultimately show ?thesis using fill_nth [OF len compute(2) s, of "element ar A B"] by (simp only:)
  qed
  moreover have "g = Some (h(c \<mapsto> ?C))" unfolding compute(1) by (rule compute_cells_defined [OF assms(1) compute(2)])
  ultimately show "rows_computed ar c A B C h (\<lambda>i. \<exists>t. task_call base t \<in> set xs \<and> t < nat num_threads \<and>
      rt_start_row (tasks ! t) \<le> i \<and> i < rt_end_row (tasks ! t)) g" unfolding rows_computed_def by blast
  assume all: "set xs = task_call base ` {..<nat num_threads}"
  have n: "length tasks = nat num_threads" by (simp add: tasks_def row_tasks_def Let_def)
  then have small: "32 * length tasks < 2 ^ 64" using assms(3) by simp
  have "set (row_cells 0 (m_rows A) (m_cols B)) = set ?cells"
    using all_calls_cells [OF _ small] all n shape
      row_tasks_cells [OF assms(2), of "m_rows A" "m_cols B" a b c, folded tasks_def] by simp
  from compute_cells_order [OF assms(1) compute(2) this, of ar] assms(1) compute(1)
  show "g = matrix_multiply_sequential ar a b c h" by (simp add: matrix_multiply_sequential_def product_of_def)
qed

lemma product_start: "product_of a b c A B C h \<Longrightarrow> product_ok a b c (m_rows A) (m_cols B) (Some h)"
  by (auto simp: product_ok_def)

text \<open>
  The parallel product on the running pool, for any number of workers and any interleaving, down to the
  element: when main returns from the wait, no access was undefined, every row whose task was accepted
  has the elements of the product and every other row is as it was; if all tasks were accepted the
  matrices are those of the sequential product, bit by bit.
\<close>

lemma matrix_multiply_on_pool:
  fixes ar :: "'a arith" and num_threads :: int
  assumes "product_of a b c A B C h" and "0 < num_threads" and "num_threads < 2 ^ 31"
  defines "tasks \<equiv> row_tasks a b c (m_rows A) num_threads"
  assumes "client_reach workers capacity {main} (matrix_prog ar base tasks (m_cols B)) (Some h) s rest g"
    and "workers \<le> main" and "no_overflow s" and "ps_pc s main = Wait_Return k"
    and "parallel_calls pool base num_threads = Some calls" and "pool \<noteq> NULL" and "set (pushed (plog s)) \<subseteq> set calls"
  shows "rows_computed ar c A B C h (\<lambda>i. \<exists>t. task_call base t \<in> set (pushed (plog s)) \<and> t < nat num_threads \<and>
      rt_start_row (tasks ! t) \<le> i \<and> i < rt_end_row (tasks ! t)) g \<and>
    (set (pushed (plog s)) = set calls \<longrightarrow> g = matrix_multiply_sequential ar a b c h)"
proof -
  note all_calls = parallel_calls_set [OF assms(9,10)]
  then have "\<forall>x \<in> set (pushed (plog s)). \<exists>t < nat num_threads. x = task_call base t" using assms(11) by auto
  note product = calls_product [OF assms(1-3) this, where ar = ar, folded tasks_def]
  have "g = perform (all_actions (matrix_prog ar base tasks (m_cols B)) (pushed (plog s))) (Some h)"
    unfolding tasks_def
    by (rule product.wait_then_performed [OF assms(5) [unfolded tasks_def] assms(6-8) product_start [OF assms(1)]])
  with product all_calls show ?thesis by simp
qed

text \<open>Two workers on two tasks of a product of matrices with two rows; their steps overlap.\<close>

definition matrix_run :: "(tid \<times> pool_action) list" where
  "matrix_run = [(2, Enter (Submit 12288 8192 TASK_PRIORITY_NORMAL)), (2, Step), (2, Malloc 64 0)] @ steps 2 10 @
     [(2, Enter (Submit 12288 8224 TASK_PRIORITY_NORMAL)), (2, Step), (2, Malloc 128 0)] @ steps 2 10 @
     steps 0 13 @ steps 1 20 @ steps 0 7 @ [(2, Enter Wait)] @ steps 2 4"

definition example_prog :: "int matrices option program" where
  "example_prog = matrix_prog int_arith 8192 (row_tasks 8 16 24 2 2) 2"

lemma example_calls:
  defines "task \<equiv> \<lambda>i. \<lparr>rt_A = 8, rt_B = 16, rt_C = 24, rt_start_row = i, rt_end_row = i + 1\<rparr>"
  shows "example_prog (12288, 8192) = [cell_action int_arith (task 0) (0, 0), cell_action int_arith (task 0) (0, 1)]"
    and "example_prog (12288, 8224) = [cell_action int_arith (task 1) (1, 0), cell_action int_arith (task 1) (1, 1)]"
  by (simp_all add: example_prog_def matrix_prog_def COMPUTE_ROWS_def array_at_def row_tasks_def row_cells_def
      task_def upto.simps)

lemma matrix_run_result:
  "\<exists>s rest g. gexec 2 3 example_prog matrix_run (init_psys 2 4, \<lambda>_. [], Some example_matrices) = Some (s, rest, g) \<and>
     ps_pc s 2 = Wait_Return 2 \<and> pushed (plog s) = [(12288, 8192), (12288, 8224)]"
  by (simp add: matrix_run_def run_defs pushed_def example_calls)

lemma matrix_multiply_on_pool_witness:
  "\<exists>s rest g. gexec 2 3 example_prog matrix_run (init_psys 2 4, \<lambda>_. [], Some example_matrices) = Some (s, rest, Some g) \<and>
     g 24 = Some \<lparr>m_data = [19, 22, 43, 50], m_rows = 2, m_cols = 2\<rparr>"
proof -
  obtain s rest g where s: "gexec 2 3 example_prog matrix_run (init_psys 2 4, \<lambda>_. [], Some example_matrices) = Some (s, rest, g)"
    "ps_pc s 2 = Wait_Return 2" "pushed (plog s) = [(12288, 8192), (12288, 8224)]" using matrix_run_result by blast
  let ?A = "\<lparr>m_data = [1, 2, 3, 4], m_rows = 2, m_cols = 2\<rparr>" and ?B = "\<lparr>m_data = [5, 6, 7, 8], m_rows = 2, m_cols = 2\<rparr>"
  have r: "client_reach 2 4 {2} example_prog (Some example_matrices) s rest g"
    by (rule gexec_reach [OF s(1)]) (auto simp: matrix_run_def list_all_iff)
  have p: "product_of 8 16 24 ?A ?B \<lparr>m_data = [0, 0, 0, 0], m_rows = 2, m_cols = 2\<rparr> example_matrices"
    by (simp add: product_of_def wf_matrix_def example_matrices_def)
  have o: "no_overflow s" using s(3) by (simp add: no_overflow_def)
  have calls: "parallel_calls 4 8192 2 = Some [(12288, 8192), (12288, 8224)]"
    by (simp add: parallel_calls_def task_call_def COMPUTE_ROWS_def upt_rec)
  have "client_reach 2 4 {2} (matrix_prog int_arith 8192 (row_tasks 8 16 24 (m_rows ?A) 2) (m_cols ?B)) (Some example_matrices) s rest g"
    using r by (simp add: example_prog_def)
  from matrix_multiply_on_pool [OF p _ _ this _ o s(2) calls] s(3)
  have "g = matrix_multiply_sequential int_arith 8 16 24 example_matrices" by simp
  with s(1) example_product show ?thesis by auto
qed

end
