(* ===== verification/Matrix_Program.thy ===== *)
theory Matrix_Program
  imports Pool_Programs Matrix_Pool
begin

text \<open>
  The parallel product of examples/matrix_multiply.c from the creation of the pool to its destruction:
  main submits its tasks, waits and destroys the pool. It ends under any schedule, with the product
  in place; and the array of tasks, which main frees then, is not used any more.
\<close>

section \<open>The calls of main\<close>

text \<open>All calls of \<open>matrix_multiply_parallel\<close> on the pool it has created.\<close>

definition parallel_main :: "ptr \<Rightarrow> ptr \<Rightarrow> int \<Rightarrow> pool_call list option" where
  "parallel_main pool base num_threads =
     (if pool = NULL then Some []
      else map_option (\<lambda>calls. submit_calls calls @ [Wait, Destroy]) (parallel_calls pool base num_threads))"

lemma parallel_main_calls:
  assumes "parallel_main pool base num_threads = Some calls" and "pool \<noteq> NULL"
  shows "calls = submit_calls (map (task_call base) [0..<nat num_threads]) @ [Wait, Destroy]"
  using assms by (auto simp: parallel_main_def parallel_calls_def split: if_splits)

lemma task_call_inj:
  assumes "num_threads < 2 ^ 31"
  shows "inj_on (task_call base) {..<nat num_threads}"
proof (rule inj_onI)
  fix t u assume t: "t \<in> {..<nat num_threads}" and u: "u \<in> {..<nat num_threads}" and e: "task_call base t = task_call base u"
  have "unat (word_of_nat (32 * v) :: 64 word) = 32 * v" if "v \<in> {..<nat num_threads}" for v
    by (rule unat_of_nat_small) (use that assms in auto)
  moreover have "(word_of_nat (32 * t) :: 64 word) = word_of_nat (32 * u)" using e by (simp add: task_call_def)
  ultimately show "t = u" using t u by (metis mult_left_cancel zero_neq_numeral)
qed

text \<open>Each task is accepted or refused, and not both.\<close>

lemma accepted_or_refused:
  assumes e: "mset xs + mset ys = mset (map (task_call base) [0..<nat num_threads])" and n: "num_threads < 2 ^ 31"
  shows "set xs \<union> set ys = task_call base ` {..<nat num_threads}" and "set xs \<inter> set ys = {}"
proof -
  have m: "mset (xs @ ys) = mset (map (task_call base) [0..<nat num_threads])" using e by simp
  from mset_eq_setD [OF this] show "set xs \<union> set ys = task_call base ` {..<nat num_threads}"
    by (auto simp: lessThan_atLeast0)
  have "distinct (map (task_call base) [0..<nat num_threads])"
    using task_call_inj [OF n] by (simp add: distinct_map lessThan_atLeast0)
  then have "distinct (xs @ ys)" using m by (metis mset_eq_imp_distinct_iff)
  then show "set xs \<inter> set ys = {}" by simp
qed

section \<open>It ends with the product\<close>

text \<open>
  C9. The parallel product ends, and ends with the product. For any number of workers and under any schedule
  the threads that are awake cannot go on for ever; when none of them can step, main has made all its
  calls, the pool is freed, no task is running (so that freeing the array of tasks is safe), every row
  whose task was not refused has the elements of the product and every other row is as it was; if
  none was refused the matrices are those of the sequential product, bit by bit.
\<close>

theorem matrix_multiply_parallel_ends:
  fixes ar :: "'a arith" and num_threads :: int and base :: ptr
  assumes "product_of a b c A B C h" and "0 < num_threads" and "num_threads < 2 ^ 31"
  defines "tasks \<equiv> row_tasks a b c (m_rows A) num_threads"
  defines "prog \<equiv> matrix_prog ar base tasks (m_cols B)"
  assumes "parallel_main pool base num_threads = Some calls" and "pool \<noteq> NULL" and "0 < workers" and "workers \<le> main"
    and "program_reach workers capacity pool prog ((\<lambda>_. [])(main := calls)) (Some h) x"
  shows "(\<nexists>run. run 0 = x \<and> (\<forall>i. awake_program_step workers pool prog (run i) (run (Suc i)))) \<and>
    (ended workers pool prog x \<longrightarrow>
      ps_freed (se_pool x) \<and> se_todo x main = [] \<and> (\<forall>t. se_rest x t = []) \<and>
      rows_computed ar c A B C h (\<lambda>i. \<exists>t. task_call base t \<notin> set (se_refused x) \<and> t < nat num_threads \<and>
        rt_start_row (tasks ! t) \<le> i \<and> i < rt_end_row (tasks ! t)) (se_data x) \<and>
      (se_refused x = [] \<longrightarrow> se_data x = matrix_multiply_sequential ar a b c h))"
proof (intro conjI impI)
  let ?calls = "map (task_call base) [0..<nat num_threads]" and ?xs = "pushed (plog (se_pool x))"
  have r: "program_reach workers capacity pool prog (batch_program main ?calls) (Some h) x"
    using assms(10) unfolding parallel_main_calls [OF assms(6,7)] .
  have small: "Suc (length ?calls) < 2 ^ 64" using assms(3) by simp
  show "\<nexists>run. run 0 = x \<and> (\<forall>i. awake_program_step workers pool prog (run i) (run (Suc i)))"
    by (rule batch_no_infinite_run [OF r assms(9) small])
  assume e: "ended workers pool prog x"
  note finish = batch_end [OF r assms(8,9,7) small e]
  show "ps_freed (se_pool x)" "se_todo x main = []" by (rule finish)+
  show "\<forall>t. se_rest x t = []" using ended_no_actions [OF r e] by blast
  note placed = accepted_or_refused [OF finish(3) assms(3)]
  have "se_data x = perform (all_actions prog ?xs) (Some h)"
    unfolding prog_def tasks_def
    by (rule product.program_performed [OF r [unfolded prog_def tasks_def] e [unfolded prog_def tasks_def]
        assms(8) batch_no_overflow(1) [OF r assms(9) small] product_start [OF assms(1)]])
  moreover have calls: "\<forall>y \<in> set ?xs. \<exists>t < nat num_threads. y = task_call base t" using placed(1) by auto
  ultimately have data: "rows_computed ar c A B C h (\<lambda>i. \<exists>t. task_call base t \<in> set ?xs \<and> t < nat num_threads \<and>
        rt_start_row (tasks ! t) \<le> i \<and> i < rt_end_row (tasks ! t)) (se_data x)"
      "set ?xs = task_call base ` {..<nat num_threads} \<Longrightarrow> se_data x = matrix_multiply_sequential ar a b c h"
    using calls_product [OF assms(1-3) calls, where ar = ar, folded tasks_def, folded prog_def] by simp_all
  show "se_data x = matrix_multiply_sequential ar a b c h" if "se_refused x = []"
    using data(2) placed(1) that by simp
  have "(task_call base t \<in> set ?xs \<and> t < nat num_threads) = (task_call base t \<notin> set (se_refused x) \<and> t < nat num_threads)" for t
    using placed by auto
  with data(1) show "rows_computed ar c A B C h (\<lambda>i. \<exists>t. task_call base t \<notin> set (se_refused x) \<and> t < nat num_threads \<and>
        rt_start_row (tasks ! t) \<le> i \<and> i < rt_end_row (tasks ! t)) (se_data x)"
    by (simp only: conj_assoc [symmetric])
qed


text \<open>The run of Matrix_Pool, continued: main returns from wait and destroys the pool.\<close>

definition matrix_program_run :: "(tid \<times> pool_action) list" where
  "matrix_program_run = matrix_run @ steps 2 1 @ [(2, Enter Destroy)] @ steps 2 10 @ steps 0 7 @ steps 1 7 @ steps 2 6"

lemma matrix_multiply_parallel_ends_witness:
  "\<exists>x g. program_exec 2 3 example_prog matrix_program_run (init_session 2 4 ((\<lambda>_. [])(2 :=
       submit_calls [(12288, 8192), (12288, 8224)] @ [Wait, Destroy])) (Some example_matrices)) = Some x \<and>
     ended 2 1 example_prog x \<and> se_data x = Some g \<and> g 24 = Some \<lparr>m_data = [19, 22, 43, 50], m_rows = 2, m_cols = 2\<rparr>"
proof -
  let ?calls = "submit_calls [(12288, 8192), (12288, 8224)] @ [Wait, Destroy]"
  let ?x = "program_exec 2 3 example_prog matrix_program_run (init_session 2 4 ((\<lambda>_. [])(2 := ?calls)) (Some example_matrices))"
  have "map_option (\<lambda>x. (ps_freed (se_pool x), se_refused x)) ?x = Some (True, [])"
    by (simp add: matrix_program_run_def matrix_run_def run_defs pushed_def example_calls init_session_def submit_calls_def
        turned_away_def offered_def)
  then obtain x where x: "?x = Some x" "ps_freed (se_pool x)" "se_refused x = []" by auto
  let ?A = "\<lparr>m_data = [1, 2, 3, 4], m_rows = 2, m_cols = 2\<rparr> :: int matrix"
    and ?B = "\<lparr>m_data = [5, 6, 7, 8], m_rows = 2, m_cols = 2\<rparr> :: int matrix"
  have r: "program_reach 2 4 1 example_prog ((\<lambda>_. [])(2 := ?calls)) (Some example_matrices) x"
    by (rule program_exec_reach [OF x(1)]) simp
  have e: "ended 2 1 example_prog x" by (rule freed_ended [OF r x(2)])
  have p: "product_of 8 16 24 ?A ?B \<lparr>m_data = [0, 0, 0, 0], m_rows = 2, m_cols = 2\<rparr> example_matrices"
    by (simp add: product_of_def wf_matrix_def example_matrices_def)
  have prog: "example_prog = matrix_prog int_arith 8192 (row_tasks 8 16 24 (m_rows ?A) 2) (m_cols ?B)"
    by (simp add: example_prog_def)
  have calls: "parallel_main 1 8192 2 = Some ?calls"
    by (simp add: parallel_main_def parallel_calls_def task_call_def COMPUTE_ROWS_def upt_rec)
  from matrix_multiply_parallel_ends [OF p _ _ calls _ _ _ r [unfolded prog]] e x(3)
  have "se_data x = matrix_multiply_sequential int_arith 8 16 24 example_matrices" by (simp add: prog)
  with x(1) e example_product show ?thesis by auto
qed

end
