(* ===== verification/Pool_Blocking.thy ===== *)
theory Pool_Blocking
  imports Pool_Programs
begin

text \<open>
  Tasks that can block. A step of a task is a partial function on the shared data, which includes the local
  state of the task: None while it waits for a semaphore or a mutex, and when it is over. The
  programs of the clients and the pool are those of Pool_Programs, but a worker leaves a task only when
  it is over.
\<close>

section \<open>Programs with such tasks\<close>

text \<open>
  What a worker does to the data when it enters a task (its local variables), its next step there, and
  whether the task is over.
\<close>

record 'g tasks =
  tk_start :: "tid \<Rightarrow> ptr \<times> ptr \<Rightarrow> 'g \<Rightarrow> 'g"
  tk_step :: "tid \<Rightarrow> ptr \<times> ptr \<Rightarrow> 'g \<Rightarrow> 'g option"
  tk_over :: "tid \<Rightarrow> ptr \<times> ptr \<Rightarrow> 'g \<Rightarrow> bool"

record 'g bsession =
  bs_pool :: psys
  bs_data :: 'g
  bs_todo :: "tid \<Rightarrow> pool_call list"
  bs_refused :: "(ptr \<times> ptr) list"

definition init_bsession :: "nat \<Rightarrow> size_t \<Rightarrow> (tid \<Rightarrow> pool_call list) \<Rightarrow> 'g \<Rightarrow> 'g bsession" where
  "init_bsession n capacity programs g0 =
     \<lparr>bs_pool = init_psys n capacity, bs_data = g0, bs_todo = programs, bs_refused = []\<rparr>"

definition may_leave :: "'g tasks \<Rightarrow> tid \<Rightarrow> pool_pc \<Rightarrow> 'g \<Rightarrow> bool" where
  "may_leave tk t p g \<longleftrightarrow> list_all (\<lambda>y. tk_over tk t y g) (started p)"

lemma may_leave_iff: "may_leave tk t p g \<longleftrightarrow> (\<forall>func arg. p = Work_Running func arg \<longrightarrow> tk_over tk t (func, arg) g)"
  unfolding may_leave_def by (cases p) auto

definition enter_task :: "'g tasks \<Rightarrow> tid \<Rightarrow> pool_pc \<Rightarrow> 'g \<Rightarrow> 'g" where
  "enter_task tk t p g = fold (tk_start tk t) (started p) g"

inductive blocking_step ::
  "nat \<Rightarrow> ptr \<Rightarrow> 'g tasks \<Rightarrow> tid \<Rightarrow> 'g bsession \<Rightarrow> 'g bsession \<Rightarrow> bool"
  for n pool tk t where
  in_pool: "pstep n t (bs_pool x) s' \<Longrightarrow> may_leave tk t (ps_pc (bs_pool x) t) (bs_data x) \<Longrightarrow>
    blocking_step n pool tk t x
    (x\<lparr>bs_pool := s', bs_data := enter_task tk t (ps_pc s' t) (bs_data x), bs_refused := bs_refused x @ turned_away (bs_pool x) t s'\<rparr>)"
| in_task: "ps_pc (bs_pool x) t = Work_Running func arg \<Longrightarrow> tk_step tk t (func, arg) (bs_data x) = Some g \<Longrightarrow>
    blocking_step n pool tk t x (x\<lparr>bs_data := g\<rparr>)"
| call: "n \<le> t \<Longrightarrow> bs_todo x t = c # cs \<Longrightarrow> ps_pc (bs_pool x) t = Idle \<Longrightarrow> \<not> ps_freed (bs_pool x) \<Longrightarrow>
    pool_enter pool c (bs_pool x) = Inr p \<Longrightarrow> blocking_step n pool tk t x
    (x\<lparr>bs_pool := to t p (bs_pool x), bs_todo := (bs_todo x)(t := cs)\<rparr>)"
| refused: "n \<le> t \<Longrightarrow> bs_todo x t = c # cs \<Longrightarrow> ps_pc (bs_pool x) t = Idle \<Longrightarrow> \<not> ps_freed (bs_pool x) \<Longrightarrow>
    pool_enter pool c (bs_pool x) = Inl r \<Longrightarrow> blocking_step n pool tk t x
    (x\<lparr>bs_todo := (bs_todo x)(t := cs), bs_refused := bs_refused x @ submits [c]\<rparr>)"

inductive blocking_reach ::
  "nat \<Rightarrow> size_t \<Rightarrow> ptr \<Rightarrow> 'g tasks \<Rightarrow> (tid \<Rightarrow> pool_call list) \<Rightarrow> 'g \<Rightarrow> 'g bsession \<Rightarrow> bool"
  for n capacity pool tk programs g0 where
  init: "blocking_reach n capacity pool tk programs g0 (init_bsession n capacity programs g0)"
| step: "blocking_reach n capacity pool tk programs g0 x \<Longrightarrow> blocking_step n pool tk t x x' \<Longrightarrow>
    blocking_reach n capacity pool tk programs g0 x'"

definition awake_blocking_step ::
  "nat \<Rightarrow> ptr \<Rightarrow> 'g tasks \<Rightarrow> 'g bsession \<Rightarrow> 'g bsession \<Rightarrow> bool" where
  "awake_blocking_step n pool tk x x' \<longleftrightarrow>
     (\<exists>t. blocking_step n pool tk t x x' \<and> \<not> asleep (bs_pool x) t)"

definition at_end :: "nat \<Rightarrow> ptr \<Rightarrow> 'g tasks \<Rightarrow> 'g bsession \<Rightarrow> bool" where
  "at_end n pool tk x \<longleftrightarrow> (\<nexists>x'. awake_blocking_step n pool tk x x')"

section \<open>The program without its data\<close>

text \<open>Without the data it is a program of Pool_Programs whose tasks do nothing.\<close>

definition erase :: "'g bsession \<Rightarrow> unit session" where
  "erase x = \<lparr>se_pool = bs_pool x, se_rest = (\<lambda>_. []), se_data = (), se_todo = bs_todo x, se_refused = bs_refused x\<rparr>"

abbreviation no_actions :: "unit program" where
  "no_actions \<equiv> \<lambda>_. []"

lemma erase_simps [simp]: "se_pool (erase x) = bs_pool x" "se_rest (erase x) = (\<lambda>_. [])" "se_todo (erase x) = bs_todo x"
  "se_refused (erase x) = bs_refused x"
  by (simp_all add: erase_def)

lemma no_task_actions: "task_actions no_actions p = []"
  by (cases p) auto

lemma erase_step:
  assumes "blocking_step n pool tk t x x'"
  shows "program_step n pool no_actions t (erase x) (erase x') \<or>
    erase x' = erase x \<and> (\<exists>func arg. ps_pc (bs_pool x) t = Work_Running func arg \<and> tk_step tk t (func, arg) (bs_data x) = Some (bs_data x'))"
  using assms
proof (cases rule: blocking_step.cases)
  case (in_pool s')
  have "erase x' = (erase x)\<lparr>se_pool := s', se_rest := (se_rest (erase x))(t := task_actions no_actions (ps_pc s' t)),
      se_refused := se_refused (erase x) @ turned_away (se_pool (erase x)) t s'\<rparr>"
    using in_pool(1) by (simp add: erase_def no_task_actions fun_eq_iff)
  with program_step.in_pool [of "erase x" t n s' pool no_actions] in_pool(2) show ?thesis by simp
next
  case (in_task func arg g)
  then show ?thesis by (simp add: erase_def)
next
  case (call c cs p)
  with program_step.call [of n t "erase x" c cs pool p no_actions] show ?thesis by (simp add: erase_def)
next
  case (refused c cs r)
  with program_step.refused [of n t "erase x" c cs pool r no_actions] show ?thesis by (simp add: erase_def)
qed

lemma blocking_program: "blocking_reach n capacity pool tk programs g0 x \<Longrightarrow>
   program_reach n capacity pool no_actions programs () (erase x)"
proof (induction rule: blocking_reach.induct)
  case init
  have "erase (init_bsession n capacity programs g0) = init_session n capacity programs ()"
    by (simp add: erase_def init_bsession_def init_session_def)
  then show ?case using program_reach.init by simp
next
  case (step x t x')
  from erase_step [OF step.hyps(2)] step.IH program_reach.step [OF step.IH] show ?case by auto
qed

lemma blocking_preach: "blocking_reach n capacity pool tk programs g0 x \<Longrightarrow> preach n capacity (bs_pool x)"
  using program_preach [OF blocking_program] by simp

section \<open>Termination\<close>

text \<open>If no task can go on for ever, the whole cannot.\<close>

lemma blocking_no_infinite_run:
  fixes run :: "nat \<Rightarrow> 'g bsession" and steps_left :: "'g \<Rightarrow> nat"
  assumes r: "blocking_reach n capacity pool tk programs g0 (run 0)" and f: "finite {t. programs t \<noteq> []}"
    and st: "\<And>i. awake_blocking_step n pool tk (run i) (run (Suc i))"
    and dec: "\<And>x t func arg g. blocking_reach n capacity pool tk programs g0 x \<Longrightarrow>
      ps_pc (bs_pool x) t = Work_Running func arg \<Longrightarrow> tk_step tk t (func, arg) (bs_data x) = Some g \<Longrightarrow> steps_left g < steps_left (bs_data x)"
  shows False
proof -
  let ?m = "measures [calls_left \<circ> erase, \<lambda>x. work_left n (bs_pool x), \<lambda>x. wakeups_left (bs_pool x),
     \<lambda>x. distance (bs_pool x), \<lambda>x. actions_left (erase x), \<lambda>x. steps_left (bs_data x)] :: ('g bsession \<times> 'g bsession) set"
  have r': "blocking_reach n capacity pool tk programs g0 (run i)" for i
  proof (induction i)
    case (Suc i)
    with st [of i] show ?case unfolding awake_blocking_step_def by (blast intro: blocking_reach.step)
  qed (rule r)
  have "(run (Suc i), run i) \<in> ?m" for i
  proof -
    obtain t where t: "blocking_step n pool tk t (run i) (run (Suc i))" "\<not> asleep (bs_pool (run i)) t"
      using st unfolding awake_blocking_step_def by blast
    from erase_step [OF t(1)] show ?thesis
    proof (elim disjE conjE exE)
      assume "program_step n pool no_actions t (erase (run i)) (erase (run (Suc i)))"
      then have "awake_program_step n pool no_actions (erase (run i)) (erase (run (Suc i)))"
        using t(2) unfolding awake_program_step_def by auto
      from awake_program_step_measure [OF blocking_program [OF r'] f this] show ?thesis by auto
    next
      fix func arg assume e: "erase (run (Suc i)) = erase (run i)" "ps_pc (bs_pool (run i)) t = Work_Running func arg"
        "tk_step tk t (func, arg) (bs_data (run i)) = Some (bs_data (run (Suc i)))"
      have "bs_pool (run (Suc i)) = bs_pool (run i)" using arg_cong [OF e(1), of se_pool] by simp
      with dec [OF r' e(2,3)] e(1) show ?thesis by simp
    qed
  qed
  moreover have "wf ?m" by simp
  ultimately show False unfolding wf_iff_no_infinite_down_chain by blast
qed

section \<open>Where it ends\<close>

text \<open>The workers that are inside a task that is not over.\<close>

definition blocked :: "'g tasks \<Rightarrow> 'g bsession \<Rightarrow> tid set" where
  "blocked tk x = {t. \<exists>func arg. ps_pc (bs_pool x) t = Work_Running func arg \<and> \<not> tk_over tk t (func, arg) (bs_data x)}"

lemma running_worker: "preach n capacity s \<Longrightarrow> ps_pc s t = Work_Running func arg \<Longrightarrow> t < n"
  using placed_reach [of n capacity s] by (metis is_worker.simps(6) placed_def)

lemma freed_not_running: "preach n capacity s \<Longrightarrow> ps_freed s \<Longrightarrow> ps_pc s t \<noteq> Work_Running func arg"
  using running_worker [of n capacity s t] single_destroyD(4) [OF single_destroy_reach [of n capacity s], of t] by auto

lemma running_awake: "preach n capacity s \<Longrightarrow> ps_pc s t = Work_Running func arg \<Longrightarrow> \<not> asleep s t"
  using fits_reach [of n capacity s t] by (auto simp: asleep_def)

lemma at_end_no_step: "at_end n pool tk x \<Longrightarrow> blocking_step n pool tk t x x' \<Longrightarrow> asleep (bs_pool x) t"
  unfolding at_end_def awake_blocking_step_def by blast

lemma at_end_stuck:
  assumes "at_end n pool tk x"
  shows "stuck (blocked tk x) n (bs_pool x)"
  unfolding stuck_def
proof (intro conjI allI impI ballI)
  fix t s' assume t: "t \<notin> blocked tk x" and st: "pstep n t (bs_pool x) s'"
  have "may_leave tk t (ps_pc (bs_pool x) t) (bs_data x)" using t by (auto simp: may_leave_iff blocked_def)
  from at_end_no_step [OF assms blocking_step.in_pool [OF st this]] show "asleep (bs_pool x) t" .
qed (auto simp: blocked_def)

lemma at_end_task:
  assumes "blocking_reach n capacity pool tk programs g0 x" and "at_end n pool tk x"
    and "ps_pc (bs_pool x) t = Work_Running func arg"
  shows "tk_step tk t (func, arg) (bs_data x) = None"
proof (cases "tk_step tk t (func, arg) (bs_data x)")
  case (Some g)
  from at_end_no_step [OF assms(2) blocking_step.in_task [of x t func arg tk g, OF assms(3) Some]]
    running_awake [OF blocking_preach [OF assms(1)] assms(3)] show ?thesis by blast
qed

lemma at_end_idle:
  assumes r: "blocking_reach n capacity pool tk programs g0 x" and e: "at_end n pool tk x"
    and f: "\<not> ps_freed (bs_pool x)" and t: "n \<le> t" and i: "ps_pc (bs_pool x) t = Idle"
  shows "bs_todo x t = []"
proof (cases "bs_todo x t")
  case (Cons c cs)
  have "mpcs (ps_queue (bs_pool x)) t = Outside" using fits_reach [OF blocking_preach [OF r], of t] i by simp
  with i have aw: "\<not> asleep (bs_pool x) t" by (simp add: asleep_def)
  show ?thesis
  proof (cases "pool_enter pool c (bs_pool x)")
    case (Inl y)
    from at_end_no_step [OF e blocking_step.refused [OF t Cons i f Inl]] aw show ?thesis by blast
  next
    case (Inr p)
    from at_end_no_step [OF e blocking_step.call [OF t Cons i f Inr]] aw show ?thesis by blast
  qed
qed

text \<open>If no task is blocked, it is an end of the program without its data.\<close>

lemma unblocked_ended:
  assumes r: "blocking_reach n capacity pool tk programs g0 x" and e: "at_end n pool tk x"
    and b: "blocked tk x = {}"
  shows "ended n pool no_actions (erase x)"
  unfolding ended_def awake_program_step_def
proof (intro notI, elim exE conjE)
  fix x' t assume st: "program_step n pool no_actions t (erase x) x'" and aw: "\<not> asleep (se_pool (erase x)) t"
  from st show False
  proof (cases rule: program_step.cases)
    case (in_pool s')
    have "may_leave tk t (ps_pc (bs_pool x) t) (bs_data x)" using b by (auto simp: may_leave_iff blocked_def)
    with at_end_no_step [OF e blocking_step.in_pool] in_pool(3) aw show ?thesis by simp
  next
    case (call c cs p)
    with at_end_idle [OF r e, of t] show ?thesis by simp
  next
    case (refused c cs y)
    with at_end_idle [OF r e, of t] show ?thesis by simp
  qed simp
qed

section \<open>Called tasks\<close>

lemma act_ran_grows: "act n cf t p s = Some s' \<Longrightarrow> set (ps_ran s) \<subseteq> set (ps_ran s')"
  by (cases p) (auto simp: queue_moves split: if_splits option.splits mpc.splits)

lemma pstep_ran_grows: "pstep n t s s' \<Longrightarrow> set (ps_ran s) \<subseteq> set (ps_ran s')"
  by (erule pstep.cases) (auto dest: act_ran_grows)

lemma after_not_running [simp]: "after_pop r \<noteq> Work_Running f a" "after_push r \<noteq> Work_Running f a" "after_size r \<noteq> Work_Running f a"
  by (cases r; simp)+

lemma act_to_running: "act n cf t p s = Some s' \<Longrightarrow> ps_pc s' t = Work_Running func arg \<Longrightarrow> (t, func, arg) \<in> set (ps_ran s')"
  by (cases p) (auto simp: queue_moves split: if_splits option.splits mpc.splits)

lemma running_called: "preach n capacity s \<Longrightarrow> ps_pc s t = Work_Running func arg \<Longrightarrow> (t, func, arg) \<in> set (ps_ran s)"
proof (induction arbitrary: t func arg rule: preach.induct)
  case init
  then show ?case by (simp add: init_psys_def split: if_splits)
next
  case (step s u s' t func arg)
  have grow: "set (ps_ran s) \<subseteq> set (ps_ran s')" using step.hyps(2) by (rule pstep_ran_grows)
  show ?case
  proof (cases "u = t")
    case False
    with pstep_others [OF step.hyps(2), of t] step.prems have "ps_pc s t = Work_Running func arg" by auto
    with step.IH grow show ?thesis by blast
  next
    case True
    show ?thesis using step.hyps(2) [unfolded True] step.prems step.IH [of t func arg] grow
      by (auto elim!: pstep.cases dest!: act_to_running)
  qed
next
  case (enter s u pool c p t func arg)
  have "p \<noteq> Work_Running func arg" using enter.hyps(5) by (cases c) (auto split: if_splits)
  with enter show ?case by (auto split: if_splits)
qed

text \<open>If no task has been called twice, no two workers are inside the same.\<close>

lemma called_once_unique:
  assumes "preach n capacity s" and "distinct (map snd (ps_ran s))"
    and "ps_pc s t = Work_Running func arg" and "ps_pc s u = Work_Running func arg"
  shows "t = u"
proof -
  have "inj_on snd (set (ps_ran s))" using assms(2) by (simp add: distinct_map)
  from inj_onD [OF this _ running_called [OF assms(1,3)] running_called [OF assms(1,4)]] show ?thesis by simp
qed

lemma distinct_submset: "mset xs \<subseteq># mset ys \<Longrightarrow> distinct ys \<Longrightarrow> distinct xs"
proof -
  assume "mset xs \<subseteq># mset ys" and d: "distinct ys"
  then obtain M where "mset ys = mset xs + M" by (auto simp: mset_subset_eq_exists_conv)
  moreover obtain zs where "mset zs = M" using ex_mset by blast
  ultimately have "mset ys = mset (xs @ zs)" by simp
  from mset_eq_imp_distinct_iff [OF this] d show "distinct xs" by simp
qed

text \<open>Running workers hold nothing either.\<close>

lemma running_holds_nothing:
  assumes r: "preach n capacity s" and w: "\<And>t. t < n \<Longrightarrow> at_rest s t \<or> (\<exists>func arg. ps_pc s t = Work_Running func arg)"
  shows "sum_of held s = {#}"
proof (rule trans [OF total_same total_zero])
  fix t
  have "got (res s t) = {#} \<and> held_pc (ps_pc s t) = {#}"
  proof (cases "t < n")
    case True
    from w [OF this] fits_reach [OF r, of t] show ?thesis by (auto simp: at_rest_def)
  next
    case False
    then have "\<not> is_worker (ps_pc s t)" using placed_reach [OF r] by (simp add: placed_def)
    with client_holds_nothing [OF r] show ?thesis by simp
  qed
  then show "held (ps_pc s t) (res s t) = 0" by (simp add: held_def)
qed

lemma member_total: "y \<in># total f \<Longrightarrow> \<exists>t. y \<in># f t"
proof -
  have "y \<in># sum f A \<Longrightarrow> \<exists>t. y \<in># f t" for A
    by (induction A rule: infinite_finite_induct) auto
  then show "y \<in># total f \<Longrightarrow> \<exists>t. y \<in># f t" unfolding total_def by blast
qed

text \<open>A worker that is not inside a task has left, or has found the queue empty.\<close>

lemma stuck_worker:
  assumes r: "preach n capacity s" and f: "\<not> ps_freed s" and st: "stuck B n s" and u: "u < n" "u \<notin> B"
  shows "at_rest s u" and "contents (mdata (ps_queue s)) = []" and "q_count (mdata (ps_queue s)) = 0"
proof -
  have "is_worker (ps_pc s u)" using placed_reach [OF r] u(1) by (simp add: placed_def)
  with stuck_positions [OF r f st u(2)]
  have pos: "ps_pc s u = Work_Exit \<or> ps_pc s u = Work_Pop \<and> mpcs (ps_queue s) u = Asleep Pop Not_Empty \<and> q_count (mdata (ps_queue s)) = 0"
    by auto
  have wf: "queue_wf (mdata (ps_queue s))" by (rule queue.reach_invariant [OF queue_reach [OF r] new_queue_wf(1)])
  from pos show "at_rest s u" by (auto simp: at_rest_def)
  from pos show c: "contents (mdata (ps_queue s)) = []"
    using exit_logged [OF r, of u] shutdown_drains [OF queue_reach [OF r] new_queue_wf(1)] contents_empty [OF wf] by auto
  then show "q_count (mdata (ps_queue s)) = 0" using contents_empty [OF wf] by blast
qed

section \<open>A main that submits, waits and destroys\<close>

lemma pstep_waiting: "pstep n t s s' \<Longrightarrow> waiting_for (ps_pc s' t) = Some k \<Longrightarrow> waiting_for (ps_pc s t) = Some k"
  by (erule pstep.cases) (auto dest: act_waiting)

lemma batch_wait_last:
  assumes "ys @ Wait # cs = submit_calls xs @ [Wait, Destroy]"
  shows "cs = [Destroy]"
proof -
  have "Wait \<notin> set (submit_calls xs)" by (auto simp: submit_calls_def)
  with append_Cons_eq_iff [of Wait "submit_calls xs" "[Destroy]" ys cs] assms show ?thesis by auto
qed

text \<open>When main waits, only destroy is left.\<close>

lemma batch_waiting: "program_reach n capacity pool prog (batch_program main xs) g0 x \<Longrightarrow>
   (\<exists>ys. submit_calls xs @ [Wait, Destroy] = ys @ se_todo x main) \<and>
   (waiting_for (ps_pc (se_pool x) main) \<noteq> None \<longrightarrow> n \<le> main \<longrightarrow> se_todo x main = [Destroy])"
proof (induction rule: program_reach.induct)
  case init
  then show ?case by (auto simp: init_psys_def)
next
  case (step x t x')
  then obtain ys where ys: "submit_calls xs @ [Wait, Destroy] = ys @ se_todo x main"
    and w: "waiting_for (ps_pc (se_pool x) main) \<noteq> None \<Longrightarrow> n \<le> main \<Longrightarrow> se_todo x main = [Destroy]" by blast
  from step.hyps(2) show ?case
  proof (cases rule: program_step.cases)
    case (in_pool s')
    have "waiting_for (ps_pc s' main) \<noteq> None \<Longrightarrow> waiting_for (ps_pc (se_pool x) main) \<noteq> None"
      using pstep_waiting [OF in_pool(3)] pstep_others [OF in_pool(3), of main] by (cases "t = main") auto
    with ys w in_pool(1) show ?thesis by auto
  next
    case (action f fs)
    with ys w show ?thesis by auto
  next
    case (call c cs p)
    have c: "waiting_for p \<noteq> None \<Longrightarrow> c = Wait" using call(6) by (cases c) (auto split: if_splits)
    show ?thesis
    proof (cases "t = main")
      case True
      with call(3) ys have ys': "submit_calls xs @ [Wait, Destroy] = (ys @ [c]) @ cs" by simp
      have "waiting_for p \<noteq> None \<Longrightarrow> cs = [Destroy]" using c batch_wait_last [of ys cs xs] ys' by simp
      with ys' call(1) True show ?thesis by auto
    qed (use ys w call(1) in auto)
  next
    case (refused c cs r)
    show ?thesis
    proof (cases "t = main")
      case True
      with refused(3) ys have "submit_calls xs @ [Wait, Destroy] = (ys @ [c]) @ cs" by simp
      with refused(1,4) True show ?thesis by auto
    qed (use ys w refused(1) in auto)
  qed
qed

text \<open>When main goes no further before it is through, nothing is left to submit.\<close>

lemma batch_stuck_submitted:
  assumes r: "blocking_reach n capacity pool tk (batch_program main xs) g0 x" and e: "at_end n pool tk x"
    and f: "\<not> ps_freed (bs_pool x)" and m: "n \<le> main" and p: "pool \<noteq> NULL" and q: "q_count (mdata (ps_queue (bs_pool x))) = 0"
  shows "mset (pushed (plog (bs_pool x))) + mset (bs_refused x) = mset xs"
proof -
  note r' = blocking_preach [OF r] and pr = blocking_program [OF r]
  have nb: "main \<notin> blocked tk x" using placed_reach [OF r'] m by (auto simp: blocked_def placed_def) (metis is_worker.simps(6) not_le)
  have nw: "\<not> is_worker (ps_pc (bs_pool x) main)" using placed_reach [OF r'] m by (simp add: placed_def)
  have pos: "ps_pc (bs_pool x) main = Idle \<or> (\<exists>k c. ps_pc (bs_pool x) main = Wait_Sleep k c) \<or> (\<exists>i. ps_pc (bs_pool x) main = Destroy_Join i)"
    using stuck_positions [OF r' f at_end_stuck [OF e] nb] nw q by auto
  have "Destroy \<notin> set (submit_calls xs @ [Wait])" by simp
  from main_inv [OF pr [unfolded batch_program_main] m p this]
  have inv: "before_destroy main (erase x) \<or> past_destroy main (erase x)" .
  have todo: "submits (bs_todo x main) = []"
    using pos
  proof (elim disjE exE)
    assume "ps_pc (bs_pool x) main = Idle"
    from at_end_idle [OF r e f m this] show ?thesis by simp
  next
    fix k c assume "ps_pc (bs_pool x) main = Wait_Sleep k c"
    with batch_waiting [OF pr] m show ?thesis by simp
  next
    fix i assume d: "ps_pc (bs_pool x) main = Destroy_Join i"
    have "ps_state (bs_pool x) \<noteq> POOL_STATE_RUNNING"
      using single_destroyD(2) [OF single_destroy_reach [OF r'], of main] d by auto
    with inv show ?thesis by (auto simp: before_destroy_def past_destroy_def)
  qed
  have other: "bs_todo x u = []" if "u \<noteq> main" for u
    using todo_programs [OF pr, of u] that by simp
  have "all_submits (bs_todo x) = {#}"
    by (rule trans [OF total_same total_zero]) (metis other todo mset_zero_iff submits.simps(1))
  moreover have "total (\<lambda>t. mset (offered (bs_pool x) t)) = {#}"
  proof (rule trans [OF total_same total_zero])
    fix u
    have "is_worker (ps_pc (bs_pool x) u) \<or> ps_pc (bs_pool x) u = Idle \<or> u = main"
      using placed_reach [OF r'] others_idle [OF batch_client [OF pr], of u] by (auto simp: placed_def not_le [symmetric])
    then show "mset (offered (bs_pool x) u) = 0" using pos
      by (cases "ps_pc (bs_pool x) u") (auto simp: offered_def)
  qed
  moreover have "total (\<lambda>t. mset (submits (batch_program main xs t))) = sum (\<lambda>t. mset (submits (batch_program main xs t))) {main}"
    by (rule total_superset) auto
  moreover have "finite {t. batch_program main xs t \<noteq> []}" by simp
  ultimately show ?thesis using submits_account [OF pr] by (simp del: fun_upd_apply add: fun_upd_same)
qed

lemma blocking_no_overflow:
  assumes "blocking_reach n capacity pool tk (batch_program main xs) g0 x" and "n \<le> main" "Suc (length xs) < 2 ^ 64"
  shows "mset (map snd (ps_ran (bs_pool x))) \<subseteq># mset xs"
proof -
  note r' = blocking_preach [OF assms(1)]
  have "mset (map snd (ps_ran (bs_pool x))) \<subseteq># mset (popped (plog (bs_pool x)))"
    using tasks_account [OF r'] by simp
  also have "\<dots> \<subseteq># mset (pushed (plog (bs_pool x)))"
    using arg_cong [OF fifo_order [OF queue_reach [OF r'] new_queue_wf(1)], of mset] by simp
  also have "\<dots> \<subseteq># mset xs" using batch_no_overflow(2) [OF blocking_program [OF assms(1)] assms(2,3)] by simp
  finally show ?thesis .
qed

lemma blocking_freed:
  assumes "blocking_reach n capacity pool tk (batch_program main xs) g0 x" and "0 < n" "n \<le> main" "pool \<noteq> NULL"
    and "Suc (length xs) < 2 ^ 64" and "ps_freed (bs_pool x)"
  shows "mset (map snd (ps_ran (bs_pool x))) + mset (bs_refused x) = mset xs"
proof -
  note pr = blocking_program [OF assms(1)]
  have "ended n pool no_actions (erase x)" by (rule freed_ended [OF pr]) (use assms(6) in simp)
  from batch_end(3) [OF pr assms(2-5) this] freed_all_done [OF blocking_preach [OF assms(1)] assms(6,2)]
  show ?thesis by simp
qed

lemma blocking_end:
  assumes "blocking_reach n capacity pool tk (batch_program main xs) g0 x" and "0 < n" "n \<le> main" "pool \<noteq> NULL"
    and "Suc (length xs) < 2 ^ 64" and "at_end n pool tk x" and "blocked tk x = {}"
  shows "ps_freed (bs_pool x)" and "bs_todo x main = []"
  using batch_end(1,2) [OF blocking_program [OF assms(1)] assms(2-5) unblocked_ended [OF assms(1,6,7)]] by simp_all

section \<open>Concrete runs\<close>

lemma blocking_freed_at_end:
  assumes r: "blocking_reach n capacity pool tk programs g0 x" and f: "ps_freed (bs_pool x)"
  shows "at_end n pool tk x"
  unfolding at_end_def awake_blocking_step_def
proof (intro notI, elim exE conjE)
  fix x' t assume "blocking_step n pool tk t x x'"
  then show False
  proof (cases rule: blocking_step.cases)
    case (in_pool s')
    with f show False by (auto elim: pstep.cases)
  next
    case (in_task func arg g)
    with freed_not_running [OF blocking_preach [OF r] f] show False by simp
  qed (use f in simp_all)
qed

text \<open>The scheduler of Pool_Programs; an action of a worker inside a task that is not over is a step of the task.\<close>

fun blocking_exec :: "nat \<Rightarrow> nat \<Rightarrow> 'g tasks \<Rightarrow> (tid \<times> pool_action) list \<Rightarrow> 'g bsession \<Rightarrow>
    'g bsession option" where
  "blocking_exec n m tk [] x = Some x"
| "blocking_exec n m tk ((t, a) # as) x =
     (if \<not> may_leave tk t (ps_pc (bs_pool x) t) (bs_data x)
      then (case tk_step tk t (hd (started (ps_pc (bs_pool x) t))) (bs_data x) of None \<Rightarrow> None
         | Some g \<Rightarrow> blocking_exec n m tk as (x\<lparr>bs_data := g\<rparr>))
      else if ps_freed (bs_pool x) then None
      else (case pexec1 n m (t, a) (bs_pool x) of None \<Rightarrow> None
         | Some s' \<Rightarrow> (case a of
             Enter c \<Rightarrow> (case bs_todo x t of [] \<Rightarrow> None
               | d # cs \<Rightarrow> if c = d then blocking_exec n m tk as (x\<lparr>bs_pool := s', bs_todo := (bs_todo x)(t := cs)\<rparr>) else None)
           | _ \<Rightarrow> blocking_exec n m tk as
               (x\<lparr>bs_pool := s', bs_data := enter_task tk t (ps_pc s' t) (bs_data x), bs_refused := bs_refused x @ turned_away (bs_pool x) t s'\<rparr>))))"

lemma blocking_exec_reach_from:
  "blocking_reach n capacity 1 tk programs g0 x \<Longrightarrow> \<forall>t\<ge>m. ps_pc (bs_pool x) t = Idle \<Longrightarrow>
   blocking_exec n m tk as x = Some x' \<Longrightarrow> blocking_reach n capacity 1 tk programs g0 x'"
proof (induction as arbitrary: x)
  case (Cons ta as)
  obtain t a where ta: "ta = (t, a)" by (cases ta)
  show ?case
  proof (cases "may_leave tk t (ps_pc (bs_pool x) t) (bs_data x)")
    case False
    then obtain func arg where p: "ps_pc (bs_pool x) t = Work_Running func arg" by (auto simp: may_leave_iff)
    with Cons.prems(3) ta False obtain g where g: "tk_step tk t (func, arg) (bs_data x) = Some g"
      "blocking_exec n m tk as (x\<lparr>bs_data := g\<rparr>) = Some x'" by (auto split: option.splits)
    show ?thesis
      by (rule Cons.IH [OF blocking_reach.step [OF Cons.prems(1) blocking_step.in_task [of x t func arg tk g, OF p g(1)]] _ g(2)])
        (use Cons.prems(2) in simp)
  next
    case leave: True
    with Cons.prems(3) ta obtain s1 where f: "\<not> ps_freed (bs_pool x)" and e: "pexec1 n m (t, a) (bs_pool x) = Some s1"
      by (auto split: option.splits if_splits simp del: pexec1.simps)
    note idle = conjunct2 [OF pexec1_reach [OF blocking_preach [OF Cons.prems(1)] Cons.prems(2) f e]]
    show ?thesis
    proof (cases "\<exists>c. a = Enter c")
      case True
      then obtain c where c: "a = Enter c" by blast
      with Cons.prems(3) ta leave f e obtain cs where cs: "bs_todo x t = c # cs"
        "blocking_exec n m tk as (x\<lparr>bs_pool := s1, bs_todo := (bs_todo x)(t := cs)\<rparr>) = Some x'"
        by (auto split: list.splits if_splits simp del: pexec1.simps)
      from pexec1_enter [OF e [unfolded c]] obtain p where p: "n \<le> t" "ps_pc (bs_pool x) t = Idle"
        "pool_enter 1 c (bs_pool x) = Inr p" "s1 = to t p (bs_pool x)" by blast
      from blocking_reach.step [OF Cons.prems(1) blocking_step.call [OF p(1) cs(1) p(2) f p(3)]]
      show ?thesis using Cons.IH [OF _ _ cs(2)] idle p(4) by simp
    next
      case False
      with Cons.prems(3) ta leave f e have "blocking_exec n m tk as
          (x\<lparr>bs_pool := s1, bs_data := enter_task tk t (ps_pc s1 t) (bs_data x), bs_refused := bs_refused x @ turned_away (bs_pool x) t s1\<rparr>) = Some x'"
        by (cases a) (simp_all del: pexec1.simps)
      moreover have "pstep n t (bs_pool x) s1"
        using pexec1_pstep [OF blocking_preach [OF Cons.prems(1)] Cons.prems(2) f e] False by blast
      ultimately show ?thesis
        using Cons.IH [OF blocking_reach.step [OF Cons.prems(1) blocking_step.in_pool [OF _ leave]]] idle by simp
    qed
  qed
qed simp

lemma blocking_exec_reach:
  assumes "blocking_exec n m tk as (init_bsession n capacity programs g0) = Some x" and "n \<le> m"
  shows "blocking_reach n capacity 1 tk programs g0 x"
  by (rule blocking_exec_reach_from [OF blocking_reach.init _ assms(1)])
    (use assms(2) in \<open>simp add: init_bsession_def init_psys_def\<close>)

end
