(* ===== verification/Client_Calls.thy ===== *)
theory Client_Calls
  imports Semaphore Monitor_Trace
begin

text \<open>
  What the example programs share: the integers of C with a check for overflow, a call of the
  library as one step of a client, what the calls on an initialised mutex or semaphore do to it,
  and sums over threads of which one moves.
\<close>

section \<open>Integers\<close>

text \<open>The values of C's int on both platforms; an overflow is undefined behaviour.\<close>

definition fits_int :: "int \<Rightarrow> bool" where
  "fits_int v \<longleftrightarrow> - (2 ^ 31) \<le> v \<and> v < 2 ^ 31"

definition fits_long :: "int \<Rightarrow> bool" where
  "fits_long v \<longleftrightarrow> - (2 ^ 63) \<le> v \<and> v < 2 ^ 63"

section \<open>Calls as steps\<close>

text \<open>A library call as a step: None when it blocks (or is undefined). Its result is ignored, as in C.\<close>

fun after_call :: "('h, 'r) outcome \<Rightarrow> ('h \<Rightarrow> 's) \<Rightarrow> 's option" where
  "after_call (Returns h r) k = Some (k h)"
| "after_call m k = None"

section \<open>What a call does to its object\<close>

lemma sem_init_object:
  "sync_sem_init p lr cr q n (h, live) = Returns (h', live') SUCCESS \<Longrightarrow> q \<noteq> NULL \<Longrightarrow> h q \<noteq> None \<Longrightarrow>
   h' q = Some \<lparr>ss_count = n, ss_max_count = n, ss_initialized = True\<rparr>"
  by (auto simp: sync_sem_init_def Let_def split: if_splits option.splits)

lemma mutex_init_object:
  "sync_mutex_init p 0 q h = Returns h' SUCCESS \<Longrightarrow> q \<noteq> NULL \<Longrightarrow> h q \<noteq> None \<Longrightarrow>
   h' q = Some \<lparr>sm_lock = \<lparr>pm_type = PTHREAD_MUTEX_ERRORCHECK, pm_owner = None\<rparr>, sm_initialized = True\<rparr>"
  by (auto simp: sync_defs pthread_defs Let_def)

text \<open>The calls on a mutex that the initialisation made: what they do when they do not block.\<close>

lemma checked_lock_free:
  assumes "mutex \<noteq> NULL" "h mutex = Some m" "checked_mutex m" "pm_owner (sm_lock m) = None"
  shows "\<exists>m'. sync_mutex_lock p t mutex h = Returns (h(mutex \<mapsto> m')) SUCCESS \<and>
    checked_mutex m' \<and> pm_owner (sm_lock m') = Some t"
  using assms
  by (intro exI [of _ "m\<lparr>sm_lock := (sm_lock m)\<lparr>pm_owner := Some t\<rparr>\<rparr>"])
    (simp add: sync_defs pthread_defs checked_mutex_def)

lemma checked_lock_returns:
  assumes "mutex \<noteq> NULL" "h mutex = Some m" "checked_mutex m" "sync_mutex_lock p t mutex h = Returns h' r"
    "pm_owner (sm_lock m) \<noteq> Some t"
  shows "pm_owner (sm_lock m) = None"
  using assms by (auto simp: sync_defs pthread_defs checked_mutex_def split: option.splits if_splits)

lemma checked_unlock:
  assumes "mutex \<noteq> NULL" "h mutex = Some m" "checked_mutex m" "pm_owner (sm_lock m) = Some t"
  shows "\<exists>m'. sync_mutex_unlock p t mutex h = Returns (h(mutex \<mapsto> m')) SUCCESS \<and>
    checked_mutex m' \<and> pm_owner (sm_lock m') = None"
  using assms
  by (intro exI [of _ "m\<lparr>sm_lock := (sm_lock m)\<lparr>pm_owner := None\<rparr>\<rparr>"])
    (simp add: sync_defs pthread_defs checked_mutex_def)

definition sem_holds :: "ptr \<Rightarrow> sync_sem heap \<Rightarrow> nat \<Rightarrow> bool" where
  "sem_holds q h n \<longleftrightarrow> (\<exists>x. h q = Some x \<and> ss_initialized x \<and> unat (ss_count x) = n)"

definition mutex_held :: "ptr \<Rightarrow> sync_mutex heap \<Rightarrow> tid option \<Rightarrow> bool" where
  "mutex_held q h u \<longleftrightarrow> (\<exists>m. h q = Some m \<and> checked_mutex m \<and> pm_owner (sm_lock m) = u)"

lemma unat_inc: "unat (w :: u32) + 1 < 2 ^ 32 \<Longrightarrow> unat (w + 1) = unat w + 1"
  by (simp add: unat_word_ariths)

lemma sem_wait_call:
  assumes "q \<noteq> NULL" and "sem_holds q h n"
  shows "if n = 0 then sync_sem_wait q h = Blocks
    else \<exists>x. sync_sem_wait q h = Returns (h(q \<mapsto> x)) (Code SUCCESS) \<and> sem_holds q (h(q \<mapsto> x)) (n - 1)"
proof -
  from assms(2) obtain x where x: "h q = Some x" "ss_initialized x" "unat (ss_count x) = n"
    unfolding sem_holds_def by blast
  show ?thesis
  proof (cases "n = 0")
    case True
    with x have "ss_count x = 0" by (simp add: unat_eq_zero)
    with True x assms(1) show ?thesis
      by (simp add: sync_sem_wait_def sync_sem_call_def sem_enter_def run_section_def section_defs)
  next
    case False
    with x have nz: "ss_count x \<noteq> 0" by auto
    with x assms(1) have "sync_sem_wait q h = Returns (h(q \<mapsto> x\<lparr>ss_count := ss_count x - 1\<rparr>)) (Code SUCCESS)"
      by (simp add: sync_sem_wait_def sync_sem_call_def sem_enter_def run_section_def section_defs)
    with False nz x show ?thesis by (auto simp: sem_holds_def unat_minus_one_pos)
  qed
qed

lemma sem_post_call:
  assumes "q \<noteq> NULL" and "sem_holds q h n" and "n + 1 < 2 ^ 32"
  shows "\<exists>x. sync_sem_post q h = Returns (h(q \<mapsto> x)) (Code SUCCESS) \<and> sem_holds q (h(q \<mapsto> x)) (n + 1)"
proof -
  from assms(2) obtain x where x: "h q = Some x" "ss_initialized x" "unat (ss_count x) = n"
    unfolding sem_holds_def by blast
  with assms(1) have "sync_sem_post q h = Returns (h(q \<mapsto> x\<lparr>ss_count := ss_count x + 1\<rparr>)) (Code SUCCESS)"
    by (simp add: sync_sem_post_def sync_sem_call_def sem_enter_def run_section_def section_defs)
  with x unat_inc [of "ss_count x"] assms(3) show ?thesis by (auto simp: sem_holds_def)
qed

lemma sem_holds_frame [simp]: "q \<noteq> r \<Longrightarrow> sem_holds q (h(r \<mapsto> x)) n = sem_holds q h n"
  by (simp add: sem_holds_def)

lemma sem_holds_unique: "sem_holds q h n \<Longrightarrow> sem_holds q h k \<Longrightarrow> n = k"
  by (auto simp: sem_holds_def)

lemma held_lock_call:
  assumes "q \<noteq> NULL" "mutex_held q h None"
  shows "\<exists>m. sync_mutex_lock p t q h = Returns (h(q \<mapsto> m)) SUCCESS \<and> mutex_held q (h(q \<mapsto> m)) (Some t)"
proof -
  from assms(2) obtain m where m: "h q = Some m" "checked_mutex m" "pm_owner (sm_lock m) = None"
    unfolding mutex_held_def by blast
  from checked_lock_free [where h = h and m = m, OF assms(1) m, of p t] show ?thesis
    by (auto simp: mutex_held_def)
qed

lemma held_lock_blocks:
  assumes "q \<noteq> NULL" "mutex_held q h (Some u)" "u \<noteq> t"
  shows "sync_mutex_lock p t q h = Blocks"
  using assms by (auto simp: mutex_held_def sync_defs pthread_defs checked_mutex_def)

lemma held_unlock_call:
  assumes "q \<noteq> NULL" "mutex_held q h (Some t)"
  shows "\<exists>m. sync_mutex_unlock p t q h = Returns (h(q \<mapsto> m)) SUCCESS \<and> mutex_held q (h(q \<mapsto> m)) None"
proof -
  from assms(2) obtain m where m: "h q = Some m" "checked_mutex m" "pm_owner (sm_lock m) = Some t"
    unfolding mutex_held_def by blast
  from checked_unlock [where h = h and m = m, OF assms(1) m, of p] show ?thesis
    by (auto simp: mutex_held_def)
qed

section \<open>Sums over threads\<close>

lemma total_member:
  assumes "finite {t. f t \<noteq> (0 :: nat)}"
  shows "f t \<le> total f"
  using total_change [where f = f and g = "f(t := 0)" and t = t, OF assms] by simp

section \<open>Clients of one mutex\<close>

text \<open>
  Threads that lock and unlock one mutex. The provider of this interface is a client program: its
  step function, the program counter of a thread, whether it is between lock and unlock, the steps
  it has left, and what is invariant of its data when the others are outside.
\<close>

locale lock_client =
  fixes step :: "tid \<Rightarrow> 's \<Rightarrow> 's option"
    and pc_of :: "'s \<Rightarrow> tid \<Rightarrow> 'p"
    and mutexes :: "'s \<Rightarrow> sync_mutex heap"
    and mutex :: ptr
    and inside :: "'p \<Rightarrow> bool"
    and left :: "'p \<Rightarrow> nat"
    and ok :: "'s \<Rightarrow> bool"
    and p :: platform
  assumes mutex_valid: "mutex \<noteq> NULL"
    and others_keep: "step t s = Some s' \<Longrightarrow> u \<noteq> t \<Longrightarrow> pc_of s' u = pc_of s u"
    and step_counts: "step t s = Some s' \<Longrightarrow> ok s \<Longrightarrow> Suc (left (pc_of s' t)) = left (pc_of s t)"
    and step_locks: "step t s = Some s' \<Longrightarrow>
      mutexes s' = mutexes s \<and> inside (pc_of s' t) = inside (pc_of s t) \<or>
      \<not> inside (pc_of s t) \<and> inside (pc_of s' t) \<and> (\<exists>r. sync_mutex_lock p t mutex (mutexes s) = Returns (mutexes s') r) \<or>
      inside (pc_of s t) \<and> \<not> inside (pc_of s' t) \<and> (\<exists>r. sync_mutex_unlock p t mutex (mutexes s) = Returns (mutexes s') r)"
    and ok_kept: "step t s = Some s' \<Longrightarrow> ok s \<Longrightarrow>
      (\<And>u. inside (pc_of s t) \<or> inside (pc_of s' t) \<Longrightarrow> u \<noteq> t \<Longrightarrow> \<not> inside (pc_of s u)) \<Longrightarrow> ok s'"
    and inside_moves: "ok s \<Longrightarrow> inside (pc_of s t) \<Longrightarrow> mutex_held mutex (mutexes s) (Some t) \<Longrightarrow> \<exists>s'. step t s = Some s'"
    and outside_moves: "ok s \<Longrightarrow> \<not> inside (pc_of s t) \<Longrightarrow> left (pc_of s t) \<noteq> 0 \<Longrightarrow>
      mutex_held mutex (mutexes s) None \<Longrightarrow> \<exists>s'. step t s = Some s'"
begin

definition client_inv :: "nat \<Rightarrow> 's \<Rightarrow> bool" where
  "client_inv N s \<longleftrightarrow> ok s \<and> finite {t. left (pc_of s t) \<noteq> 0} \<and> total (\<lambda>t. left (pc_of s t)) = N \<and>
     (\<exists>u. mutex_held mutex (mutexes s) u \<and> (\<forall>t. inside (pc_of s t) \<longleftrightarrow> u = Some t))"

lemma one_inside: "client_inv N s \<Longrightarrow> inside (pc_of s t) \<Longrightarrow> inside (pc_of s u) \<Longrightarrow> t = u"
  unfolding client_inv_def by auto

lemma client_inv_step:
  assumes inv: "client_inv N s" and st: "step t s = Some s'"
  shows "\<exists>M. N = Suc M \<and> client_inv M s'"
proof -
  obtain u where u: "mutex_held mutex (mutexes s) u" "\<And>v. inside (pc_of s v) \<longleftrightarrow> u = Some v"
    and ok: "ok s" and fin: "finite {t. left (pc_of s t) \<noteq> 0}" and N: "total (\<lambda>t. left (pc_of s t)) = N"
    using inv unfolding client_inv_def by blast
  have lock: "\<exists>u'. mutex_held mutex (mutexes s') u' \<and> (\<forall>v. inside (pc_of s' v) \<longleftrightarrow> u' = Some v) \<and>
      (u = Some t \<or> u' = Some t \<longrightarrow> (\<forall>v. v \<noteq> t \<longrightarrow> \<not> inside (pc_of s v)))"
    using step_locks [OF st]
  proof (elim disjE conjE exE)
    assume "mutexes s' = mutexes s" "inside (pc_of s' t) = inside (pc_of s t)"
    then show ?thesis using u others_keep [OF st] by (intro exI [of _ u]) (metis option.inject)
  next
    fix r assume l: "\<not> inside (pc_of s t)" "inside (pc_of s' t)" "sync_mutex_lock p t mutex (mutexes s) = Returns (mutexes s') r"
    have n: "u = None"
    proof (rule ccontr)
      assume "u \<noteq> None"
      then obtain v where v: "u = Some v" by blast
      then have "v \<noteq> t" using u(2) l(1) by auto
      with held_lock_blocks [OF mutex_valid u(1) [unfolded v]] l(3) show False by simp
    qed
    with held_lock_call [OF mutex_valid, of "mutexes s" p t] u(1) l(3) have "mutex_held mutex (mutexes s') (Some t)" by auto
    then show ?thesis using u(2) l(2) n others_keep [OF st] by (intro exI [of _ "Some t"]) (metis option.distinct(1) option.inject)
  next
    fix r assume l: "inside (pc_of s t)" "\<not> inside (pc_of s' t)" "sync_mutex_unlock p t mutex (mutexes s) = Returns (mutexes s') r"
    then have n: "u = Some t" using u(2) by simp
    with held_unlock_call [OF mutex_valid, of "mutexes s" t p] u(1) l(3) have "mutex_held mutex (mutexes s') None" by auto
    then show ?thesis using u(2) l(2) n others_keep [OF st] by (intro exI [of _ None]) (metis option.distinct(1) option.inject)
  qed
  then obtain u' where u': "mutex_held mutex (mutexes s') u'" "\<And>v. inside (pc_of s' v) \<longleftrightarrow> u' = Some v"
    and alone: "u = Some t \<or> u' = Some t \<Longrightarrow> v \<noteq> t \<Longrightarrow> \<not> inside (pc_of s v)" for v by blast
  have "ok s'" by (rule ok_kept [OF st ok]) (use alone u(2) u'(2) in blast)
  moreover have "total (\<lambda>t. left (pc_of s' t)) + left (pc_of s t) = N + left (pc_of s' t)"
    unfolding N [symmetric] by (rule total_change [OF fin]) (simp add: others_keep [OF st])
  then have "N = Suc (total (\<lambda>t. left (pc_of s' t)))" using step_counts [OF st ok] by linarith
  moreover have "finite {v. left (pc_of s' v) \<noteq> 0}"
  proof (rule finite_subset)
    show "{v. left (pc_of s' v) \<noteq> 0} \<subseteq> insert t {v. left (pc_of s v) \<noteq> 0}" using others_keep [OF st] by force
  qed (use fin in simp)
  ultimately show ?thesis unfolding client_inv_def using u' by blast
qed

lemma lock_progress:
  assumes inv: "client_inv N s" and "N \<noteq> 0"
  shows "\<exists>t s'. step t s = Some s'"
proof -
  obtain u where u: "mutex_held mutex (mutexes s) u" "\<And>v. inside (pc_of s v) \<longleftrightarrow> u = Some v"
    and ok: "ok s" and fin: "finite {t. left (pc_of s t) \<noteq> 0}" and N: "total (\<lambda>t. left (pc_of s t)) = N"
    using inv unfolding client_inv_def by blast
  show ?thesis
  proof (cases u)
    case (Some v)
    with inside_moves [OF ok] u show ?thesis by blast
  next
    case None
    from total_zero_iff [OF fin] N assms(2) obtain t where "left (pc_of s t) \<noteq> 0" by auto
    with outside_moves [OF ok] u None show ?thesis by blast
  qed
qed

end

end
