(* ===== verification/Hello_Threads.thy ===== *)
theory Hello_Threads
  imports Client_Calls
begin

text \<open>
  examples/hello_threads.c: the two clients that synchronise. Each call of the library is one step
  here, with the effect of the function of sync.c; that calls of many threads take effect one after
  the other is what Sync and Semaphore show. A call that blocks is a step that is not possible yet.
\<close>

section \<open>A counter under a mutex\<close>

text \<open>Line 69, \<open>shared_counter++\<close>, is a load and a store. The argument is the number of rounds left.\<close>

datatype counter_pc =
    Count_Loop nat
  | Count_Load nat
  | Count_Store nat int
  | Count_Unlock nat

record counter_sys =
  cn_mutexes :: "sync_mutex heap"
  cn_counter :: int
  cn_pc :: "tid \<Rightarrow> counter_pc"

definition counter_mutex :: ptr where
  "counter_mutex = 8"

fun increment_with_mutex :: "platform \<Rightarrow> tid \<Rightarrow> counter_pc \<Rightarrow> counter_sys \<Rightarrow> counter_sys option" where
  "increment_with_mutex p t (Count_Loop 0) s = None"
| "increment_with_mutex p t (Count_Loop (Suc k)) s =
     (case sync_mutex_lock p t counter_mutex (cn_mutexes s) of
        Returns h r \<Rightarrow> Some (s\<lparr>cn_mutexes := h, cn_pc := (cn_pc s)(t := Count_Load (Suc k))\<rparr>)
      | _ \<Rightarrow> None)"
| "increment_with_mutex p t (Count_Load k) s = Some (s\<lparr>cn_pc := (cn_pc s)(t := Count_Store k (cn_counter s))\<rparr>)"
| "increment_with_mutex p t (Count_Store k v) s =
     (if fits_int (v + 1) then Some (s\<lparr>cn_counter := v + 1, cn_pc := (cn_pc s)(t := Count_Unlock k)\<rparr>) else None)"
| "increment_with_mutex p t (Count_Unlock k) s =
     (case sync_mutex_unlock p t counter_mutex (cn_mutexes s) of
        Returns h r \<Rightarrow> Some (s\<lparr>cn_mutexes := h, cn_pc := (cn_pc s)(t := Count_Loop (k - 1))\<rparr>)
      | _ \<Rightarrow> None)"

text \<open>
  \<open>work t\<close> is the number of increments of thread \<open>t\<close>, 0 for all but finitely many; the number is
  that of the steps made.
\<close>

inductive counter_run :: "platform \<Rightarrow> (tid \<Rightarrow> nat) \<Rightarrow> nat \<Rightarrow> counter_sys \<Rightarrow> bool" for p work where
  start: "sync_mutex_init p 0 counter_mutex h = Returns h' SUCCESS \<Longrightarrow> h counter_mutex \<noteq> None \<Longrightarrow>
    counter_run p work 0 \<lparr>cn_mutexes = h', cn_counter = 0, cn_pc = (\<lambda>t. Count_Loop (work t))\<rparr>"
| step: "counter_run p work n s \<Longrightarrow> increment_with_mutex p t (cn_pc s t) s = Some s' \<Longrightarrow> counter_run p work (Suc n) s'"

fun in_section :: "counter_pc \<Rightarrow> bool" where
  "in_section (Count_Loop k) = False"
| "in_section q = True"

text \<open>Increments, and steps, that a thread has not made yet.\<close>

fun rounds_left :: "counter_pc \<Rightarrow> nat" where
  "rounds_left (Count_Loop k) = k"
| "rounds_left (Count_Load k) = k"
| "rounds_left (Count_Store k v) = k"
| "rounds_left (Count_Unlock k) = k - 1"

fun steps_left :: "counter_pc \<Rightarrow> nat" where
  "steps_left (Count_Loop k) = 4 * k"
| "steps_left (Count_Load k) = 4 * k - 1"
| "steps_left (Count_Store k v) = 4 * k - 2"
| "steps_left (Count_Unlock k) = 4 * k - 3"

fun pc_ok :: "int \<Rightarrow> counter_pc \<Rightarrow> bool" where
  "pc_ok n (Count_Loop k) = True"
| "pc_ok n (Count_Load k) = (0 < k)"
| "pc_ok n (Count_Store k v) = (0 < k \<and> v = n)"
| "pc_ok n (Count_Unlock k) = (0 < k)"

definition counter_ok :: "(tid \<Rightarrow> nat) \<Rightarrow> counter_sys \<Rightarrow> bool" where
  "counter_ok work s \<longleftrightarrow> (\<forall>t. pc_ok (cn_counter s) (cn_pc s t)) \<and> 0 \<le> cn_counter s \<and> total work < 2 ^ 31 \<and>
     finite {t. rounds_left (cn_pc s t) \<noteq> 0} \<and>
     cn_counter s + int (total (\<lambda>t. rounds_left (cn_pc s t))) = int (total work)"

lemma counter_mutex_nonzero [simp]: "counter_mutex \<noteq> NULL"
  by (simp add: counter_mutex_def)

lemma increment_shape:
  assumes "increment_with_mutex p t q s = Some s'" and "cn_pc s t = q"
  shows "(\<forall>u. u \<noteq> t \<longrightarrow> cn_pc s' u = cn_pc s u) \<and>
    (cn_mutexes s' = cn_mutexes s \<and> in_section (cn_pc s' t) = in_section q \<or>
     \<not> in_section q \<and> in_section (cn_pc s' t) \<and>
       (\<exists>r. sync_mutex_lock p t counter_mutex (cn_mutexes s) = Returns (cn_mutexes s') r) \<or>
     in_section q \<and> \<not> in_section (cn_pc s' t) \<and>
       (\<exists>r. sync_mutex_unlock p t counter_mutex (cn_mutexes s) = Returns (cn_mutexes s') r)) \<and>
    (pc_ok (cn_counter s) q \<longrightarrow> Suc (steps_left (cn_pc s' t)) = steps_left q \<and> pc_ok (cn_counter s') (cn_pc s' t) \<and>
       cn_counter s' + int (rounds_left (cn_pc s' t)) = cn_counter s + int (rounds_left q) \<and>
       cn_counter s \<le> cn_counter s' \<and> (in_section q \<or> in_section (cn_pc s' t) \<or> cn_counter s' = cn_counter s)) \<and>
    (in_section q \<or> cn_counter s' = cn_counter s)"
  using assms
  by (cases "(p, t, q, s)" rule: increment_with_mutex.cases) (auto split: outcome.splits if_splits)

lemma pc_ok_outside: "\<not> in_section q \<Longrightarrow> pc_ok n q"
  by (cases q) auto

interpretation counter: lock_client "\<lambda>t s. increment_with_mutex p t (cn_pc s t) s" cn_pc cn_mutexes counter_mutex
  in_section steps_left "counter_ok work" p for p work
proof unfold_locales
  fix t and s s' :: counter_sys
  assume st: "increment_with_mutex p t (cn_pc s t) s = Some s'" and ok: "counter_ok work s"
    and alone: "\<And>u. in_section (cn_pc s t) \<or> in_section (cn_pc s' t) \<Longrightarrow> u \<noteq> t \<Longrightarrow> \<not> in_section (cn_pc s u)"
  note sh = increment_shape [OF st refl]
  have q: "pc_ok (cn_counter s) (cn_pc s t)" and fin: "finite {u. rounds_left (cn_pc s u) \<noteq> 0}"
    using ok unfolding counter_ok_def by blast+
  have "pc_ok (cn_counter s') (cn_pc s' u)" for u
  proof (cases "u = t")
    case False
    then have same: "cn_pc s' u = cn_pc s u" using sh by blast
    show ?thesis
    proof (cases "in_section (cn_pc s u)")
      case True
      then have "cn_counter s' = cn_counter s" using alone [of u] False sh by blast
      with same ok show ?thesis by (simp add: counter_ok_def)
    qed (use same pc_ok_outside in simp)
  qed (use sh q in simp)
  moreover have "total (\<lambda>u. rounds_left (cn_pc s' u)) + rounds_left (cn_pc s t) =
      total (\<lambda>u. rounds_left (cn_pc s u)) + rounds_left (cn_pc s' t)"
    by (rule total_change [OF fin]) (use sh in simp)
  moreover have "finite {u. rounds_left (cn_pc s' u) \<noteq> 0}"
  proof (rule finite_subset)
    show "{u. rounds_left (cn_pc s' u) \<noteq> 0} \<subseteq> insert t {u. rounds_left (cn_pc s u) \<noteq> 0}" using sh by force
  qed (use fin in simp)
  ultimately show "counter_ok work s'" using sh q ok unfolding counter_ok_def by (smt (verit) of_nat_add)
next
  fix s :: counter_sys and t
  assume ok: "counter_ok work s" and i: "in_section (cn_pc s t)"
    and h: "mutex_held counter_mutex (cn_mutexes s) (Some t)"
  show "\<exists>s'. increment_with_mutex p t (cn_pc s t) s = Some s'"
  proof (cases "cn_pc s t")
    case (Count_Store k v)
    have "pc_ok (cn_counter s) (cn_pc s t)" "finite {u. rounds_left (cn_pc s u) \<noteq> 0}"
      using ok unfolding counter_ok_def by blast+
    with total_member [of "\<lambda>u. rounds_left (cn_pc s u)" t] Count_Store ok have "fits_int (v + 1)"
      by (auto simp: fits_int_def counter_ok_def)
    with Count_Store show ?thesis by simp
  next
    case (Count_Unlock k)
    with held_unlock_call [OF counter_mutex_nonzero h, of p] show ?thesis by auto
  qed (use i in auto)
next
  fix s :: counter_sys and t
  assume "\<not> in_section (cn_pc s t)" "steps_left (cn_pc s t) \<noteq> 0" and h: "mutex_held counter_mutex (cn_mutexes s) None"
  then obtain k where k: "cn_pc s t = Count_Loop (Suc k)" by (cases "cn_pc s t") (auto simp: gr0_conv_Suc)
  with held_lock_call [OF counter_mutex_nonzero h, of p t] show "\<exists>s'. increment_with_mutex p t (cn_pc s t) s = Some s'" by auto
qed (use increment_shape in \<open>auto simp: counter_ok_def\<close>)

lemma counter_run_inv:
  assumes "counter_run p work n s" and "finite {t. work t \<noteq> 0}" and "total work < 2 ^ 31"
  shows "\<exists>M. n + M = 4 * total work \<and> counter.client_inv work M s"
  using assms(1)
proof (induction rule: counter_run.induct)
  case (start h h')
  then have "mutex_held counter_mutex h' None" using mutex_init_object [OF start.hyps(1)] by (auto simp: mutex_held_def checked_mutex_def)
  moreover have "total (\<lambda>t. 4 * work t) = 4 * total work" by (simp add: total_def sum_distrib_left)
  moreover have "counter_ok work \<lparr>cn_mutexes = h', cn_counter = 0, cn_pc = (\<lambda>t. Count_Loop (work t))\<rparr>"
    using assms(2,3) by (simp add: counter_ok_def)
  ultimately have "counter.client_inv work (4 * total work) \<lparr>cn_mutexes = h', cn_counter = 0, cn_pc = (\<lambda>t. Count_Loop (work t))\<rparr>"
    unfolding counter.client_inv_def using assms(2) by (auto intro!: exI [of _ None])
  then show ?case by auto
next
  case (step n s t s')
  then obtain M where "n + M = 4 * total work" "counter.client_inv work M s" by blast
  with counter.client_inv_step [OF _ step.hyps(2)] show ?case by fastforce
qed

text \<open>
  Increments under a mutex are not lost: with any number of threads, in any interleaving, the counter
  plus the increments still to come is the total asked for, and at most one thread is between lock
  and unlock. Every run ends after four steps per increment, because until then some thread can
  step, and the counter then holds the total. The total has to fit an int.
\<close>

lemma hello_mutex_counter:
  assumes "counter_run p work n s" and "finite {t. work t \<noteq> 0}" and "total work < 2 ^ 31"
  shows "cn_counter s + int (total (\<lambda>t. rounds_left (cn_pc s t))) = int (total work) \<and>
    (in_section (cn_pc s t) \<and> in_section (cn_pc s u) \<longrightarrow> t = u) \<and>
    n \<le> 4 * total work \<and>
    (n < 4 * total work \<longrightarrow> (\<exists>v s'. increment_with_mutex p v (cn_pc s v) s = Some s')) \<and>
    (n = 4 * total work \<longrightarrow> cn_counter s = int (total work))"
proof -
  obtain M where M: "n + M = 4 * total work" and inv: "counter.client_inv work M s"
    using counter_run_inv [OF assms] by blast
  have ok: "counter_ok work s" and fin: "finite {t. steps_left (cn_pc s t) \<noteq> 0}" and sum: "total (\<lambda>t. steps_left (cn_pc s t)) = M"
    using inv unfolding counter.client_inv_def by blast+
  have "total (\<lambda>v. rounds_left (cn_pc s v)) = 0" if "M = 0"
  proof (rule trans [OF total_same total_zero])
    fix v
    have "steps_left (cn_pc s v) = 0" using total_zero_iff [OF fin] sum that by simp
    moreover have "pc_ok (cn_counter s) (cn_pc s v)" using ok by (simp add: counter_ok_def)
    ultimately show "rounds_left (cn_pc s v) = 0" by (cases "cn_pc s v") auto
  qed
  then show ?thesis
    using M ok counter.one_inside [OF inv] counter.lock_progress [OF inv, of p] by (auto simp: counter_ok_def)
qed

lemma hello_mutex_counter_witness:
  "\<exists>s. counter_run Linux (\<lambda>t. if t < 10 then 10000 else 0) 0 s \<and>
     (\<exists>v s'. increment_with_mutex Linux v (cn_pc s v) s = Some s')"
proof -
  let ?work = "\<lambda>t :: tid. if t < 10 then 10000 :: nat else 0"
  let ?h = "[8 \<mapsto> \<lparr>sm_lock = \<lparr>pm_type = PTHREAD_MUTEX_NORMAL, pm_owner = None\<rparr>, sm_initialized = False\<rparr>]"
  obtain h' where h': "sync_mutex_init Linux 0 counter_mutex ?h = Returns h' SUCCESS"
    by (simp add: counter_mutex_def sync_defs pthread_defs Let_def)
  let ?s = "\<lparr>cn_mutexes = h', cn_counter = 0, cn_pc = (\<lambda>t. Count_Loop (?work t))\<rparr>"
  have r: "counter_run Linux ?work 0 ?s"
    by (rule counter_run.start [OF h']) (simp add: counter_mutex_def)
  have f: "finite {t. ?work t \<noteq> 0}" by (rule finite_subset [of _ "{..<10}"]) auto
  have w: "total ?work = 100000"
    by (subst total_superset [of "{..<10}"]) auto
  from hello_mutex_counter [OF r f, of 0 0] w r show ?thesis by (intro exI [of _ ?s]) auto
qed

section \<open>A ring buffer between two semaphores\<close>

definition empty_slots :: ptr where "empty_slots = 16"
definition full_slots :: ptr where "full_slots = 24"
definition buffer_lock :: ptr where "buffer_lock = 32"

text \<open>The argument is the loop variable \<open>i\<close>; the consumer also has \<open>sum\<close> and, once read, \<open>item\<close>.\<close>

datatype producer_pc =
    P_Wait nat
  | P_Lock nat
  | P_Store nat
  | P_Advance nat
  | P_Unlock nat
  | P_Post nat

datatype consumer_pc =
    C_Wait nat int
  | C_Lock nat int
  | C_Take nat int
  | C_Advance nat int int
  | C_Unlock nat int int
  | C_Post nat int int

record ring =
  rg_sems :: "sync_sem heap"
  rg_mutexes :: "sync_mutex heap"
  rg_buffer :: "int list"
  rg_in :: nat
  rg_out :: nat
  rg_producer :: producer_pc
  rg_consumer :: consumer_pc

text \<open>The producer is thread 0, the consumer thread 1. None at the end of the loop.\<close>

fun producer_task :: "platform \<Rightarrow> nat \<Rightarrow> producer_pc \<Rightarrow> ring \<Rightarrow> ring option" where
  "producer_task p items (P_Wait i) s =
     (if i < items then after_call (sync_sem_wait empty_slots (rg_sems s)) (\<lambda>h. s\<lparr>rg_sems := h, rg_producer := P_Lock i\<rparr>)
      else None)"
| "producer_task p items (P_Lock i) s =
     after_call (sync_mutex_lock p 0 buffer_lock (rg_mutexes s)) (\<lambda>h. s\<lparr>rg_mutexes := h, rg_producer := P_Store i\<rparr>)"
| "producer_task p items (P_Store i) s =
     (if rg_in s < length (rg_buffer s)
      then Some (s\<lparr>rg_buffer := (rg_buffer s)[rg_in s := int i + 1], rg_producer := P_Advance i\<rparr>) else None)"
| "producer_task p items (P_Advance i) s = Some (s\<lparr>rg_in := (rg_in s + 1) mod 5, rg_producer := P_Unlock i\<rparr>)"
| "producer_task p items (P_Unlock i) s =
     after_call (sync_mutex_unlock p 0 buffer_lock (rg_mutexes s)) (\<lambda>h. s\<lparr>rg_mutexes := h, rg_producer := P_Post i\<rparr>)"
| "producer_task p items (P_Post i) s =
     after_call (sync_sem_post full_slots (rg_sems s)) (\<lambda>h. s\<lparr>rg_sems := h, rg_producer := P_Wait (i + 1)\<rparr>)"

fun consumer_task :: "platform \<Rightarrow> nat \<Rightarrow> consumer_pc \<Rightarrow> ring \<Rightarrow> ring option" where
  "consumer_task p items (C_Wait i acc) s =
     (if i < items then after_call (sync_sem_wait full_slots (rg_sems s)) (\<lambda>h. s\<lparr>rg_sems := h, rg_consumer := C_Lock i acc\<rparr>)
      else None)"
| "consumer_task p items (C_Lock i acc) s =
     after_call (sync_mutex_lock p 1 buffer_lock (rg_mutexes s)) (\<lambda>h. s\<lparr>rg_mutexes := h, rg_consumer := C_Take i acc\<rparr>)"
| "consumer_task p items (C_Take i acc) s =
     (if rg_out s < length (rg_buffer s)
      then Some (s\<lparr>rg_consumer := C_Advance i acc (rg_buffer s ! rg_out s)\<rparr>) else None)"
| "consumer_task p items (C_Advance i acc item) s = Some (s\<lparr>rg_out := (rg_out s + 1) mod 5, rg_consumer := C_Unlock i acc item\<rparr>)"
| "consumer_task p items (C_Unlock i acc item) s =
     after_call (sync_mutex_unlock p 1 buffer_lock (rg_mutexes s)) (\<lambda>h. s\<lparr>rg_mutexes := h, rg_consumer := C_Post i acc item\<rparr>)"
| "consumer_task p items (C_Post i acc item) s =
     (if fits_int (acc + item)
      then after_call (sync_sem_post empty_slots (rg_sems s)) (\<lambda>h. s\<lparr>rg_sems := h, rg_consumer := C_Wait (i + 1) (acc + item)\<rparr>)
      else None)"

definition ring_step :: "platform \<Rightarrow> nat \<Rightarrow> ring \<Rightarrow> ring \<Rightarrow> bool" where
  "ring_step p items s s' \<longleftrightarrow>
     producer_task p items (rg_producer s) s = Some s' \<or> consumer_task p items (rg_consumer s) s = Some s'"

text \<open>
  As \<open>example_semaphore\<close> leaves it when it submits the two tasks: its three calls of an init function
  write these objects (\<open>sem_init_object\<close>, \<open>mutex_init_object\<close>).
\<close>

definition init_ring :: "int list \<Rightarrow> ring" where
  "init_ring buffer =
     \<lparr>rg_sems = [empty_slots \<mapsto> \<lparr>ss_count = 5, ss_max_count = 5, ss_initialized = True\<rparr>,
         full_slots \<mapsto> \<lparr>ss_count = 0, ss_max_count = 0, ss_initialized = True\<rparr>],
       rg_mutexes = [buffer_lock \<mapsto> \<lparr>sm_lock = \<lparr>pm_type = PTHREAD_MUTEX_ERRORCHECK, pm_owner = None\<rparr>, sm_initialized = True\<rparr>],
       rg_buffer = buffer, rg_in = 0, rg_out = 0, rg_producer = P_Wait 0, rg_consumer = C_Wait 0 0\<rparr>"

subsection \<open>Counting\<close>

text \<open>Slots reserved, items stored and items announced by the producer; and the consumer's side.\<close>

fun reserved :: "producer_pc \<Rightarrow> nat" where
  "reserved (P_Wait i) = i" | "reserved (P_Lock i) = i + 1" | "reserved (P_Store i) = i + 1"
| "reserved (P_Advance i) = i + 1" | "reserved (P_Unlock i) = i + 1" | "reserved (P_Post i) = i + 1"

fun stored :: "producer_pc \<Rightarrow> nat" where
  "stored (P_Wait i) = i" | "stored (P_Lock i) = i" | "stored (P_Store i) = i"
| "stored (P_Advance i) = i + 1" | "stored (P_Unlock i) = i + 1" | "stored (P_Post i) = i + 1"

fun announced :: "producer_pc \<Rightarrow> nat" where
  "announced (P_Wait i) = i" | "announced (P_Lock i) = i" | "announced (P_Store i) = i"
| "announced (P_Advance i) = i" | "announced (P_Unlock i) = i" | "announced (P_Post i) = i"

fun in_count :: "producer_pc \<Rightarrow> nat" where
  "in_count (P_Wait i) = i" | "in_count (P_Lock i) = i" | "in_count (P_Store i) = i"
| "in_count (P_Advance i) = i" | "in_count (P_Unlock i) = i + 1" | "in_count (P_Post i) = i + 1"

fun p_locked :: "producer_pc \<Rightarrow> bool" where
  "p_locked (P_Store i) = True" | "p_locked (P_Advance i) = True" | "p_locked (P_Unlock i) = True"
| "p_locked p = False"

fun claimed :: "consumer_pc \<Rightarrow> nat" where
  "claimed (C_Wait i m) = i" | "claimed (C_Lock i m) = i + 1" | "claimed (C_Take i m) = i + 1"
| "claimed (C_Advance i m x) = i + 1" | "claimed (C_Unlock i m x) = i + 1" | "claimed (C_Post i m x) = i + 1"

fun taken :: "consumer_pc \<Rightarrow> nat" where
  "taken (C_Wait i m) = i" | "taken (C_Lock i m) = i" | "taken (C_Take i m) = i"
| "taken (C_Advance i m x) = i + 1" | "taken (C_Unlock i m x) = i + 1" | "taken (C_Post i m x) = i + 1"

fun freed_slots :: "consumer_pc \<Rightarrow> nat" where
  "freed_slots (C_Wait i m) = i" | "freed_slots (C_Lock i m) = i" | "freed_slots (C_Take i m) = i"
| "freed_slots (C_Advance i m x) = i" | "freed_slots (C_Unlock i m x) = i" | "freed_slots (C_Post i m x) = i"

fun out_count :: "consumer_pc \<Rightarrow> nat" where
  "out_count (C_Wait i m) = i" | "out_count (C_Lock i m) = i" | "out_count (C_Take i m) = i"
| "out_count (C_Advance i m x) = i" | "out_count (C_Unlock i m x) = i + 1" | "out_count (C_Post i m x) = i + 1"

fun c_locked :: "consumer_pc \<Rightarrow> bool" where
  "c_locked (C_Take i m) = True" | "c_locked (C_Advance i m x) = True" | "c_locked (C_Unlock i m x) = True"
| "c_locked c = False"

text \<open>What the consumer has added up, counting an item from the moment it is read.\<close>

fun gathered :: "consumer_pc \<Rightarrow> int" where
  "gathered (C_Wait i m) = m" | "gathered (C_Lock i m) = m" | "gathered (C_Take i m) = m"
| "gathered (C_Advance i m x) = m + x" | "gathered (C_Unlock i m x) = m + x" | "gathered (C_Post i m x) = m + x"

fun p_done :: "producer_pc \<Rightarrow> nat" where
  "p_done (P_Wait i) = 6 * i" | "p_done (P_Lock i) = 6 * i + 1" | "p_done (P_Store i) = 6 * i + 2"
| "p_done (P_Advance i) = 6 * i + 3" | "p_done (P_Unlock i) = 6 * i + 4" | "p_done (P_Post i) = 6 * i + 5"

fun c_done :: "consumer_pc \<Rightarrow> nat" where
  "c_done (C_Wait i m) = 6 * i" | "c_done (C_Lock i m) = 6 * i + 1" | "c_done (C_Take i m) = 6 * i + 2"
| "c_done (C_Advance i m x) = 6 * i + 3" | "c_done (C_Unlock i m x) = 6 * i + 4" | "c_done (C_Post i m x) = 6 * i + 5"

text \<open>The items come in order: in round i the consumer holds the producer's item i + 1.\<close>

fun item_ok :: "consumer_pc \<Rightarrow> bool" where
  "item_ok (C_Advance i m x) = (x = int i + 1)" | "item_ok (C_Unlock i m x) = (x = int i + 1)"
| "item_ok (C_Post i m x) = (x = int i + 1)" | "item_ok c = True"

definition ring_inv :: "nat \<Rightarrow> nat \<Rightarrow> ring \<Rightarrow> bool" where
  "ring_inv items n s \<longleftrightarrow>
     (\<exists>e. sem_holds empty_slots (rg_sems s) e \<and> e + reserved (rg_producer s) = 5 + freed_slots (rg_consumer s)) \<and>
     (\<exists>f. sem_holds full_slots (rg_sems s) f \<and> f + claimed (rg_consumer s) = announced (rg_producer s)) \<and>
     mutex_held buffer_lock (rg_mutexes s)
       (if p_locked (rg_producer s) then Some 0 else if c_locked (rg_consumer s) then Some 1 else None) \<and>
     \<not> (p_locked (rg_producer s) \<and> c_locked (rg_consumer s)) \<and>
     length (rg_buffer s) = 5 \<and>
     rg_in s = in_count (rg_producer s) mod 5 \<and> rg_out s = out_count (rg_consumer s) mod 5 \<and>
     (\<forall>k. taken (rg_consumer s) \<le> k \<and> k < stored (rg_producer s) \<longrightarrow> rg_buffer s ! (k mod 5) = int k + 1) \<and>
     2 * gathered (rg_consumer s) = int (taken (rg_consumer s)) * (int (taken (rg_consumer s)) + 1) \<and>
     item_ok (rg_consumer s) \<and>
     reserved (rg_producer s) \<le> items \<and> claimed (rg_consumer s) \<le> items \<and>
     n = p_done (rg_producer s) + c_done (rg_consumer s)"

subsection \<open>The invariant is kept\<close>

lemma ring_ptrs [simp]:
  "empty_slots \<noteq> NULL" "full_slots \<noteq> NULL" "buffer_lock \<noteq> NULL"
  "empty_slots \<noteq> full_slots" "full_slots \<noteq> empty_slots"
  by (simp_all add: empty_slots_def full_slots_def buffer_lock_def)

text \<open>A store at index i leaves the slots of the four items before alone.\<close>

lemma slot_store:
  assumes "length b = 5" "\<forall>k. lo \<le> k \<and> k < i \<longrightarrow> b ! (k mod 5) = int k + 1" "i < lo + 5" "lo \<le> k" "k < i + 1"
  shows "b[i mod 5 := int i + 1] ! (k mod 5) = int k + 1"
proof (cases "k = i")
  case False
  have "i mod 5 \<noteq> k mod 5"
  proof
    assume "i mod 5 = k mod 5"
    then have "(i - k) mod 5 = 0" using False assms(5) by (simp add: mod_eq_dvd_iff_nat)
    moreover have "0 < i - k" "i - k < 5" using False assms by auto
    ultimately show False by simp
  qed
  with False assms show ?thesis by (simp add: nth_list_update_neq)
qed (use assms in simp)

text \<open>The overflow bound on the sum bounds the items, and every partial sum.\<close>

lemma items_bound:
  assumes "items * (items + 1) div 2 < 2 ^ 31"
  shows "items < 2 ^ 31" and "k \<le> items \<Longrightarrow> 2 * v = int k * (int k + 1) \<Longrightarrow> fits_int v"
proof -
  have "items * 2 \<le> items * (items + 1)" if "items \<noteq> 0" using that by (intro mult_le_mono2) simp
  then have "items * 2 \<le> items * (items + 1)" by (cases "items = 0") simp_all
  then have "items \<le> items * (items + 1) div 2" by linarith
  with assms show "items < 2 ^ 31" by linarith
  assume k: "k \<le> items" and v: "2 * v = int k * (int k + 1)"
  have "k * (k + 1) \<le> items * (items + 1)" using k by (intro mult_le_mono) auto
  moreover have "items * (items + 1) < 2 ^ 32" using assms by simp
  ultimately have "k * (k + 1) < 2 ^ 32" by linarith
  then have "int (k * (k + 1)) < int (2 ^ 32)" by (rule of_nat_less_iff [THEN iffD2])
  moreover have "2 * v = int (k * (k + 1))" using v by (simp add: algebra_simps)
  ultimately have "2 * v < int (2 ^ 32)" by (rule ord_eq_less_trans [rotated])
  moreover have "0 \<le> 2 * v" using v by simp
  ultimately show "fits_int v" by (simp add: fits_int_def)
qed

lemma producer_step:
  assumes inv: "ring_inv items n s" and st: "producer_task p items (rg_producer s) s = Some s'"
    and small: "items < 2 ^ 31"
  shows "ring_inv items (Suc n) s'"
proof -
  from inv obtain e f where e: "sem_holds empty_slots (rg_sems s) e" "e + reserved (rg_producer s) = 5 + freed_slots (rg_consumer s)"
    and f: "sem_holds full_slots (rg_sems s) f" "f + claimed (rg_consumer s) = announced (rg_producer s)"
    and lk: "mutex_held buffer_lock (rg_mutexes s)
       (if p_locked (rg_producer s) then Some 0 else if c_locked (rg_consumer s) then Some 1 else None)"
    unfolding ring_inv_def by blast
  note rest = inv [unfolded ring_inv_def]
  show ?thesis
  proof (cases "rg_producer s")
    case (P_Wait i)
    with st have "i < items" "e \<noteq> 0" using sem_wait_call [OF ring_ptrs(1) e(1)] by (auto split: if_splits)
    with st P_Wait sem_wait_call [OF ring_ptrs(1) e(1)] obtain x where
      s': "s' = s\<lparr>rg_sems := (rg_sems s)(empty_slots \<mapsto> x), rg_producer := P_Lock i\<rparr>"
      "sem_holds empty_slots ((rg_sems s)(empty_slots \<mapsto> x)) (e - 1)" by auto
    show ?thesis unfolding ring_inv_def s'(1) using rest s'(2) e f P_Wait \<open>e \<noteq> 0\<close> \<open>i < items\<close>
      by (auto simp del: fun_upd_apply)
  next
    case (P_Lock i)
    have nc: "\<not> c_locked (rg_consumer s)"
    proof
      assume "c_locked (rg_consumer s)"
      with lk P_Lock have "mutex_held buffer_lock (rg_mutexes s) (Some 1)" by simp
      from held_lock_blocks [OF ring_ptrs(3) this, of 0 p] st P_Lock show False by simp
    qed
    with lk P_Lock have "mutex_held buffer_lock (rg_mutexes s) None" by simp
    from held_lock_call [OF ring_ptrs(3) this, of p 0] st P_Lock obtain m where
      s': "s' = s\<lparr>rg_mutexes := (rg_mutexes s)(buffer_lock \<mapsto> m), rg_producer := P_Store i\<rparr>"
      "mutex_held buffer_lock ((rg_mutexes s)(buffer_lock \<mapsto> m)) (Some 0)" by auto
    show ?thesis unfolding ring_inv_def s'(1) using rest s'(2) P_Lock nc
      by (auto simp del: fun_upd_apply)
  next
    case (P_Store i)
    with st have s': "s' = s\<lparr>rg_buffer := (rg_buffer s)[rg_in s := int i + 1], rg_producer := P_Advance i\<rparr>"
      by (auto split: if_splits)
    have "freed_slots (rg_consumer s) \<le> taken (rg_consumer s)" by (cases "rg_consumer s") auto
    with e(2) P_Store have "i < taken (rg_consumer s) + 5" by simp
    with rest P_Store have slots: "\<forall>k. taken (rg_consumer s) \<le> k \<and> k < i + 1 \<longrightarrow>
        (rg_buffer s)[i mod 5 := int i + 1] ! (k mod 5) = int k + 1"
      by (auto intro!: slot_store [where lo = "taken (rg_consumer s)"])
    show ?thesis unfolding ring_inv_def s' using rest P_Store slots by simp
  next
    case (P_Advance i)
    with st have s': "s' = s\<lparr>rg_in := (rg_in s + 1) mod 5, rg_producer := P_Unlock i\<rparr>" by simp
    show ?thesis unfolding ring_inv_def s' using rest P_Advance by (simp add: mod_Suc_eq)
  next
    case (P_Unlock i)
    with lk have "mutex_held buffer_lock (rg_mutexes s) (Some 0)" by simp
    from held_unlock_call [OF ring_ptrs(3) this, of p] st P_Unlock obtain m where
      s': "s' = s\<lparr>rg_mutexes := (rg_mutexes s)(buffer_lock \<mapsto> m), rg_producer := P_Post i\<rparr>"
      "mutex_held buffer_lock ((rg_mutexes s)(buffer_lock \<mapsto> m)) None" by auto
    show ?thesis unfolding ring_inv_def s'(1) using rest s'(2) P_Unlock
      by (auto simp del: fun_upd_apply)
  next
    case (P_Post i)
    with f(2) rest small have "f + 1 < 2 ^ 32" by simp
    from sem_post_call [OF ring_ptrs(2) f(1) this] st P_Post obtain x where
      s': "s' = s\<lparr>rg_sems := (rg_sems s)(full_slots \<mapsto> x), rg_producer := P_Wait (i + 1)\<rparr>"
      "sem_holds full_slots ((rg_sems s)(full_slots \<mapsto> x)) (f + 1)" by auto
    show ?thesis unfolding ring_inv_def s'(1) using rest s'(2) e f P_Post
      by (auto simp del: fun_upd_apply)
  qed
qed

lemma consumer_step:
  assumes inv: "ring_inv items n s" and st: "consumer_task p items (rg_consumer s) s = Some s'"
    and small: "items < 2 ^ 31"
  shows "ring_inv items (Suc n) s'"
proof -
  from inv obtain e f where e: "sem_holds empty_slots (rg_sems s) e" "e + reserved (rg_producer s) = 5 + freed_slots (rg_consumer s)"
    and f: "sem_holds full_slots (rg_sems s) f" "f + claimed (rg_consumer s) = announced (rg_producer s)"
    and lk: "mutex_held buffer_lock (rg_mutexes s)
       (if p_locked (rg_producer s) then Some 0 else if c_locked (rg_consumer s) then Some 1 else None)"
    unfolding ring_inv_def by blast
  note rest = inv [unfolded ring_inv_def]
  have held: "mutex_held buffer_lock (rg_mutexes s) (Some 1)" if "c_locked (rg_consumer s)"
  proof -
    have "\<not> p_locked (rg_producer s)" using rest that by blast
    with lk that show ?thesis by simp
  qed
  show ?thesis
  proof (cases "rg_consumer s")
    case (C_Wait i a)
    with st have "i < items" "f \<noteq> 0" using sem_wait_call [OF ring_ptrs(2) f(1)] by (auto split: if_splits)
    with st C_Wait sem_wait_call [OF ring_ptrs(2) f(1)] obtain x where
      s': "s' = s\<lparr>rg_sems := (rg_sems s)(full_slots \<mapsto> x), rg_consumer := C_Lock i a\<rparr>"
      "sem_holds full_slots ((rg_sems s)(full_slots \<mapsto> x)) (f - 1)" by auto
    show ?thesis unfolding ring_inv_def s'(1) using rest s'(2) e f C_Wait \<open>f \<noteq> 0\<close> \<open>i < items\<close>
      by (auto simp del: fun_upd_apply)
  next
    case (C_Lock i a)
    have np: "\<not> p_locked (rg_producer s)"
    proof
      assume "p_locked (rg_producer s)"
      with lk have "mutex_held buffer_lock (rg_mutexes s) (Some 0)" by simp
      from held_lock_blocks [OF ring_ptrs(3) this, of 1 p] st C_Lock show False by simp
    qed
    with lk C_Lock have "mutex_held buffer_lock (rg_mutexes s) None" by simp
    from held_lock_call [OF ring_ptrs(3) this, of p 1] st C_Lock obtain m where
      s': "s' = s\<lparr>rg_mutexes := (rg_mutexes s)(buffer_lock \<mapsto> m), rg_consumer := C_Take i a\<rparr>"
      "mutex_held buffer_lock ((rg_mutexes s)(buffer_lock \<mapsto> m)) (Some 1)" by auto
    show ?thesis unfolding ring_inv_def s'(1) using rest s'(2) C_Lock np
      by (auto simp del: fun_upd_apply)
  next
    case (C_Take i a)
    with st have s': "s' = s\<lparr>rg_consumer := C_Advance i a (rg_buffer s ! rg_out s)\<rparr>"
      by (auto split: if_splits)
    have "announced (rg_producer s) \<le> stored (rg_producer s)" by (cases "rg_producer s") auto
    with f(2) C_Take have "i < stored (rg_producer s)" by simp
    with rest C_Take have item: "rg_buffer s ! (i mod 5) = int i + 1" by simp
    have locked: "mutex_held buffer_lock (rg_mutexes s) (Some 1)" using held C_Take by simp
    have acc: "2 * (a + (int i + 1)) = int (i + 1) * (int (i + 1) + 1)"
      using rest C_Take by (simp add: algebra_simps)
    show ?thesis unfolding ring_inv_def s' using rest C_Take item locked acc by (simp del: of_nat_add)
  next
    case (C_Advance i a x)
    with st have s': "s' = s\<lparr>rg_out := (rg_out s + 1) mod 5, rg_consumer := C_Unlock i a x\<rparr>" by simp
    have locked: "mutex_held buffer_lock (rg_mutexes s) (Some 1)" using held C_Advance by simp
    show ?thesis unfolding ring_inv_def s' using rest C_Advance locked by (simp add: mod_Suc_eq)
  next
    case (C_Unlock i a x)
    with held have "mutex_held buffer_lock (rg_mutexes s) (Some 1)" by simp
    from held_unlock_call [OF ring_ptrs(3) this, of p] st C_Unlock obtain m where
      s': "s' = s\<lparr>rg_mutexes := (rg_mutexes s)(buffer_lock \<mapsto> m), rg_consumer := C_Post i a x\<rparr>"
      "mutex_held buffer_lock ((rg_mutexes s)(buffer_lock \<mapsto> m)) None" by auto
    show ?thesis unfolding ring_inv_def s'(1) using rest s'(2) C_Unlock
      by (auto simp del: fun_upd_apply)
  next
    case (C_Post i a x)
    with e(2) rest small have "e + 1 < 2 ^ 32" by simp
    from sem_post_call [OF ring_ptrs(1) e(1) this] st C_Post obtain c where
      s': "s' = s\<lparr>rg_sems := (rg_sems s)(empty_slots \<mapsto> c), rg_consumer := C_Wait (i + 1) (a + x)\<rparr>"
      "sem_holds empty_slots ((rg_sems s)(empty_slots \<mapsto> c)) (e + 1)" by (auto split: if_splits)
    show ?thesis unfolding ring_inv_def s'(1) using rest s'(2) e f C_Post
      by (auto simp del: fun_upd_apply)
  qed
qed

lemma ring_start:
  assumes "length buffer = 5"
  shows "ring_inv items 0 (init_ring buffer)"
  using assms unfolding ring_inv_def
  by (simp add: init_ring_def sem_holds_def mutex_held_def checked_mutex_def)

lemma ring_run_inv:
  assumes "(ring_step p items ^^ n) (init_ring buffer) s" and "length buffer = 5" and "items < 2 ^ 31"
  shows "ring_inv items n s"
  using assms(1)
proof (induction n arbitrary: s)
  case (Suc n)
  then obtain s0 where "(ring_step p items ^^ n) (init_ring buffer) s0" "ring_step p items s0 s" by auto
  with Suc.IH producer_step consumer_step assms(3) show ?case unfolding ring_step_def by blast
qed (use assms ring_start in simp)

lemma ring_progress:
  assumes inv: "ring_inv items n s" and lt: "n < 12 * items" and bound: "items * (items + 1) div 2 < 2 ^ 31"
  shows "\<exists>s'. ring_step p items s s'"
proof -
  let ?P = "rg_producer s" and ?C = "rg_consumer s"
  obtain e f where e: "sem_holds empty_slots (rg_sems s) e" "e + reserved ?P = 5 + freed_slots ?C"
    and f: "sem_holds full_slots (rg_sems s) f" "f + claimed ?C = announced ?P"
    and lk: "mutex_held buffer_lock (rg_mutexes s) (if p_locked ?P then Some 0 else if c_locked ?C then Some 1 else None)"
    and len: "length (rg_buffer s) = 5" and ix: "rg_in s = in_count ?P mod 5" "rg_out s = out_count ?C mod 5"
    and acc: "2 * gathered ?C = int (taken ?C) * (int (taken ?C) + 1)"
    and le: "reserved ?P \<le> items" "claimed ?C \<le> items" and n: "n = p_done ?P + c_done ?C"
    using inv unfolding ring_inv_def by blast
  note small = items_bound [OF bound]
  have P: "\<exists>s'. producer_task p items ?P s = Some s'" if "case ?P of P_Wait i \<Rightarrow> i < items \<and> e \<noteq> 0 | P_Lock i \<Rightarrow> \<not> c_locked ?C | _ \<Rightarrow> True"
  proof (cases ?P)
    case (P_Wait i)
    with that sem_wait_call [OF ring_ptrs(1) e(1)] show ?thesis by auto
  next
    case (P_Lock i)
    with that lk have "mutex_held buffer_lock (rg_mutexes s) None" by simp
    from held_lock_call [OF ring_ptrs(3) this, of p 0] P_Lock show ?thesis by auto
  next
    case (P_Unlock i)
    with lk have "mutex_held buffer_lock (rg_mutexes s) (Some 0)" by simp
    from held_unlock_call [OF ring_ptrs(3) this, of p] P_Unlock show ?thesis by auto
  next
    case (P_Post i)
    with f(2) le small(1) have "f + 1 < 2 ^ 32" by simp
    from sem_post_call [OF ring_ptrs(2) f(1) this] P_Post show ?thesis by auto
  qed (use len ix in auto)
  have C: "\<exists>s'. consumer_task p items ?C s = Some s'"
    if "case ?C of C_Wait i a \<Rightarrow> i < items \<and> f \<noteq> 0 | _ \<Rightarrow> True" "\<not> p_locked ?P"
  proof (cases ?C)
    case (C_Wait i a)
    with that sem_wait_call [OF ring_ptrs(2) f(1)] show ?thesis by auto
  next
    case (C_Lock i a)
    with that lk have "mutex_held buffer_lock (rg_mutexes s) None" by simp
    from held_lock_call [OF ring_ptrs(3) this, of p 1] C_Lock show ?thesis by auto
  next
    case (C_Unlock i a x)
    then have "c_locked ?C" by simp
    with lk that(2) have "mutex_held buffer_lock (rg_mutexes s) (Some 1)" by simp
    from held_unlock_call [OF ring_ptrs(3) this, of p] C_Unlock show ?thesis by auto
  next
    case (C_Post i a x)
    with e(2) le small(1) have "e + 1 < 2 ^ 32" by simp
    moreover have "fits_int (a + x)" using small(2) [where v = "gathered ?C" and k = "taken ?C"] acc le C_Post by simp
    ultimately show ?thesis using sem_post_call [OF ring_ptrs(1) e(1)] C_Post by auto
  qed (use len ix in auto)
  have "(\<exists>s'. producer_task p items ?P s = Some s') \<or> (\<exists>s'. consumer_task p items ?C s = Some s')"
  proof (cases "p_locked ?P \<or> c_locked ?C")
    case True
    then show ?thesis
    proof (cases "p_locked ?P")
      case True
      with P show ?thesis by (cases ?P) auto
    next
      case False
      with True C show ?thesis by (cases ?C) auto
    qed
  next
    case False
    show ?thesis
    proof (cases "(\<exists>i. ?P = P_Wait i) \<and> (\<exists>i a. ?C = C_Wait i a)")
      case True
      then obtain i j a where ij: "?P = P_Wait i" "?C = C_Wait j a" by blast
      with e(2) f(2) n lt le have "(i < items \<and> e \<noteq> 0) \<or> (j < items \<and> f \<noteq> 0)" by auto
      with P C ij show ?thesis by auto
    next
      case waits: False
      with False P C show ?thesis by (cases ?P; cases ?C) auto
    qed
  qed
  then show ?thesis unfolding ring_step_def by blast
qed

text \<open>
  The producer and the consumer, in any interleaving: the consumer reads the items in the order they
  were produced, none is overwritten before it is read (at most five are in the buffer), at most one
  thread is between lock and unlock, and both loops end, after six steps per item each, because
  until then one of the two can step. The sum is then that of 1 to \<open>items\<close>, which has to fit an int.
\<close>

lemma hello_producer_consumer:
  assumes "(ring_step p items ^^ n) (init_ring buffer) s" and "length buffer = 5"
    and "items * (items + 1) div 2 < 2 ^ 31"
  shows "item_ok (rg_consumer s) \<and>
    stored (rg_producer s) \<le> taken (rg_consumer s) + 5 \<and>
    \<not> (p_locked (rg_producer s) \<and> c_locked (rg_consumer s)) \<and>
    n \<le> 12 * items \<and>
    (n < 12 * items \<longrightarrow> (\<exists>s'. ring_step p items s s')) \<and>
    (n = 12 * items \<longrightarrow> rg_producer s = P_Wait items \<and>
       rg_consumer s = C_Wait items (int (items * (items + 1) div 2)))"
proof -
  let ?P = "rg_producer s" and ?C = "rg_consumer s"
  have inv: "ring_inv items n s" by (rule ring_run_inv [OF assms(1,2) items_bound(1) [OF assms(3)]])
  then have facts: "item_ok ?C" "\<not> (p_locked ?P \<and> c_locked ?C)" "reserved ?P \<le> 5 + freed_slots ?C"
    "n = p_done ?P + c_done ?C" "reserved ?P \<le> items" "claimed ?C \<le> items"
    "2 * gathered ?C = int (taken ?C) * (int (taken ?C) + 1)"
    unfolding ring_inv_def by auto
  have "stored ?P \<le> reserved ?P" by (cases ?P) auto
  moreover have "freed_slots ?C \<le> taken ?C" by (cases ?C) auto
  moreover have p: "p_done ?P \<le> 6 * items \<and> (p_done ?P = 6 * items \<longrightarrow> ?P = P_Wait items)"
    using facts(5) by (cases ?P) auto
  moreover have c: "c_done ?C \<le> 6 * items \<and> (c_done ?C = 6 * items \<longrightarrow> (\<exists>a. ?C = C_Wait items a))"
    using facts(6) by (cases ?C) auto
  moreover have "?C = C_Wait items (int (items * (items + 1) div 2))" if "?C = C_Wait items a" for a
  proof -
    have "2 * a = int (items * (items + 1))" using facts(7) that by (simp add: algebra_simps)
    then have "a = int (items * (items + 1)) div 2" by simp
    then show ?thesis using that by (simp add: zdiv_int)
  qed
  ultimately show ?thesis using facts ring_progress [OF inv _ assms(3)] by auto
qed

lemma hello_producer_consumer_witness:
  "\<exists>s. (ring_step Linux 20 ^^ 1) (init_ring [0, 0, 0, 0, 0]) s \<and> stored (rg_producer s) \<le> taken (rg_consumer s) + 5 \<and>
     (\<exists>s'. ring_step Linux 20 s s')"
proof -
  have z: "(ring_step Linux 20 ^^ 0) (init_ring [0, 0, 0, 0, 0]) (init_ring [0, 0, 0, 0, 0])" by simp
  have "\<exists>s. ring_step Linux 20 (init_ring [0, 0, 0, 0, 0]) s"
    using hello_producer_consumer [OF z] by simp
  then obtain s where "(ring_step Linux 20 ^^ 1) (init_ring [0, 0, 0, 0, 0]) s" by auto
  with hello_producer_consumer [OF this] show ?thesis by (intro exI [of _ s]) simp
qed

end
