(* ===== verification/Hello_Mutex.thy ===== *)
theory Hello_Mutex
  imports Pool_Blocking Hello_Threads
begin

text \<open>
  Example 2 of examples/hello_threads.c as it is run there: ten tasks of a pool increment a counter under a
  mutex, main waits for them and destroys the pool. The loop of a task is that of Hello_Threads; its
  local variables belong to the worker that runs it.
\<close>

section \<open>The tasks\<close>

definition INCREMENT_TASK :: ptr where "INCREMENT_TASK = 4096"

text \<open>\<open>increments\<close> is what the argument of all points to.\<close>

definition counter_tasks :: "platform \<Rightarrow> nat \<Rightarrow> counter_sys tasks" where
  "counter_tasks p increments =
     \<lparr>tk_start = (\<lambda>t y s. s\<lparr>cn_pc := (cn_pc s)(t := Count_Loop increments)\<rparr>),
      tk_step = (\<lambda>t y s. increment_with_mutex p t (cn_pc s t) s),
      tk_over = (\<lambda>t y s. cn_pc s t = Count_Loop 0)\<rparr>"

text \<open>What \<open>example_mutex\<close> does before it creates the pool; \<open>h\<close> is the heap that the init of the mutex leaves.\<close>

definition counter_start :: "sync_mutex heap \<Rightarrow> counter_sys" where
  "counter_start h = \<lparr>cn_mutexes = h, cn_counter = 0, cn_pc = (\<lambda>_. Count_Loop 0)\<rparr>"

definition counter_calls :: "nat \<Rightarrow> ptr \<Rightarrow> (ptr \<times> ptr) list" where
  "counter_calls tasks increments = replicate tasks (INCREMENT_TASK, increments)"

definition counter_report :: "nat \<Rightarrow> nat \<Rightarrow> counter_sys \<Rightarrow> bool" where
  "counter_report tasks increments s \<longleftrightarrow> cn_counter s = int (tasks * increments)"

lemma counter_tasks_simps [simp]:
  "tk_start (counter_tasks p k) t y s = s\<lparr>cn_pc := (cn_pc s)(t := Count_Loop k)\<rparr>"
  "tk_step (counter_tasks p k) t y s = increment_with_mutex p t (cn_pc s t) s"
  "tk_over (counter_tasks p k) t y s \<longleftrightarrow> cn_pc s t = Count_Loop 0"
  by (simp_all add: counter_tasks_def)

abbreviation counter_reach :: "nat \<Rightarrow> size_t \<Rightarrow> ptr \<Rightarrow> platform \<Rightarrow> nat \<Rightarrow> tid \<Rightarrow> nat \<Rightarrow> ptr \<Rightarrow> sync_mutex heap \<Rightarrow> counter_sys bsession \<Rightarrow> bool" where
  "counter_reach n capacity pool p k main m arg h \<equiv>
     blocking_reach n capacity pool (counter_tasks p k) (batch_program main (counter_calls m arg)) (counter_start h)"

section \<open>The invariant\<close>

text \<open>The increments asked for so far, all of them put down to thread 0: only their sum matters.\<close>

definition asked :: "nat \<Rightarrow> psys \<Rightarrow> tid \<Rightarrow> nat" where
  "asked k s = (\<lambda>_. 0)(0 := k * length (ps_ran s))"

lemma total_asked [simp]: "total (asked k s) = k * length (ps_ran s)"
  by (subst total_superset [of "{0}"]) (auto simp: asked_def)

definition counter_session :: "nat \<Rightarrow> counter_sys bsession \<Rightarrow> bool" where
  "counter_session k x \<longleftrightarrow> (\<exists>N. counter.client_inv (asked k (bs_pool x)) N (bs_data x)) \<and>
     (\<forall>t. (\<forall>f a. ps_pc (bs_pool x) t \<noteq> Work_Running f a) \<longrightarrow> cn_pc (bs_data x) t = Count_Loop 0)"

lemma finite_change: "finite {v. f v \<noteq> (0 :: nat)} \<Longrightarrow> (\<And>v. v \<noteq> t \<Longrightarrow> f' v = f v) \<Longrightarrow> finite {v. f' v \<noteq> 0}"
  by (rule finite_subset [of _ "insert t {v. f v \<noteq> 0}"]) force+

text \<open>A worker that enters a task.\<close>

lemma counter_enter:
  assumes inv: "counter.client_inv work N s" and t: "cn_pc s t = Count_Loop 0"
    and w: "total work' = total work + k" "total work' < 2 ^ 31"
  shows "counter.client_inv work' (N + 4 * k) (s\<lparr>cn_pc := (cn_pc s)(t := Count_Loop k)\<rparr>)"
proof -
  let ?s = "s\<lparr>cn_pc := (cn_pc s)(t := Count_Loop k)\<rparr>"
  obtain u where u: "mutex_held counter_mutex (cn_mutexes s) u" "\<And>v. in_section (cn_pc s v) \<longleftrightarrow> u = Some v"
    and ok: "counter_ok work s" and fin: "finite {v. steps_left (cn_pc s v) \<noteq> 0}"
    and N: "total (\<lambda>v. steps_left (cn_pc s v)) = N"
    using inv unfolding counter.client_inv_def by blast
  have fin': "finite {v. rounds_left (cn_pc s v) \<noteq> 0}" using ok by (simp add: counter_ok_def)
  have "total (\<lambda>v. rounds_left (cn_pc ?s v)) + rounds_left (cn_pc s t) = total (\<lambda>v. rounds_left (cn_pc s v)) + rounds_left (cn_pc ?s t)"
    by (rule total_change [OF fin']) simp
  then have "total (\<lambda>v. rounds_left (cn_pc ?s v)) = total (\<lambda>v. rounds_left (cn_pc s v)) + k" using t by simp
  moreover have "finite {v. rounds_left (cn_pc ?s v) \<noteq> 0}" "finite {v. steps_left (cn_pc ?s v) \<noteq> 0}"
    by (rule finite_change [OF fin', of t] finite_change [OF fin, of t]; simp)+
  moreover have "total (\<lambda>v. steps_left (cn_pc ?s v)) + steps_left (cn_pc s t) = N + steps_left (cn_pc ?s t)"
    unfolding N [symmetric] by (rule total_change [OF fin]) simp
  moreover have "u \<noteq> Some t" using u(2) [of t] t by simp
  ultimately show ?thesis using ok u w t unfolding counter.client_inv_def counter_ok_def by auto
qed

lemma others_running: "pstep n t s s' \<Longrightarrow> u \<noteq> t \<Longrightarrow> ps_pc s' u = Work_Running f a \<longleftrightarrow> ps_pc s u = Work_Running f a"
  using pstep_others [of n t s s' u] by auto

lemma counter_pool_step:
  assumes inv: "counter_session k x" and st: "pstep n t (bs_pool x) s'" and r: "preach n capacity (bs_pool x)"
    and l: "may_leave (counter_tasks p k) t (ps_pc (bs_pool x) t) (bs_data x)" and few: "k * length (ps_ran s') < 2 ^ 31"
    and x': "bs_pool x' = s'" "bs_data x' = enter_task (counter_tasks p k) t (ps_pc s' t) (bs_data x)"
  shows "counter_session k x'"
proof -
  obtain N where N: "counter.client_inv (asked k (bs_pool x)) N (bs_data x)" using inv unfolding counter_session_def by blast
  have over: "cn_pc (bs_data x) t = Count_Loop 0" using inv l by (auto simp: counter_session_def may_leave_iff)
  have ran: "length (ps_ran s') = length (ps_ran (bs_pool x)) + length (started (ps_pc s' t))"
    using arg_cong [OF pstep_started [OF r st], of length] by simp
  have rest: "cn_pc (bs_data x) u = Count_Loop 0" if "\<forall>f a. ps_pc s' u \<noteq> Work_Running f a" "u \<noteq> t" for u
    using inv that others_running [OF st that(2)] unfolding counter_session_def by blast
  show ?thesis
  proof (cases "\<exists>f a. ps_pc s' t = Work_Running f a")
    case True
    then have d: "bs_data x' = bs_data x\<lparr>cn_pc := (cn_pc (bs_data x))(t := Count_Loop k)\<rparr>" and n: "length (started (ps_pc s' t)) = 1"
      using x' by (auto simp: enter_task_def)
    have "total (asked k s') = total (asked k (bs_pool x)) + k" using ran n by simp
    from counter_enter [OF N over this] few d x'(1) rest True show ?thesis unfolding counter_session_def by auto
  next
    case False
    then have d: "bs_data x' = bs_data x" and "started (ps_pc s' t) = []"
      using x' by (cases "ps_pc s' t"; simp add: enter_task_def)+
    then have "asked k s' = asked k (bs_pool x)" using ran by (simp add: asked_def)
    with N d x'(1) rest over show ?thesis unfolding counter_session_def by metis
  qed
qed

lemma counter_ran_few:
  assumes "counter_reach n capacity pool p k main m arg h x" and "n \<le> main" and "m * k < 2 ^ 31" "Suc m < 2 ^ 64"
  shows "length (ps_ran (bs_pool x)) \<le> m" and "k * length (ps_ran (bs_pool x)) < 2 ^ 31"
proof -
  have "mset (map snd (ps_ran (bs_pool x))) \<subseteq># mset (counter_calls m arg)"
    by (rule blocking_no_overflow [OF assms(1,2)]) (use assms(4) in \<open>simp add: counter_calls_def\<close>)
  from size_mset_mono [OF this] show "length (ps_ran (bs_pool x)) \<le> m" by (simp add: counter_calls_def)
  then have "k * length (ps_ran (bs_pool x)) \<le> m * k" by (simp add: ac_simps)
  with assms(3) show "k * length (ps_ran (bs_pool x)) < 2 ^ 31" by (rule le_less_trans [rotated])
qed

lemma counter_session_reach:
  "counter_reach n capacity pool p k main m arg h x \<Longrightarrow> n \<le> main \<Longrightarrow> m * k < 2 ^ 31 \<Longrightarrow> Suc m < 2 ^ 64 \<Longrightarrow>
   mutex_held counter_mutex h None \<Longrightarrow> counter_session k x"
proof (induction rule: blocking_reach.induct)
  case init
  then have "counter.client_inv (asked k (init_psys n capacity)) 0 (counter_start h)"
    unfolding counter.client_inv_def by (auto simp: counter_start_def counter_ok_def init_psys_def intro!: exI [of _ None])
  then show ?case by (auto simp: counter_session_def init_bsession_def counter_start_def)
next
  case (step x t x')
  note inv = step.IH [OF step.prems] and r = blocking_preach [OF step.hyps(1)]
  have r': "counter_reach n capacity pool p k main m arg h x'" by (rule blocking_reach.step [OF step.hyps])
  from step.hyps(2) show ?case
  proof (cases rule: blocking_step.cases)
    case (in_pool s')
    have "k * length (ps_ran s') < 2 ^ 31" using counter_ran_few(2) [OF r' step.prems(1-3)] in_pool(1) by simp
    from counter_pool_step [OF inv in_pool(2) r in_pool(3) this, of x'] in_pool(1) show ?thesis by simp
  next
    case (in_task func a g)
    then have st: "increment_with_mutex p t (cn_pc (bs_data x) t) (bs_data x) = Some g" by simp
    obtain N where "counter.client_inv (asked k (bs_pool x)) N (bs_data x)" using inv unfolding counter_session_def by blast
    from counter.client_inv_step [OF this st] obtain M where "counter.client_inv (asked k (bs_pool x)) M g" by blast
    moreover have "cn_pc g u = cn_pc (bs_data x) u" if "u \<noteq> t" for u using increment_shape [OF st refl] that by blast
    moreover have "u \<noteq> t" if "\<forall>f a. ps_pc (bs_pool x) u \<noteq> Work_Running f a" for u using that in_task(2) by auto
    ultimately show ?thesis using inv in_task(1) unfolding counter_session_def by simp metis
  next
    case (call c cs q)
    then show ?thesis using inv unfolding counter_session_def asked_def by (auto split: if_splits)
  next
    case (refused c cs y)
    then show ?thesis using inv by (simp add: counter_session_def)
  qed
qed

section \<open>Where it ends\<close>

lemma counter_no_infinite_run:
  assumes r: "counter_reach n capacity pool p k main m arg h x"
    and a: "n \<le> main" "m * k < 2 ^ 31" "Suc m < 2 ^ 64" "mutex_held counter_mutex h None"
  shows "\<nexists>run. run 0 = x \<and> (\<forall>i. awake_blocking_step n pool (counter_tasks p k) (run i) (run (Suc i)))"
proof (intro notI, elim exE conjE)
  fix run assume run: "run 0 = x" "\<forall>i. awake_blocking_step n pool (counter_tasks p k) (run i) (run (Suc i))"
  let ?left = "\<lambda>s. total (\<lambda>t. steps_left (cn_pc s t))"
  have fin: "finite {t. batch_program main (counter_calls m arg) t \<noteq> []}" by simp
  show False
  proof (rule blocking_no_infinite_run [where run = run and steps_left = ?left, OF _ fin])
    fix y t f b g
    assume y: "counter_reach n capacity pool p k main m arg h y" and "tk_step (counter_tasks p k) t (f, b) (bs_data y) = Some g"
    then have st: "increment_with_mutex p t (cn_pc (bs_data y) t) (bs_data y) = Some g" by simp
    obtain N where N: "counter.client_inv (asked k (bs_pool y)) N (bs_data y)"
      using counter_session_reach [OF y a] unfolding counter_session_def by blast
    from counter.client_inv_step [OF N st] N show "?left g < ?left (bs_data y)" unfolding counter.client_inv_def by auto
  qed (use run r in \<open>simp_all del: fun_upd_apply\<close>)
qed

lemma counter_all_over:
  assumes r: "counter_reach n capacity pool p k main m arg h x"
    and a: "n \<le> main" "m * k < 2 ^ 31" "Suc m < 2 ^ 64" "mutex_held counter_mutex h None"
    and e: "at_end n pool (counter_tasks p k) x"
  shows "cn_pc (bs_data x) t = Count_Loop 0" and "cn_counter (bs_data x) = int (k * length (ps_ran (bs_pool x)))"
proof -
  note inv = counter_session_reach [OF r a]
  obtain N where N: "counter.client_inv (asked k (bs_pool x)) N (bs_data x)" using inv unfolding counter_session_def by blast
  have ok: "counter_ok (asked k (bs_pool x)) (bs_data x)" and fin: "finite {u. steps_left (cn_pc (bs_data x) u) \<noteq> 0}"
    and sum: "total (\<lambda>u. steps_left (cn_pc (bs_data x) u)) = N" using N unfolding counter.client_inv_def by blast+
  have "increment_with_mutex p u (cn_pc (bs_data x) u) (bs_data x) = None" for u
  proof (cases "\<exists>f b. ps_pc (bs_pool x) u = Work_Running f b")
    case True
    with at_end_task [OF r e] show ?thesis by auto
  next
    case False
    with inv have "cn_pc (bs_data x) u = Count_Loop 0" unfolding counter_session_def by blast
    then show ?thesis by simp
  qed
  with counter.lock_progress [OF N, of p] have "N = 0" by auto
  with total_zero_iff [OF fin] sum have z: "steps_left (cn_pc (bs_data x) u) = 0" for u by simp
  have all: "cn_pc (bs_data x) u = Count_Loop 0" for u
  proof -
    have "pc_ok (cn_counter (bs_data x)) (cn_pc (bs_data x) u)" using ok by (simp add: counter_ok_def)
    with z [of u] show ?thesis by (cases "cn_pc (bs_data x) u") auto
  qed
  then show "cn_pc (bs_data x) t = Count_Loop 0" .
  have "total (\<lambda>u. rounds_left (cn_pc (bs_data x) u)) = 0" using all by simp
  with ok show "cn_counter (bs_data x) = int (k * length (ps_ran (bs_pool x)))" by (simp add: counter_ok_def)
qed

text \<open>
  C20. Example 2 from the creation of the pool to its destruction, with any number of workers and under any schedule:
  at most one worker is between lock and unlock; the counter plus the increments that the workers inside a task still
  have to make is what the tasks called so far ask for. It ends, with the pool freed and main through its calls, and the
  counter then holds the increments of all tasks that were not refused: the report is CORRECT exactly
  if none was. The total has to fit an int.
\<close>

theorem hello_mutex_ends:
  assumes "blocking_reach n capacity pool (counter_tasks p k) (batch_program main (counter_calls m arg)) (counter_start h) x"
    and "sync_mutex_init p 0 counter_mutex h0 = Returns h SUCCESS" and "h0 counter_mutex \<noteq> None"
    and "0 < n" and "n \<le> main" and "pool \<noteq> NULL" and "m * k < 2 ^ 31" and "Suc m < 2 ^ 64"
  shows "(in_section (cn_pc (bs_data x) t) \<and> in_section (cn_pc (bs_data x) u) \<longrightarrow> t = u) \<and>
    cn_counter (bs_data x) + int (total (\<lambda>t. rounds_left (cn_pc (bs_data x) t))) = int (k * length (ps_ran (bs_pool x))) \<and>
    (\<nexists>run. run 0 = x \<and> (\<forall>i. awake_blocking_step n pool (counter_tasks p k) (run i) (run (Suc i)))) \<and>
    (at_end n pool (counter_tasks p k) x \<longrightarrow> ps_freed (bs_pool x) \<and> bs_todo x main = [] \<and>
       cn_counter (bs_data x) + int (length (bs_refused x) * k) = int (m * k) \<and>
       (counter_report m k (bs_data x) \<longleftrightarrow> bs_refused x = [] \<or> k = 0))"
proof -
  have held: "mutex_held counter_mutex h None"
    using mutex_init_object [OF assms(2) _ assms(3)] by (auto simp: mutex_held_def checked_mutex_def)
  note a = assms(5,7,8) held
  obtain N where N: "counter.client_inv (asked k (bs_pool x)) N (bs_data x)"
    using counter_session_reach [OF assms(1) a] unfolding counter_session_def by blast
  then have "counter_ok (asked k (bs_pool x)) (bs_data x)" unfolding counter.client_inv_def by blast
  then have account: "cn_counter (bs_data x) + int (total (\<lambda>t. rounds_left (cn_pc (bs_data x) t))) = int (k * length (ps_ran (bs_pool x)))"
    by (simp add: counter_ok_def)
  have ends: "ps_freed (bs_pool x)" "bs_todo x main = []" "cn_counter (bs_data x) + int (length (bs_refused x) * k) = int (m * k)"
    if e: "at_end n pool (counter_tasks p k) x"
  proof -
    note over = counter_all_over [OF assms(1) a e]
    have len: "Suc (length (counter_calls m arg)) < 2 ^ 64" using assms(8) by (simp add: counter_calls_def)
    have "blocked (counter_tasks p k) x = {}" using over(1) by (auto simp: blocked_def)
    from blocking_end [OF assms(1,4,5,6) len e this] show f: "ps_freed (bs_pool x)" "bs_todo x main = []" .
    from arg_cong [OF blocking_freed [OF assms(1,4,5,6) len f(1)], of size]
    have "length (ps_ran (bs_pool x)) + length (bs_refused x) = m" by (simp add: counter_calls_def)
    then have "k * (length (ps_ran (bs_pool x)) + length (bs_refused x)) = k * m" by simp
    then have "k * length (ps_ran (bs_pool x)) + length (bs_refused x) * k = m * k" by (simp add: algebra_simps)
    with over(2) show "cn_counter (bs_data x) + int (length (bs_refused x) * k) = int (m * k)"
      by (simp flip: of_nat_add del: of_nat_mult)
  qed
  show ?thesis
    using counter.one_inside [OF N] account counter_no_infinite_run [OF assms(1) a] ends
    by (auto simp: counter_report_def)
qed

text \<open>Two tasks of one increment each. The second worker enters its task while the first is in its section.\<close>

definition counter_tasks_run :: "(tid \<times> pool_action) list" where
  "counter_tasks_run = [(2, Enter (Submit INCREMENT_TASK 16 TASK_PRIORITY_NORMAL)), (2, Step), (2, Malloc 64 0)] @ steps 2 10 @
     [(2, Enter (Submit INCREMENT_TASK 16 TASK_PRIORITY_NORMAL)), (2, Step), (2, Malloc 128 0)] @ steps 2 10 @
     steps 1 14 @ steps 0 12 @ steps 1 2 @ steps 0 4 @
     steps 1 6 @ steps 0 6 @ [(2, Enter Wait)] @ steps 2 5 @ [(2, Enter Destroy)] @ steps 2 10 @ steps 0 7 @ steps 1 7 @ steps 2 6"

definition fresh_mutex :: "sync_mutex heap" where
  "fresh_mutex = [counter_mutex \<mapsto> \<lparr>sm_lock = \<lparr>pm_type = PTHREAD_MUTEX_ERRORCHECK, pm_owner = None\<rparr>, sm_initialized = True\<rparr>]"

lemma counter_tasks_run_result:
  "map_option (\<lambda>x. (ps_freed (bs_pool x), bs_refused x)) (blocking_exec 2 3 (counter_tasks Linux 1) counter_tasks_run
    (init_bsession 2 4 (batch_program 2 (counter_calls 2 16)) (counter_start fresh_mutex))) = Some (True, [])"
  by (simp add: counter_tasks_run_def run_defs pushed_def init_bsession_def submit_calls_def turned_away_def offered_def
      counter_calls_def may_leave_def enter_task_def INCREMENT_TASK_def counter_start_def fresh_mutex_def
      counter_mutex_def sync_defs pthread_defs fits_int_def)

lemma hello_mutex_ends_witness:
  "\<exists>x. blocking_exec 2 3 (counter_tasks Linux 1) counter_tasks_run
       (init_bsession 2 4 (batch_program 2 (counter_calls 2 16)) (counter_start fresh_mutex)) = Some x \<and>
     at_end 2 1 (counter_tasks Linux 1) x \<and> cn_counter (bs_data x) = 2 \<and> counter_report 2 1 (bs_data x)"
proof -
  let ?start = "init_bsession 2 4 (batch_program 2 (counter_calls 2 16)) (counter_start fresh_mutex)"
  from counter_tasks_run_result obtain x where x: "blocking_exec 2 3 (counter_tasks Linux 1) counter_tasks_run ?start = Some x"
    "ps_freed (bs_pool x)" "bs_refused x = []" by (auto simp del: fun_upd_apply)
  have r: "counter_reach 2 4 1 Linux 1 2 2 16 fresh_mutex x" by (rule blocking_exec_reach [OF x(1)]) simp
  have e: "at_end 2 1 (counter_tasks Linux 1) x" by (rule blocking_freed_at_end [OF r x(2)])
  have i: "sync_mutex_init Linux 0 counter_mutex fresh_mutex = Returns fresh_mutex SUCCESS"
    by (simp add: fresh_mutex_def counter_mutex_def sync_defs pthread_defs Let_def)
  have "fresh_mutex counter_mutex \<noteq> None" by (simp add: fresh_mutex_def)
  from hello_mutex_ends [OF r i this] e x(3)
  have "cn_counter (bs_data x) = 2" "counter_report 2 1 (bs_data x)" by simp_all
  with x(1) e show ?thesis by blast
qed

end
