(* ===== verification/Hello_Semaphore.thy ===== *)
theory Hello_Semaphore
  imports Pool_Blocking Hello_Threads
begin

text \<open>
  Example 3 of examples/hello_threads.c as it is run there: producer and consumer are tasks of a pool with
  two workers, main waits for both and destroys the pool. The two loops are those of Hello_Threads, in
  which the owner of the mutex is 0 for the worker in the producer and 1 for that in the consumer.
\<close>

section \<open>The tasks\<close>

definition PRODUCER_TASK :: ptr where "PRODUCER_TASK = 4096"
definition CONSUMER_TASK :: ptr where "CONSUMER_TASK = 8192"

text \<open>\<open>items\<close> is what the argument of both points to.\<close>

definition ring_task :: "platform \<Rightarrow> nat \<Rightarrow> ptr \<times> ptr \<Rightarrow> ring \<Rightarrow> ring option" where
  "ring_task p items = (\<lambda>(func, arg) s.
     if func = PRODUCER_TASK then producer_task p items (rg_producer s) s
     else if func = CONSUMER_TASK then consumer_task p items (rg_consumer s) s
     else None)"

definition ring_over :: "nat \<Rightarrow> ptr \<times> ptr \<Rightarrow> ring \<Rightarrow> bool" where
  "ring_over items = (\<lambda>(func, arg) s.
     if func = PRODUCER_TASK then rg_producer s = P_Wait items
     else if func = CONSUMER_TASK then (case rg_consumer s of C_Wait i acc \<Rightarrow> i = items | _ \<Rightarrow> False)
     else True)"

definition ring_start :: "ptr \<times> ptr \<Rightarrow> ring \<Rightarrow> ring" where
  "ring_start = (\<lambda>(func, arg) s.
     if func = PRODUCER_TASK then s\<lparr>rg_producer := P_Wait 0\<rparr>
     else if func = CONSUMER_TASK then s\<lparr>rg_consumer := C_Wait 0 0\<rparr>
     else s)"

definition ring_tasks :: "platform \<Rightarrow> nat \<Rightarrow> ring tasks" where
  "ring_tasks p items =
     \<lparr>tk_start = (\<lambda>t. ring_start), tk_step = (\<lambda>t. ring_task p items), tk_over = (\<lambda>t. ring_over items)\<rparr>"

lemma ring_tasks_simps [simp]: "tk_start (ring_tasks p items) t = ring_start" "tk_step (ring_tasks p items) t = ring_task p items"
  "tk_over (ring_tasks p items) t = ring_over items"
  by (simp_all add: ring_tasks_def)

text \<open>The calls of submit of \<open>example_semaphore\<close>.\<close>

definition ring_calls :: "ptr \<Rightarrow> (ptr \<times> ptr) list" where
  "ring_calls num_items = [(PRODUCER_TASK, num_items), (CONSUMER_TASK, num_items)]"

lemma ring_tasks_differ [simp]: "PRODUCER_TASK \<noteq> CONSUMER_TASK" "CONSUMER_TASK \<noteq> PRODUCER_TASK"
  by (simp_all add: PRODUCER_TASK_def CONSUMER_TASK_def)

lemma after_call_some [simp]: "after_call m k = Some s' \<longleftrightarrow> (\<exists>h r. m = Returns h r \<and> s' = k h)"
  by (cases m) auto

lemma producer_keeps: "producer_task p items pc s = Some s' \<Longrightarrow> rg_consumer s' = rg_consumer s"
  by (cases pc) (auto split: if_splits)

lemma consumer_keeps: "consumer_task p items pc s = Some s' \<Longrightarrow> rg_producer s' = rg_producer s"
  by (cases pc) (auto split: if_splits)

lemma over_no_step: "ring_over items (func, arg) s \<Longrightarrow> ring_task p items (func, arg) s = None"
  by (auto simp: ring_over_def ring_task_def split: consumer_pc.splits if_splits)

section \<open>The invariant\<close>

abbreviation called :: "psys \<Rightarrow> (ptr \<times> ptr) set" where
  "called s \<equiv> snd ` set (ps_ran s)"

definition ring_session :: "nat \<Rightarrow> ptr \<Rightarrow> ring bsession \<Rightarrow> bool" where
  "ring_session items arg x \<longleftrightarrow> (\<exists>k. ring_inv items k (bs_data x)) \<and>
     ((PRODUCER_TASK, arg) \<notin> called (bs_pool x) \<longrightarrow> rg_producer (bs_data x) = P_Wait 0) \<and>
     ((CONSUMER_TASK, arg) \<notin> called (bs_pool x) \<longrightarrow> rg_consumer (bs_data x) = C_Wait 0 0) \<and>
     (\<forall>func arg. (func, arg) \<in> called (bs_pool x) \<longrightarrow>
        (\<exists>t. ps_pc (bs_pool x) t = Work_Running func arg) \<or> ring_over items (func, arg) (bs_data x))"

lemma ring_sessionI:
  assumes "\<exists>k. ring_inv items k (bs_data x)"
    and "(PRODUCER_TASK, arg) \<notin> called (bs_pool x) \<Longrightarrow> rg_producer (bs_data x) = P_Wait 0"
    and "(CONSUMER_TASK, arg) \<notin> called (bs_pool x) \<Longrightarrow> rg_consumer (bs_data x) = C_Wait 0 0"
    and "\<And>y. y \<in> called (bs_pool x) \<Longrightarrow> \<nexists>t. ps_pc (bs_pool x) t = Work_Running (fst y) (snd y) \<Longrightarrow> ring_over items y (bs_data x)"
  shows "ring_session items arg x"
  unfolding ring_session_def
proof (intro conjI allI impI)
  fix f a assume "(f, a) \<in> called (bs_pool x)"
  with assms(4) [of "(f, a)"] show "(\<exists>t. ps_pc (bs_pool x) t = Work_Running f a) \<or> ring_over items (f, a) (bs_data x)" by auto
qed (use assms(1-3) in blast)+

abbreviation ring_reach :: "nat \<Rightarrow> size_t \<Rightarrow> ptr \<Rightarrow> platform \<Rightarrow> nat \<Rightarrow> tid \<Rightarrow> ptr \<Rightarrow> int list \<Rightarrow> ring bsession \<Rightarrow> bool" where
  "ring_reach n capacity pool p items main arg buffer \<equiv> blocking_reach n capacity pool (ring_tasks p items)
     (batch_program main (ring_calls arg)) (init_ring buffer)"

lemma ring_called:
  assumes "ring_reach n capacity pool p items main arg buffer x" and "n \<le> main"
  shows "called (bs_pool x) \<subseteq> {(PRODUCER_TASK, arg), (CONSUMER_TASK, arg)}" and "distinct (map snd (ps_ran (bs_pool x)))"
proof -
  have m: "mset (map snd (ps_ran (bs_pool x))) \<subseteq># mset (ring_calls arg)"
    by (rule blocking_no_overflow [OF assms]) (simp add: ring_calls_def)
  from set_mset_mono [OF m] show "called (bs_pool x) \<subseteq> {(PRODUCER_TASK, arg), (CONSUMER_TASK, arg)}"
    by (auto simp: ring_calls_def)
  show "distinct (map snd (ps_ran (bs_pool x)))"
    by (rule distinct_submset [OF m]) (simp add: ring_calls_def)
qed

lemma ring_pool_step:
  assumes inv: "ring_session items arg x" and st: "pstep n t (bs_pool x) s'" and r: "preach n capacity (bs_pool x)"
    and l: "may_leave (ring_tasks p items) t (ps_pc (bs_pool x) t) (bs_data x)"
    and x': "bs_pool x' = s'" "bs_data x' = bs_data x"
  shows "ring_session items arg x'"
proof -
  have grow: "called (bs_pool x) \<subseteq> called s'" using pstep_ran_grows [OF st] by blast
  have "(\<exists>u. ps_pc s' u = Work_Running f a) \<or> ring_over items (f, a) (bs_data x)" if c: "(f, a) \<in> called s'" for f a
  proof (cases "(f, a) \<in> called (bs_pool x)")
    case False
    have "set (map snd (ps_ran s')) = set (map snd (ps_ran (bs_pool x))) \<union> set (started (ps_pc s' t))"
      using pstep_started [OF r st] by simp
    then have "(f, a) \<in> set (started (ps_pc s' t))" using c False by auto
    then have "ps_pc s' t = Work_Running f a" by (cases "ps_pc s' t") auto
    then show ?thesis by blast
  next
    case True
    with inv consider (running) u where "ps_pc (bs_pool x) u = Work_Running f a" | (over) "ring_over items (f, a) (bs_data x)"
      unfolding ring_session_def by blast
    then show ?thesis
    proof cases
      case running
      show ?thesis
      proof (cases "u = t")
        case True
        with running l show ?thesis by (simp add: may_leave_iff)
      next
        case False
        with pstep_others [OF st False] running show ?thesis by auto
      qed
    qed blast
  qed
  with inv grow show ?thesis unfolding ring_session_def x' by blast
qed

lemma ring_task_step:
  assumes inv: "ring_session items arg x" and c: "(f, a) \<in> called (bs_pool x)" "called (bs_pool x) \<subseteq> {(PRODUCER_TASK, arg), (CONSUMER_TASK, arg)}"
    and run: "ps_pc (bs_pool x) t = Work_Running f a"
    and st: "ring_task p items (f, a) (bs_data x) = Some g" and small: "items < 2 ^ 31"
  shows "ring_session items arg (x\<lparr>bs_data := g\<rparr>)"
proof -
  obtain k where k: "ring_inv items k (bs_data x)" using inv unfolding ring_session_def by blast
  have same: "ring_over items y (bs_data x) \<Longrightarrow> y \<in> called (bs_pool x) \<Longrightarrow> y \<noteq> (f, a) \<Longrightarrow> ring_over items y g" for y
    using c st by (cases y) (auto simp: ring_over_def ring_task_def dest: producer_keeps consumer_keeps split: if_splits)
  show ?thesis
  proof (intro ring_sessionI)
    show "\<exists>k. ring_inv items k (bs_data (x\<lparr>bs_data := g\<rparr>))"
      using st producer_step [OF k _ small, of p g] consumer_step [OF k _ small, of p g]
      by (intro exI [of _ "Suc k"]) (auto simp: ring_task_def split: if_splits)
    show "rg_producer (bs_data (x\<lparr>bs_data := g\<rparr>)) = P_Wait 0" if "(PRODUCER_TASK, arg) \<notin> called (bs_pool (x\<lparr>bs_data := g\<rparr>))"
    proof -
      from that c have "f = CONSUMER_TASK" by auto
      with st have "rg_producer g = rg_producer (bs_data x)" by (auto simp: ring_task_def dest: consumer_keeps)
      with that inv show ?thesis by (simp add: ring_session_def)
    qed
    show "rg_consumer (bs_data (x\<lparr>bs_data := g\<rparr>)) = C_Wait 0 0" if "(CONSUMER_TASK, arg) \<notin> called (bs_pool (x\<lparr>bs_data := g\<rparr>))"
    proof -
      from that c have "f = PRODUCER_TASK" by auto
      with st have "rg_consumer g = rg_consumer (bs_data x)" by (auto simp: ring_task_def dest: producer_keeps)
      with that inv show ?thesis by (simp add: ring_session_def)
    qed
    fix y assume y: "y \<in> called (bs_pool (x\<lparr>bs_data := g\<rparr>))" and n: "\<nexists>t. ps_pc (bs_pool (x\<lparr>bs_data := g\<rparr>)) t = Work_Running (fst y) (snd y)"
    from n run have ne: "y \<noteq> (f, a)" by auto
    have y': "(fst y, snd y) \<in> called (bs_pool x)" "y \<in> called (bs_pool x)" using y by simp_all
    from inv have "\<forall>func arg. (func, arg) \<in> called (bs_pool x) \<longrightarrow>
        (\<exists>t. ps_pc (bs_pool x) t = Work_Running func arg) \<or> ring_over items (func, arg) (bs_data x)"
      unfolding ring_session_def by blast
    with y'(1) have "(\<exists>t. ps_pc (bs_pool x) t = Work_Running (fst y) (snd y)) \<or> ring_over items (fst y, snd y) (bs_data x)" by blast
    with n have "ring_over items (fst y, snd y) (bs_data x)" by simp
    with same [OF _ y'(2) ne] show "ring_over items y (bs_data (x\<lparr>bs_data := g\<rparr>))" by simp
  qed
qed

lemma ring_enter:
  assumes inv: "ring_session items arg x" and new: "set (started q) \<inter> called (bs_pool x) = {}"
    and sub: "set (started q) \<subseteq> {(PRODUCER_TASK, arg), (CONSUMER_TASK, arg)}"
  shows "enter_task (ring_tasks p items) t q (bs_data x) = bs_data x"
proof (cases "started q")
  case (Cons y ys)
  then have ys: "started q = [y]" by (cases q) auto
  with sub consider "y = (PRODUCER_TASK, arg)" | "y = (CONSUMER_TASK, arg)" by auto
  then show ?thesis
  proof cases
    case 1
    with new ys have "(PRODUCER_TASK, arg) \<notin> called (bs_pool x)" by (simp del: image_iff)
    with inv have "rg_producer (bs_data x) = P_Wait 0" unfolding ring_session_def by blast
    with ys 1 show ?thesis by (simp add: enter_task_def ring_start_def)
  next
    case 2
    with new ys have "(CONSUMER_TASK, arg) \<notin> called (bs_pool x)" by (simp del: image_iff)
    with inv have "rg_consumer (bs_data x) = C_Wait 0 0" unfolding ring_session_def by blast
    with ys 2 show ?thesis by (simp add: enter_task_def ring_start_def)
  qed
qed (simp add: enter_task_def)

lemma ring_session_reach:
  "ring_reach n capacity pool p items main arg buffer x \<Longrightarrow> n \<le> main \<Longrightarrow> length buffer = 5 \<Longrightarrow> items < 2 ^ 31 \<Longrightarrow>
   ring_session items arg x"
proof (induction rule: blocking_reach.induct)
  case init
  then show ?case using ring_start [of buffer items]
    by (auto simp: ring_session_def init_bsession_def init_psys_def init_ring_def)
next
  case (step x t x')
  note inv = step.IH [OF step.prems] and r = blocking_preach [OF step.hyps(1)]
  from step.hyps(2) show ?case
  proof (cases rule: blocking_step.cases)
    case (in_pool s')
    have "ring_reach n capacity pool p items main arg buffer x'" by (rule blocking_reach.step [OF step.hyps])
    note once = ring_called [OF this step.prems(1)]
    have "map snd (ps_ran s') = map snd (ps_ran (bs_pool x)) @ started (ps_pc s' t)" by (rule pstep_started [OF r in_pool(2)])
    with once(2) in_pool(1) have new: "set (started (ps_pc s' t)) \<inter> called (bs_pool x) = {}"
      "set (started (ps_pc s' t)) \<subseteq> called s'" by (auto simp del: set_map simp flip: set_map)
    have "enter_task (ring_tasks p items) t (ps_pc s' t) (bs_data x) = bs_data x"
      by (rule ring_enter [OF inv new(1)]) (use new(2) once(1) in_pool(1) in auto)
    with ring_pool_step [OF inv in_pool(2) r in_pool(3), of x'] in_pool(1) show ?thesis by simp
  next
    case (in_task func a g)
    have "(func, a) \<in> called (bs_pool x)" using running_called [OF r in_task(2)] by force
    from ring_task_step [OF inv this ring_called(1) [OF step.hyps(1) step.prems(1)] in_task(2) _ step.prems(3)] in_task(1,3)
    show ?thesis by simp
  next
    case (call c cs q)
    have "ps_pc (to t q (bs_pool x)) u = Work_Running f a" if "ps_pc (bs_pool x) u = Work_Running f a" for u f a
      using that call(4) by (cases "u = t") auto
    with inv call(1) show ?thesis unfolding ring_session_def by (simp del: fun_upd_apply) blast
  next
    case (refused c cs y)
    with inv show ?thesis by (simp add: ring_session_def)
  qed
qed

section \<open>Where it ends\<close>

definition ring_left :: "nat \<Rightarrow> ring \<Rightarrow> nat" where
  "ring_left items s = 12 * items - (p_done (rg_producer s) + c_done (rg_consumer s))"

lemma ring_inv_steps:
  assumes "ring_inv items k s"
  shows "p_done (rg_producer s) + c_done (rg_consumer s) = k" and "k \<le> 12 * items"
    and "\<not> ring_over items (PRODUCER_TASK, a) s \<or> \<not> ring_over items (CONSUMER_TASK, a) s \<Longrightarrow> k < 12 * items"
proof -
  have le: "reserved (rg_producer s) \<le> items" "claimed (rg_consumer s) \<le> items" and k: "k = p_done (rg_producer s) + c_done (rg_consumer s)"
    using assms unfolding ring_inv_def by blast+
  have p: "p_done (rg_producer s) \<le> 6 * items" "ring_over items (PRODUCER_TASK, a) s \<or> p_done (rg_producer s) < 6 * items"
    using le(1) by (cases "rg_producer s"; simp add: ring_over_def; linarith)+
  have c: "c_done (rg_consumer s) \<le> 6 * items" "ring_over items (CONSUMER_TASK, a) s \<or> c_done (rg_consumer s) < 6 * items"
    using le(2) by (cases "rg_consumer s"; simp add: ring_over_def; linarith)+
  from k p c show "p_done (rg_producer s) + c_done (rg_consumer s) = k" "k \<le> 12 * items"
    "\<not> ring_over items (PRODUCER_TASK, a) s \<or> \<not> ring_over items (CONSUMER_TASK, a) s \<Longrightarrow> k < 12 * items" by auto
qed

lemma ring_inv_safe:
  assumes "ring_inv items k s"
  shows "item_ok (rg_consumer s) \<and> stored (rg_producer s) \<le> taken (rg_consumer s) + 5 \<and>
    \<not> (p_locked (rg_producer s) \<and> c_locked (rg_consumer s))"
proof -
  have "item_ok (rg_consumer s)" "\<not> (p_locked (rg_producer s) \<and> c_locked (rg_consumer s))"
    "reserved (rg_producer s) \<le> 5 + freed_slots (rg_consumer s)"
    using assms unfolding ring_inv_def by auto
  moreover have "stored (rg_producer s) \<le> reserved (rg_producer s)" by (cases "rg_producer s") auto
  moreover have "freed_slots (rg_consumer s) \<le> taken (rg_consumer s)" by (cases "rg_consumer s") auto
  ultimately show ?thesis by linarith
qed

lemma ring_task_decreases:
  assumes "ring_inv items k s" and "ring_task p items (f, a) s = Some g" and "items < 2 ^ 31"
  shows "ring_left items g < ring_left items s"
proof -
  have "ring_inv items (Suc k) g"
    using assms(2) producer_step [OF assms(1) _ assms(3), of p g] consumer_step [OF assms(1) _ assms(3), of p g]
    by (auto simp: ring_task_def split: if_splits)
  from ring_inv_steps(1,2) [OF this] ring_inv_steps(1) [OF assms(1)] show ?thesis by (simp add: ring_left_def)
qed

lemma ring_task_progress:
  assumes "ring_inv items k s" and "k < 12 * items" and "items * (items + 1) div 2 < 2 ^ 31"
  shows "\<exists>f g. ring_task p items (f, a) s = Some g \<and> (f, a) \<in> set (ring_calls a)"
proof -
  obtain s' where "producer_task p items (rg_producer s) s = Some s' \<or> consumer_task p items (rg_consumer s) s = Some s'"
    using ring_progress [OF assms, of p] unfolding ring_step_def by blast
  then have "ring_task p items (PRODUCER_TASK, a) s = Some s' \<or> ring_task p items (CONSUMER_TASK, a) s = Some s'"
    by (simp add: ring_task_def)
  then show ?thesis by (auto simp: ring_calls_def)
qed

lemma ring_called_over:
  assumes "ring_session items arg x" and "(f, arg) \<in> called (bs_pool x)"
    and "blocking_reach n capacity pool (ring_tasks p items) programs g0 x" and "at_end n pool (ring_tasks p items) x"
  shows "ring_task p items (f, arg) (bs_data x) = None"
proof -
  from assms(1,2) consider t where "ps_pc (bs_pool x) t = Work_Running f arg" | "ring_over items (f, arg) (bs_data x)"
    unfolding ring_session_def by blast
  then show ?thesis
  proof cases
    case 1
    from at_end_task [OF assms(3,4) this] show ?thesis by simp
  qed (rule over_no_step)
qed

lemma one_of_two: "A \<subseteq> {y, z} \<Longrightarrow> h \<notin> A \<Longrightarrow> h = y \<or> h = z \<Longrightarrow> \<exists>w. A \<subseteq> {w}"
  by blast

lemma ring_unblocked:
  assumes r: "ring_reach n capacity pool p items main arg buffer x" and n: "2 \<le> n" "n \<le> main" and p: "pool \<noteq> NULL"
    and b: "length buffer = 5" "items * (items + 1) div 2 < 2 ^ 31"
    and e: "at_end n pool (ring_tasks p items) x" and all: "bs_refused x = []"
  shows "blocked (ring_tasks p items) x = {}"
proof (rule ccontr)
  assume "blocked (ring_tasks p items) x \<noteq> {}"
  then obtain t f a where t: "ps_pc (bs_pool x) t = Work_Running f a" "\<not> ring_over items (f, a) (bs_data x)"
    unfolding blocked_def by auto
  note r' = blocking_preach [OF r]
  note inv = ring_session_reach [OF r n(2) b(1) items_bound(1) [OF b(2)]] and once = ring_called [OF r n(2)]
  from running_called [OF r' t(1)] have "(f, a) \<in> called (bs_pool x)" by force
  with once(1) t(2) have nb: "\<not> ring_over items (PRODUCER_TASK, arg) (bs_data x) \<or> \<not> ring_over items (CONSUMER_TASK, arg) (bs_data x)"
    and a: "a = arg" by auto
  obtain k where k: "ring_inv items k (bs_data x)" using inv unfolding ring_session_def by blast
  from ring_task_progress [OF k ring_inv_steps(3) [OF k nb] b(2), of p arg] obtain h g where
    h: "ring_task p items (h, arg) (bs_data x) = Some g" "(h, arg) \<in> set (ring_calls arg)" by blast
  have nc: "(h, arg) \<notin> called (bs_pool x)" 
  proof
    assume "(h, arg) \<in> called (bs_pool x)"
    from ring_called_over [OF inv this r e] h(1) show False by simp
  qed
  have others: "f' = f \<and> a' = a" if "(f', a') \<in> called (bs_pool x)" for f' a'
  proof -
    have "h = PRODUCER_TASK \<or> h = CONSUMER_TASK" using h(2) by (auto simp: ring_calls_def)
    then have "(h, arg) = (PRODUCER_TASK, arg) \<or> (h, arg) = (CONSUMER_TASK, arg)" by simp
    from one_of_two [OF once(1) nc this] obtain z where z: "called (bs_pool x) \<subseteq> {z}" by (rule exE)
    from subsetD [OF z that] subsetD [OF z \<open>(f, a) \<in> called (bs_pool x)\<close>] have "(f', a') = (f, a)" by simp
    then show ?thesis by simp
  qed
  have run: "u = t" if "ps_pc (bs_pool x) u = Work_Running f' a'" for u f' a'
  proof -
    have "(f', a') \<in> called (bs_pool x)" using running_called [OF r' that] by force
    with others that have "ps_pc (bs_pool x) u = Work_Running f a" by auto
    from called_once_unique [OF r' once(2) this t(1)] show ?thesis .
  qed
  then have B: "blocked (ring_tasks p items) x \<subseteq> {t}" unfolding blocked_def by blast
  have nf: "\<not> ps_freed (bs_pool x)" using freed_not_running [OF r'] t(1) by blast
  note st = at_end_stuck [OF e]
  obtain u where u: "u < n" "u \<noteq> t" using n(1) by (cases "t = 0") (auto intro: that [of 0] that [of 1])
  with B have "u \<notin> blocked (ring_tasks p items) x" by blast
  note empty = stuck_worker(2,3) [OF r' nf st u(1) this]
  have "at_rest (bs_pool x) v \<or> (\<exists>func arg. ps_pc (bs_pool x) v = Work_Running func arg)" if "v < n" for v
    using stuck_worker(1) [OF r' nf st that] t(1) B by (cases "v = t") auto
  from running_holds_nothing [OF r' this] tasks_account [OF r']
    arg_cong [OF fifo_order [OF queue_reach [OF r'] new_queue_wf(1)], of mset]
  have "mset (pushed (plog (bs_pool x))) = mset (map snd (ps_ran (bs_pool x)))" using empty(1) by simp
  with batch_stuck_submitted [OF r e nf n(2) p empty(2)] all
  have "mset (ring_calls arg) = mset (map snd (ps_ran (bs_pool x)))" by simp
  from mset_eq_setD [OF this] nc h(2) show False by simp
qed

lemma ring_inv_end:
  assumes "ring_inv items k s" and "ring_over items (PRODUCER_TASK, a) s" and "ring_over items (CONSUMER_TASK, a) s"
  shows "rg_producer s = P_Wait items" and "rg_consumer s = C_Wait items (int (items * (items + 1) div 2))"
proof -
  from assms(2) show "rg_producer s = P_Wait items" by (simp add: ring_over_def)
  from assms(3) obtain acc where c: "rg_consumer s = C_Wait items acc" by (auto simp: ring_over_def split: consumer_pc.splits)
  have "2 * gathered (rg_consumer s) = int (taken (rg_consumer s)) * (int (taken (rg_consumer s)) + 1)"
    using assms(1) unfolding ring_inv_def by blast
  with c have "2 * acc = int (items * (items + 1))" by (simp add: algebra_simps)
  then have "acc = int (items * (items + 1)) div 2" by simp
  with c show "rg_consumer s = C_Wait items (int (items * (items + 1) div 2))" by (simp add: zdiv_int)
qed

lemma ring_freed:
  assumes r: "ring_reach n capacity pool p items main arg buffer x" and n: "0 < n" "n \<le> main" and p: "pool \<noteq> NULL"
    and b: "length buffer = 5" "items < 2 ^ 31" and f: "ps_freed (bs_pool x)"
  shows "mset (map snd (ps_ran (bs_pool x))) + mset (bs_refused x) = mset (ring_calls arg)"
    and "y \<in> called (bs_pool x) \<Longrightarrow> ring_over items y (bs_data x)"
proof -
  note r' = blocking_preach [OF r]
  from blocking_freed [OF r n p _ f]
  show "mset (map snd (ps_ran (bs_pool x))) + mset (bs_refused x) = mset (ring_calls arg)" by (simp add: ring_calls_def)
  assume y: "y \<in> called (bs_pool x)"
  have "ps_pc (bs_pool x) t \<noteq> Work_Running (fst y) (snd y)" for t using freed_not_running [OF r' f] by blast
  moreover have "(fst y, snd y) \<in> called (bs_pool x)" using y by simp
  ultimately show "ring_over items y (bs_data x)"
    using ring_session_reach [OF r n(2) b] unfolding ring_session_def by (metis prod.collapse)
qed

lemma ring_one_refused:
  assumes r: "ring_reach n capacity pool p items main arg buffer x" and n: "0 < n" "n \<le> main" and p: "pool \<noteq> NULL"
    and b: "length buffer = 5" "items < 2 ^ 31" and many: "5 < items" and one: "length (bs_refused x) = 1"
  shows "\<not> ps_freed (bs_pool x)"
proof
  assume f: "ps_freed (bs_pool x)"
  note done_all = ring_freed [OF r n p b f] and inv = ring_session_reach [OF r n(2) b]
  obtain k where k: "ring_inv items k (bs_data x)" using inv unfolding ring_session_def by blast
  from one obtain y where y: "bs_refused x = [y]" by (cases "bs_refused x") auto
  have le: "reserved (rg_producer (bs_data x)) \<le> 5 + freed_slots (rg_consumer (bs_data x))"
    "claimed (rg_consumer (bs_data x)) \<le> announced (rg_producer (bs_data x))"
    using k unfolding ring_inv_def by auto
  have "y \<in> set (ring_calls arg)" using arg_cong [OF done_all(1), of set_mset] y by auto
  then consider (P) "y = (PRODUCER_TASK, arg)" | (C) "y = (CONSUMER_TASK, arg)" by (auto simp: ring_calls_def)
  then show False
  proof cases
    case P
    with done_all(1) y have m: "mset (map snd (ps_ran (bs_pool x))) = {#(CONSUMER_TASK, arg)#}"
      by (simp add: ring_calls_def)
    have c: "called (bs_pool x) = {(CONSUMER_TASK, arg)}" using arg_cong [OF m, of set_mset] by simp
    then have "ring_over items (CONSUMER_TASK, arg) (bs_data x)" "rg_producer (bs_data x) = P_Wait 0"
      using done_all(2) inv by (auto simp: ring_session_def)
    with le(2) many show False by (auto simp: ring_over_def split: consumer_pc.splits)
  next
    case C
    with done_all(1) y have m: "mset (map snd (ps_ran (bs_pool x))) = {#(PRODUCER_TASK, arg)#}"
      by (simp add: ring_calls_def)
    have c: "called (bs_pool x) = {(PRODUCER_TASK, arg)}" using arg_cong [OF m, of set_mset] by simp
    then have "ring_over items (PRODUCER_TASK, arg) (bs_data x)" "rg_consumer (bs_data x) = C_Wait 0 0"
      using done_all(2) inv by (auto simp: ring_session_def)
    with le(1) many show False by (auto simp: ring_over_def)
  qed
qed

lemma ring_inv_session:
  assumes "ring_reach n capacity pool p items main arg buffer x" and "n \<le> main" "length buffer = 5" "items < 2 ^ 31"
  obtains k where "ring_inv items k (bs_data x)"
  using ring_session_reach [OF assms] unfolding ring_session_def by blast

lemma ring_no_infinite_run:
  assumes r: "ring_reach n capacity pool p items main arg buffer x" and m: "n \<le> main" "length buffer = 5" "items < 2 ^ 31"
  shows "\<nexists>run. run 0 = x \<and> (\<forall>i. awake_blocking_step n pool (ring_tasks p items) (run i) (run (Suc i)))"
proof (intro notI, elim exE conjE)
  fix run assume run: "run 0 = x" "\<forall>i. awake_blocking_step n pool (ring_tasks p items) (run i) (run (Suc i))"
  have fin: "finite {t. batch_program main (ring_calls arg) t \<noteq> []}" by simp
  show False
  proof (rule blocking_no_infinite_run [where run = run and steps_left = "ring_left items", OF _ fin])
    fix y t f a g
    assume y: "ring_reach n capacity pool p items main arg buffer y" and "tk_step (ring_tasks p items) t (f, a) (bs_data y) = Some g"
    then have st: "ring_task p items (f, a) (bs_data y) = Some g" by simp
    from ring_inv_session [OF y m] obtain k where "ring_inv items k (bs_data y)" .
    from ring_task_decreases [OF this st m(3)] show "ring_left items g < ring_left items (bs_data y)" .
  qed (use run r in \<open>simp_all del: fun_upd_apply\<close>)
qed

lemma ring_all_done:
  assumes "ring_reach n capacity pool p items main arg buffer x" and "0 < n" "n \<le> main" "pool \<noteq> NULL"
    and "length buffer = 5" "items < 2 ^ 31" and "ps_freed (bs_pool x)" and "bs_refused x = []"
  shows "rg_producer (bs_data x) = P_Wait items"
    and "rg_consumer (bs_data x) = C_Wait items (int (items * (items + 1) div 2))"
proof -
  note fr = ring_freed [OF assms(1-7)]
  have "called (bs_pool x) = set (ring_calls arg)" using arg_cong [OF fr(1), of set_mset] assms(8) by simp
  then have over: "ring_over items (PRODUCER_TASK, arg) (bs_data x)" "ring_over items (CONSUMER_TASK, arg) (bs_data x)"
    using fr(2) by (auto simp: ring_calls_def)
  obtain k where "ring_inv items k (bs_data x)" using ring_inv_session [OF assms(1,3,5,6)] .
  from ring_inv_end [OF this over] show "rg_producer (bs_data x) = P_Wait items"
    "rg_consumer (bs_data x) = C_Wait items (int (items * (items + 1) div 2))" .
qed

text \<open>
  C19. Example 3 from the creation of the pool to its destruction, with two workers or more and under any schedule.
  Items are read in the order they were produced, none is overwritten before it is read, and at most one of the
  two is between lock and unlock. It ends. If both tasks were accepted, it ends with the pool freed, main through its
  calls, and all items produced and consumed, with their sum. But \<open>example_semaphore\<close> does not look at what
  submit answers: if one of the two was refused and there are more items than slots, main never gets
  out of the wait.
\<close>

theorem hello_semaphore_ends:
  assumes "blocking_reach n capacity pool (ring_tasks p items) (batch_program main (ring_calls arg)) (init_ring buffer) x"
    and "2 \<le> n" and "n \<le> main" and "pool \<noteq> NULL" and "length buffer = 5" and "items * (items + 1) div 2 < 2 ^ 31"
  shows "item_ok (rg_consumer (bs_data x)) \<and> stored (rg_producer (bs_data x)) \<le> taken (rg_consumer (bs_data x)) + 5 \<and>
    \<not> (p_locked (rg_producer (bs_data x)) \<and> c_locked (rg_consumer (bs_data x))) \<and>
    (\<nexists>run. run 0 = x \<and> (\<forall>i. awake_blocking_step n pool (ring_tasks p items) (run i) (run (Suc i)))) \<and>
    (at_end n pool (ring_tasks p items) x \<and> bs_refused x = [] \<longrightarrow>
       ps_freed (bs_pool x) \<and> bs_todo x main = [] \<and> rg_producer (bs_data x) = P_Wait items \<and>
       rg_consumer (bs_data x) = C_Wait items (int (items * (items + 1) div 2))) \<and>
    (5 < items \<and> length (bs_refused x) = 1 \<longrightarrow> \<not> ps_freed (bs_pool x))"
proof -
  note small = items_bound(1) [OF assms(6)]
  have n: "0 < n" using assms(2) by simp
  obtain k where "ring_inv items k (bs_data x)" using ring_inv_session [OF assms(1,3,5) small] .
  note safe = ring_inv_safe [OF this] and fin = ring_no_infinite_run [OF assms(1,3,5) small]
  have freed: "ps_freed (bs_pool x)" "bs_todo x main = []" if "at_end n pool (ring_tasks p items) x" "bs_refused x = []"
    using blocking_end [OF assms(1) n assms(3,4) _ that(1) ring_unblocked [OF assms that]] by (simp_all add: ring_calls_def)
  show ?thesis
    using safe fin freed ring_all_done [OF assms(1) n assms(3,4,5) small]
      ring_one_refused [OF assms(1) n assms(3,4,5) small] by blast
qed

text \<open>Two items: the producer stores the second while the consumer is between two calls.\<close>

definition ring_run :: "(tid \<times> pool_action) list" where
  "ring_run = [(2, Enter (Submit PRODUCER_TASK 16 TASK_PRIORITY_NORMAL)), (2, Step), (2, Malloc 64 0)] @ steps 2 10 @
     [(2, Enter (Submit CONSUMER_TASK 16 TASK_PRIORITY_NORMAL)), (2, Step), (2, Malloc 128 0)] @ steps 2 10 @
     steps 1 12 @ steps 0 12 @ steps 1 6 @ steps 0 1 @ steps 1 5 @ steps 0 5 @ steps 1 1 @ steps 0 6 @
     steps 1 6 @ steps 0 6 @ [(2, Enter Wait)] @ steps 2 5 @ [(2, Enter Destroy)] @ steps 2 10 @ steps 0 7 @ steps 1 7 @ steps 2 6"

text \<open>The malloc of the second submit fails: the consumer is never called.\<close>

definition ring_refused_run :: "(tid \<times> pool_action) list" where
  "ring_refused_run = [(2, Enter (Submit PRODUCER_TASK 16 TASK_PRIORITY_NORMAL)), (2, Step), (2, Malloc 64 0)] @ steps 2 10 @
     [(2, Enter (Submit CONSUMER_TASK 16 TASK_PRIORITY_NORMAL)), (2, Step), (2, Malloc 0 0)] @ steps 2 1"

lemmas ring_run_defs = run_defs pushed_def init_bsession_def submit_calls_def turned_away_def offered_def ring_calls_def
  may_leave_def enter_task_def ring_tasks_def ring_start_def ring_over_def ring_task_def PRODUCER_TASK_def CONSUMER_TASK_def init_ring_def
  sync_defs pthread_defs sync_sem_wait_def sync_sem_post_def sync_sem_call_def sem_enter_def run_section_def section_defs
  empty_slots_def full_slots_def buffer_lock_def fits_int_def

lemma ring_run_result: "map_option (\<lambda>x. (ps_freed (bs_pool x), bs_refused x)) (blocking_exec 2 3 (ring_tasks Linux 2)
    ring_run (init_bsession 2 4 (batch_program 2 (ring_calls 16)) (init_ring [0, 0, 0, 0, 0]))) = Some (True, [])"
  by (simp add: ring_run_def ring_run_defs)

lemma ring_refused_result: "map_option (\<lambda>x. length (bs_refused x)) (blocking_exec 2 3 (ring_tasks Linux 20)
    ring_refused_run (init_bsession 2 4 (batch_program 2 (ring_calls 16)) (init_ring [0, 0, 0, 0, 0]))) = Some 1"
  by (simp add: ring_refused_run_def ring_run_defs)

lemma hello_semaphore_ends_witness:
  "(\<exists>x. blocking_exec 2 3 (ring_tasks Linux 2) ring_run
        (init_bsession 2 4 (batch_program 2 (ring_calls 16)) (init_ring [0, 0, 0, 0, 0])) = Some x \<and>
      at_end 2 1 (ring_tasks Linux 2) x \<and> rg_consumer (bs_data x) = C_Wait 2 3) \<and>
    (\<exists>x. blocking_exec 2 3 (ring_tasks Linux 20) ring_refused_run
        (init_bsession 2 4 (batch_program 2 (ring_calls 16)) (init_ring [0, 0, 0, 0, 0])) = Some x \<and>
      \<not> ps_freed (bs_pool x) \<and>
      (\<nexists>run. run 0 = x \<and> (\<forall>i. awake_blocking_step 2 1 (ring_tasks Linux 20) (run i) (run (Suc i)))))"
proof (rule conjI)
  let ?start = "init_bsession 2 4 (batch_program 2 (ring_calls 16)) (init_ring [0, 0, 0, 0, 0])"
  from ring_run_result obtain x where x: "blocking_exec 2 3 (ring_tasks Linux 2) ring_run ?start = Some x"
    "ps_freed (bs_pool x)" "bs_refused x = []" by (auto simp del: fun_upd_apply)
  have r: "ring_reach 2 4 1 Linux 2 2 16 [0, 0, 0, 0, 0] x" by (rule blocking_exec_reach [OF x(1)]) simp
  have e: "at_end 2 1 (ring_tasks Linux 2) x" by (rule blocking_freed_at_end [OF r x(2)])
  from hello_semaphore_ends [OF r] e x(3) have "rg_consumer (bs_data x) = C_Wait 2 3" by simp
  with x(1) e show "\<exists>x. blocking_exec 2 3 (ring_tasks Linux 2) ring_run ?start = Some x \<and>
      at_end 2 1 (ring_tasks Linux 2) x \<and> rg_consumer (bs_data x) = C_Wait 2 3" by blast
next
  let ?start = "init_bsession 2 4 (batch_program 2 (ring_calls 16)) (init_ring [0, 0, 0, 0, 0])"
  from ring_refused_result obtain x where x: "blocking_exec 2 3 (ring_tasks Linux 20) ring_refused_run ?start = Some x"
    "length (bs_refused x) = 1" by (auto simp del: fun_upd_apply)
  have r: "ring_reach 2 4 1 Linux 20 2 16 [0, 0, 0, 0, 0] x" by (rule blocking_exec_reach [OF x(1)]) simp
  from hello_semaphore_ends [OF r] x show "\<exists>x. blocking_exec 2 3 (ring_tasks Linux 20) ring_refused_run ?start = Some x \<and>
      \<not> ps_freed (bs_pool x) \<and>
      (\<nexists>run. run 0 = x \<and> (\<forall>i. awake_blocking_step 2 1 (ring_tasks Linux 20) (run i) (run (Suc i))))"
    by (simp del: fun_upd_apply)
qed

end
