(* ===== verification/Parallel_Sum.thy ===== *)
theory Parallel_Sum
  imports Client_Calls "HOL-Library.Multiset"
begin

text \<open>
  The parallel sum of examples/hello_threads.c: the tasks, the loop of one task, and their sum in any order.
\<close>

section \<open>A parallel sum\<close>

text \<open>\<open>range_task_t\<close>; the result pointer of every task is that of the one atomic below.\<close>

record range_task =
  rt_start :: int
  rt_end :: int

text \<open>
  The loop of lines 186 to 188 with its locals \<open>i\<close> and \<open>sum\<close>, here \<open>acc\<close>; None when the long
  overflows. The addition of line 190 is one step on the atomic, and wraps around.
\<close>

function sum_loop :: "range_task \<Rightarrow> int \<Rightarrow> int \<Rightarrow> int option" where
  "sum_loop task i acc =
     (if i < rt_end task then if fits_long (acc + i) then sum_loop task (i + 1) (acc + i) else None
      else Some acc)"
  by pat_completeness auto
termination by (relation "measure (\<lambda>(task, i, acc). nat (rt_end task - i))") auto

declare sum_loop.simps [simp del]

definition sum_range :: "range_task \<Rightarrow> 64 word \<Rightarrow> 64 word option" where
  "sum_range task result = map_option (\<lambda>s. result + word_of_int s) (sum_loop task (rt_start task) 0)"

definition sum_tasks :: "int \<Rightarrow> int \<Rightarrow> range_task list" where
  "sum_tasks n num_chunks = (let chunk_size = n div num_chunks in
     map (\<lambda>i. \<lparr>rt_start = i * chunk_size, rt_end = (if i = num_chunks - 1 then n else (i + 1) * chunk_size)\<rparr>)
       [0..num_chunks - 1])"

text \<open>The tasks in the order of their atomic additions.\<close>

fun run_sums :: "range_task list \<Rightarrow> 64 word \<Rightarrow> 64 word option" where
  "run_sums [] result = Some result"
| "run_sums (task # ts) result = Option.bind (sum_range task result) (run_sums ts)"

definition range_sum :: "range_task \<Rightarrow> int" where
  "range_sum task = \<Sum>{rt_start task..<rt_end task}"

lemma twice_sum: "(a :: int) \<le> b \<Longrightarrow> 2 * \<Sum>{a..<b} = b * (b - 1) - a * (a - 1)"
proof (induction b rule: int_ge_induct)
  case (step b)
  then have "{a..<b + 1} = insert b {a..<b}" by auto
  with step.IH show ?case by (simp add: algebra_simps)
qed simp

lemma sum_loop_value:
  "0 \<le> i \<Longrightarrow> i \<le> rt_end task \<Longrightarrow> 0 \<le> acc \<Longrightarrow> acc + \<Sum>{i..<rt_end task} < 2 ^ 63 \<Longrightarrow>
   sum_loop task i acc = Some (acc + \<Sum>{i..<rt_end task})"
proof (induction task i acc rule: sum_loop.induct)
  case (1 task i acc)
  show ?case
  proof (cases "i < rt_end task")
    case True
    then have "{i..<rt_end task} = insert i {i + 1..<rt_end task}" by auto
    then have s: "\<Sum>{i..<rt_end task} = i + \<Sum>{i + 1..<rt_end task}" by simp
    have "0 \<le> \<Sum>{i + 1..<rt_end task}" using "1.prems"(1) by (intro sum_nonneg) simp
    with s "1.prems" have "fits_long (acc + i)" "acc + i + \<Sum>{i + 1..<rt_end task} < 2 ^ 63"
      by (simp_all add: fits_long_def)
    with 1 True s show ?thesis by (subst sum_loop.simps) simp
  next
    case False
    with 1 show ?thesis by (subst sum_loop.simps) simp
  qed
qed

definition task_ok :: "range_task \<Rightarrow> bool" where
  "task_ok task \<longleftrightarrow> 0 \<le> rt_start task \<and> rt_start task \<le> rt_end task \<and> rt_end task < 2 ^ 31"

lemma task_ok_value:
  assumes "task_ok task"
  shows "sum_range task result = Some (result + word_of_int (range_sum task))"
proof -
  have "0 \<le> rt_start task * (rt_start task - 1)"
    using assms by (cases "rt_start task = 0") (auto simp: task_ok_def)
  then have "2 * \<Sum>{rt_start task..<rt_end task} \<le> rt_end task * (rt_end task - 1)"
    using twice_sum [of "rt_start task" "rt_end task"] assms by (simp add: task_ok_def)
  also have "rt_end task * (rt_end task - 1) \<le> rt_end task * 2 ^ 31"
    using assms by (intro mult_left_mono) (auto simp: task_ok_def)
  also have "\<dots> \<le> 2 ^ 31 * 2 ^ 31"
    using assms by (intro mult_right_mono) (auto simp: task_ok_def)
  finally have "\<Sum>{rt_start task..<rt_end task} < 2 ^ 63" by simp
  with assms show ?thesis
    by (simp add: sum_range_def range_sum_def task_ok_def sum_loop_value)
qed

lemma run_sums_value:
  "\<forall>task \<in> set ts. task_ok task \<Longrightarrow>
   run_sums ts result = Some (result + word_of_int (sum_list (map range_sum ts)))"
  by (induction ts arbitrary: result) (simp_all add: task_ok_value algebra_simps)

lemma sum_tasks_ok:
  assumes "0 < num_chunks" "0 \<le> n" "n < 2 ^ 31" "task \<in> set (sum_tasks n num_chunks)"
  shows "task_ok task"
proof -
  have le: "j * (n div num_chunks) \<le> n" if "j \<le> num_chunks" for j
  proof -
    have "j * (n div num_chunks) \<le> num_chunks * (n div num_chunks)"
      using that assms by (intro mult_right_mono) (auto simp: pos_imp_zdiv_nonneg_iff)
    also have "\<dots> \<le> n" using assms by (simp add: minus_mod_eq_mult_div [symmetric])
    finally show ?thesis .
  qed
  from assms(4) obtain i where i: "0 \<le> i" "i \<le> num_chunks - 1" "task = \<lparr>rt_start = i * (n div num_chunks),
      rt_end = (if i = num_chunks - 1 then n else (i + 1) * (n div num_chunks))\<rparr>"
    by (auto simp: sum_tasks_def Let_def)
  have d: "0 \<le> n div num_chunks" using assms by (simp add: pos_imp_zdiv_nonneg_iff)
  show ?thesis using i le [of i] le [of "i + 1"] assms(3) d
    by (auto simp: task_ok_def algebra_simps)
qed

text \<open>The ranges cover 0 to n - 1 without gap or overlap.\<close>

lemma chunk_sums:
  assumes "(0 :: int) \<le> c"
  shows "2 * sum_list (map (\<lambda>i. \<Sum>{i * c..<(i + 1) * c}) [0..int m - 1]) = (int m * c) * (int m * c - 1)"
proof (induction m)
  case (Suc m)
  have "[0..int (Suc m) - 1] = [0..int m - 1] @ [int m]" using upto_rec2 [of 0 "int m"] by simp
  moreover have "2 * \<Sum>{int m * c..<(int m + 1) * c} =
      ((int m + 1) * c) * ((int m + 1) * c - 1) - (int m * c) * (int m * c - 1)"
    using assms by (intro twice_sum) (simp add: mult_right_mono)
  ultimately show ?case using Suc by (simp add: algebra_simps)
qed simp

lemma sum_tasks_total:
  assumes "0 < num_chunks" "0 \<le> n"
  shows "2 * sum_list (map range_sum (sum_tasks n num_chunks)) = n * (n - 1)"
proof -
  let ?c = "n div num_chunks"
  define m where "m = nat (num_chunks - 1)"
  with assms(1) have m: "num_chunks = int m + 1" by simp
  have c: "0 \<le> ?c" using assms by (simp add: pos_imp_zdiv_nonneg_iff)
  have split: "[0..num_chunks - 1] = [0..int m - 1] @ [int m]" using upto_rec2 [of 0 "int m"] m by simp
  have "map range_sum (sum_tasks n num_chunks) =
      map (\<lambda>i. \<Sum>{i * ?c..<(i + 1) * ?c}) [0..int m - 1] @ [\<Sum>{int m * ?c..<n}]"
    unfolding sum_tasks_def Let_def split using m by (simp add: range_sum_def)
  moreover have "int m * ?c \<le> n"
  proof -
    have "int m * ?c \<le> num_chunks * ?c" using c m by (intro mult_right_mono) auto
    also have "\<dots> \<le> n" using assms by (simp add: minus_mod_eq_mult_div [symmetric])
    finally show ?thesis .
  qed
  ultimately show ?thesis using chunk_sums [OF c, of m] twice_sum [of "int m * ?c" n] by simp
qed

text \<open>
  The parallel sum is right in whatever order the tasks add to the result: no sum overflows, and the
  chunks cover the range, also when their number does not divide n.
\<close>

lemma run_sums_result:
  assumes "0 < num_chunks" and "0 \<le> n" and "n < 2 ^ 31" and "mset ts = mset (sum_tasks n num_chunks)"
  shows "map_option sint (run_sums ts 0) = Some (n * (n - 1) div 2)"
proof -
  have "\<forall>task \<in> set ts. task_ok task"
    using sum_tasks_ok [OF assms(1-3)] mset_eq_setD [OF assms(4)] by blast
  moreover have "sum_list (map range_sum ts) = sum_list (map range_sum (sum_tasks n num_chunks))"
    using assms(4) by (metis mset_map sum_mset_sum_list)
  moreover have "sum_list (map range_sum (sum_tasks n num_chunks)) = n * (n - 1) div 2"
    using sum_tasks_total [OF assms(1,2)] by simp
  moreover have "0 \<le> n * (n - 1) div 2" "n * (n - 1) div 2 < 2 ^ 62"
  proof -
    show "0 \<le> n * (n - 1) div 2" using assms(2) by (cases "n = 0") (auto simp: pos_imp_zdiv_nonneg_iff)
    have "n * (n - 1) \<le> n * 2 ^ 31" using assms(2,3) by (intro mult_left_mono) auto
    also have "\<dots> \<le> 2 ^ 31 * 2 ^ 31" using assms(3) by (intro mult_right_mono) auto
    finally have "n * (n - 1) \<le> 2 ^ 31 * 2 ^ 31" .
    then show "n * (n - 1) div 2 < 2 ^ 62" by simp
  qed
  moreover have "sint (word_of_int v :: 64 word) = v" if "0 \<le> v" "v < 2 ^ 62" for v
    using that by (simp add: int_word_sint)
  ultimately show ?thesis by (simp add: run_sums_value)
qed

end
