(* ===== verification/Hello_Pool.thy ===== *)
theory Hello_Pool
  imports Pool_Programs Parallel_Sum
begin

text \<open>
  The clients of examples/hello_threads.c that only give tasks to a pool and wait: the greetings and the
  parallel sum. Their tasks do one atomic addition each, so the pool with data of Pool_Effects runs
  them, and what main reads after the wait follows.
\<close>

section \<open>The tasks\<close>

text \<open>Line 26; the line before prints.\<close>

definition greet_task :: "u32 \<Rightarrow> u32" where
  "greet_task greeting_count = greeting_count + 1"

record hello_data =
  hd_greeting_count :: u32
  hd_result :: "u64 option"

text \<open>
  The functions are told apart by their addresses; \<open>tasks\<close> is the memory that holds the arguments of
  \<open>sum_range\<close>, and the result is None once one of them was undefined.
\<close>

definition GREET_TASK :: ptr where "GREET_TASK = 4096"
definition SUM_RANGE :: ptr where "SUM_RANGE = 8192"

definition hello_effect :: "(ptr \<Rightarrow> range_task option) \<Rightarrow> ptr \<times> ptr \<Rightarrow> hello_data \<Rightarrow> hello_data" where
  "hello_effect tasks = (\<lambda>(func, arg) g.
     if func = GREET_TASK then g\<lparr>hd_greeting_count := greet_task (hd_greeting_count g)\<rparr>
     else if func = SUM_RANGE then g\<lparr>hd_result := Option.bind (hd_result g) (\<lambda>r. Option.bind (tasks arg) (\<lambda>task. sum_range task r))\<rparr>
     else g)"

definition hello_start :: hello_data where
  "hello_start = \<lparr>hd_greeting_count = 0, hd_result = Some 0\<rparr>"

section \<open>Their effects commute\<close>

lemma sum_range_commute:
  "Option.bind (sum_range a r) (sum_range b) = Option.bind (sum_range b r) (sum_range a)"
  by (cases "sum_loop a (rt_start a) 0"; cases "sum_loop b (rt_start b) 0")
    (simp_all add: sum_range_def ac_simps)

interpretation hello: commuting_tasks "hello_effect tasks" for tasks
proof
  fix x y :: "ptr \<times> ptr" and g
  have "Option.bind (Option.bind r (\<lambda>r. Option.bind a (\<lambda>task. sum_range task r))) (\<lambda>r. Option.bind b (\<lambda>task. sum_range task r)) =
      Option.bind (Option.bind r (\<lambda>r. Option.bind b (\<lambda>task. sum_range task r))) (\<lambda>r. Option.bind a (\<lambda>task. sum_range task r))"
    for r a b
    by (cases r; cases a; cases b) (simp_all add: sum_range_commute)
  then show "hello_effect tasks x (hello_effect tasks y g) = hello_effect tasks y (hello_effect tasks x g)"
    by (cases x; cases y) (simp add: hello_effect_def)
qed

section \<open>What a sequence of tasks makes of the data\<close>

lemma hello_greetings:
  "hd_greeting_count (fold (hello_effect tasks) xs g) =
     hd_greeting_count g + word_of_nat (length (filter (\<lambda>x. fst x = GREET_TASK) xs))"
  by (induction xs arbitrary: g) (auto simp: hello_effect_def greet_task_def split: prod.splits)

lemma hello_sums:
  assumes "map tasks (map snd (filter (\<lambda>x. fst x = SUM_RANGE) xs)) = map Some ts" and "hd_result g = Some r"
  shows "hd_result (fold (hello_effect tasks) xs g) = run_sums ts r"
  using assms
proof (induction xs arbitrary: g r ts)
  case (Cons x xs)
  obtain f a where x: "x = (f, a)" by (cases x)
  show ?case
  proof (cases "f = SUM_RANGE")
    case False
    with Cons x show ?thesis by (auto simp: hello_effect_def)
  next
    case True
    with Cons.prems x obtain task ts' where t: "tasks a = Some task" "ts = task # ts'"
      "map tasks (map snd (filter (\<lambda>x. fst x = SUM_RANGE) xs)) = map Some ts'" by (cases ts) auto
    have e: "hd_result (hello_effect tasks x g) = sum_range task r"
      using True x t(1) Cons.prems(2) by (simp add: hello_effect_def GREET_TASK_def SUM_RANGE_def)
    show ?thesis
    proof (cases "sum_range task r")
      case (Some r')
      with Cons.IH [OF t(3), of "hello_effect tasks x g" r'] e t(2) show ?thesis by simp
    next
      case None
      have "hd_result (fold (hello_effect tasks) ys h) = None" if "hd_result h = None" for ys h
        using that by (induction ys arbitrary: h) (auto simp: hello_effect_def split: prod.splits)
      with None e t(2) show ?thesis by simp
    qed
  qed
qed simp

text \<open>All together.\<close>

lemma hello_folded:
  assumes "0 < num_chunks" "0 \<le> n" "n < 2 ^ 31"
    and "image_mset (\<lambda>x. tasks (snd x)) (filter_mset (\<lambda>x. fst x = SUM_RANGE) (mset xs)) =
      image_mset Some (mset (sum_tasks n num_chunks))"
  shows "\<exists>r. hd_result (fold (hello_effect tasks) xs hello_start) = Some r \<and> sint r = n * (n - 1) div 2"
proof -
  let ?xs = "map tasks (map snd (filter (\<lambda>x. fst x = SUM_RANGE) xs))"
  have m: "mset ?xs = mset (map Some (sum_tasks n num_chunks))" using assms(4) by (simp add: comp_def)
  then have "set ?xs \<subseteq> range Some" using mset_eq_setD [OF m] by auto
  then have "\<exists>ts. ?xs = map Some ts" unfolding ex_map_conv by blast
  then obtain ts where ts: "?xs = map Some ts" ..
  have "mset ts = mset (sum_tasks n num_chunks)"
    using arg_cong [OF m, of "image_mset the"] unfolding ts by (simp add: image_mset.compositionality comp_def)
  from run_sums_result [OF assms(1-3) this] have "map_option sint (run_sums ts 0) = Some (n * (n - 1) div 2)" .
  moreover have "hd_result (fold (hello_effect tasks) xs hello_start) = run_sums ts 0"
    by (rule hello_sums [OF ts]) (simp add: hello_start_def)
  ultimately show ?thesis by auto
qed

section \<open>The two examples\<close>

text \<open>
  The calls of submit of \<open>example_basic_pool\<close> and \<open>example_parallel_sum\<close>, the latter with the array of its
  tasks; an int has 4 bytes, a \<open>range_task_t\<close> 16.
\<close>

definition greet_calls :: "ptr \<Rightarrow> (ptr \<times> ptr) list" where
  "greet_calls task_ids = map (\<lambda>i. (GREET_TASK, task_ids + word_of_nat (4 * i))) [0..<10]"

definition sum_calls :: "ptr \<Rightarrow> int \<Rightarrow> (ptr \<times> ptr) list" where
  "sum_calls tasks num_chunks = map (\<lambda>i. (SUM_RANGE, tasks + word_of_nat (16 * i))) [0..<nat num_chunks]"

text \<open>What the second prints: the expected value, the computed one, and whether they are equal.\<close>

definition sum_report :: "int \<Rightarrow> u64 \<Rightarrow> int \<times> int \<times> bool" where
  "sum_report n result = (let expected = n * (n - 1) div 2; actual = sint result in (expected, actual, actual = expected))"

lemma greet_calls_counted:
  assumes "set xs \<subseteq> set (greet_calls task_ids)"
  shows "hd_greeting_count (fold (hello_effect tasks) xs hello_start) = word_of_nat (length xs)"
proof -
  have "filter (\<lambda>x. fst x = GREET_TASK) xs = xs" using assms by (auto simp: filter_id_conv greet_calls_def)
  then show ?thesis by (simp add: hello_greetings hello_start_def)
qed

lemma sum_calls_report:
  assumes "mset xs = mset (sum_calls base num_chunks)" and "0 < num_chunks" "num_chunks < 2 ^ 31" "0 \<le> n" "n < 2 ^ 31"
  shows "\<exists>r. hd_result (fold (hello_effect (array_at 16 base (sum_tasks n num_chunks))) xs hello_start) = Some r \<and>
    sum_report n r = (n * (n - 1) div 2, n * (n - 1) div 2, True)"
proof -
  let ?at = "array_at 16 base (sum_tasks n num_chunks)"
  have len: "length (sum_tasks n num_chunks) = nat num_chunks" by (simp add: sum_tasks_def Let_def)
  have "16 * length (sum_tasks n num_chunks) < 2 ^ 64" unfolding len using assms(3) by simp
  then have at: "?at (base + word_of_nat (16 * i)) = Some (sum_tasks n num_chunks ! i)" if "i < nat num_chunks" for i
    using array_at_nth that len by (metis zero_less_numeral)
  have "map (\<lambda>x. ?at (snd x)) (sum_calls base num_chunks) = map Some (sum_tasks n num_chunks)"
    by (rule nth_equalityI) (simp_all add: sum_calls_def len at del: of_nat_mult)
  then have "image_mset (\<lambda>x. ?at (snd x)) (mset xs) = image_mset Some (mset (sum_tasks n num_chunks))"
    using assms(1) by (metis mset_map)
  moreover have "filter_mset (\<lambda>x. fst x = SUM_RANGE) (mset xs) = mset xs"
    using assms(1) unfolding filter_mset_eq_conv by (auto simp: sum_calls_def)
  ultimately obtain r where "hd_result (fold (hello_effect ?at) xs hello_start) = Some r" "sint r = n * (n - 1) div 2"
    using hello_folded [OF assms(2,4,5), of ?at xs] by auto
  then show ?thesis by (simp add: sum_report_def Let_def)
qed

text \<open>When main returns from the wait after its calls, all of which were accepted, in whatever order.\<close>

lemma hello_pool_results:
  assumes "client_reach workers capacity {main} (\<lambda>x. [hello_effect (array_at 16 base (sum_tasks n num_chunks)) x]) hello_start s rest g"
    and "workers \<le> main" and "no_overflow s" and "ps_pc s main = Wait_Return k"
  shows "(mset (pushed (plog s)) = mset (greet_calls task_ids) \<longrightarrow> hd_greeting_count g = 10) \<and>
    (0 < num_chunks \<and> num_chunks < 2 ^ 31 \<and> 0 \<le> n \<and> n < 2 ^ 31 \<and> mset (pushed (plog s)) = mset (sum_calls base num_chunks) \<longrightarrow>
      (\<exists>r. hd_result g = Some r \<and> sum_report n r = (n * (n - 1) div 2, n * (n - 1) div 2, True)))"
proof -
  have g: "g = fold (hello_effect (array_at 16 base (sum_tasks n num_chunks))) (pushed (plog s)) hello_start"
    by (rule hello.wait_then_done [OF assms])
  have "hd_greeting_count g = 10" if m: "mset (pushed (plog s)) = mset (greet_calls task_ids)"
  proof -
    have "set (pushed (plog s)) \<subseteq> set (greet_calls task_ids)" using mset_eq_setD [OF m] by simp
    from greet_calls_counted [OF this] have "hd_greeting_count g = word_of_nat (length (pushed (plog s)))" by (simp add: g)
    also have "length (pushed (plog s)) = 10" using mset_eq_length [OF m] by (simp add: greet_calls_def)
    finally show ?thesis by simp
  qed
  with sum_calls_report [of "pushed (plog s)" base num_chunks n] g show ?thesis by blast
qed

text \<open>
  C17. Examples 1 and 4 as a whole, with any number of workers and under any schedule: the threads cannot go on
  for ever; when main returns from the wait, the greetings counted are the tasks accepted; when
  nothing is left to do, the pool is freed, each task was accepted or refused, and the sum by chunks is
  reported as correct if none was refused, for every n and number of chunks.
\<close>

theorem hello_programs_end:
  assumes "program_reach workers capacity pool (\<lambda>x. [hello_effect (array_at 16 base (sum_tasks n num_chunks)) x])
      (batch_program main calls) hello_start x"
    and "pool \<noteq> NULL" and "0 < workers" and "workers \<le> main" and "Suc (length calls) < 2 ^ 64"
  shows "(\<nexists>run. run 0 = x \<and> (\<forall>i. awake_program_step workers pool
        (\<lambda>x. [hello_effect (array_at 16 base (sum_tasks n num_chunks)) x]) (run i) (run (Suc i)))) \<and>
    (calls = greet_calls task_ids \<and> ps_pc (se_pool x) main = Wait_Return k \<longrightarrow>
      hd_greeting_count (se_data x) = word_of_nat (length (pushed (plog (se_pool x))))) \<and>
    (ended workers pool (\<lambda>x. [hello_effect (array_at 16 base (sum_tasks n num_chunks)) x]) x \<longrightarrow>
      ps_freed (se_pool x) \<and> mset (pushed (plog (se_pool x))) + mset (se_refused x) = mset calls \<and>
      (calls = sum_calls base num_chunks \<and> se_refused x = [] \<and> 0 < num_chunks \<and> num_chunks < 2 ^ 31 \<and> 0 \<le> n \<and> n < 2 ^ 31 \<longrightarrow>
        (\<exists>r. hd_result (se_data x) = Some r \<and> sum_report n r = (n * (n - 1) div 2, n * (n - 1) div 2, True))))"
proof (intro conjI impI; (elim conjE)?)
  let ?prog = "\<lambda>x. [hello_effect (array_at 16 base (sum_tasks n num_chunks)) x]" and ?xs = "pushed (plog (se_pool x))"
  note o = batch_no_overflow [OF assms(1,4,5)]
  show "\<nexists>run. run 0 = x \<and> (\<forall>i. awake_program_step workers pool ?prog (run i) (run (Suc i)))"
    by (rule batch_no_infinite_run [OF assms(1,4,5)])
  show "hd_greeting_count (se_data x) = word_of_nat (length ?xs)"
    if "calls = greet_calls task_ids" "ps_pc (se_pool x) main = Wait_Return k"
    using hello.wait_then_done [OF batch_client [OF assms(1)] assms(4) o(1) that(2)]
      greet_calls_counted [of ?xs task_ids] set_mset_mono [OF o(2)] that(1) by simp
  assume e: "ended workers pool ?prog x"
  note finish = batch_end [OF assms(1,3,4,2,5) e]
  show "ps_freed (se_pool x)" "mset ?xs + mset (se_refused x) = mset calls" by (rule finish)+
  show "\<exists>r. hd_result (se_data x) = Some r \<and> sum_report n r = (n * (n - 1) div 2, n * (n - 1) div 2, True)"
    if "calls = sum_calls base num_chunks" "se_refused x = []" "0 < num_chunks" "num_chunks < 2 ^ 31" "0 \<le> n" "n < 2 ^ 31"
    using sum_calls_report [of ?xs base num_chunks n] hello.program_done [OF assms(1) e assms(3) o(1)] finish(3) that by simp
qed

text \<open>Two workers, and a sum of the numbers below 3 in two chunks.\<close>

definition hello_run :: "(tid \<times> pool_action) list" where
  "hello_run = [(2, Enter (Submit 8192 16 TASK_PRIORITY_NORMAL)), (2, Step), (2, Malloc 64 0)] @ steps 2 10 @
     [(2, Enter (Submit 8192 32 TASK_PRIORITY_NORMAL)), (2, Step), (2, Malloc 128 0)] @ steps 2 10 @
     steps 0 19 @ steps 1 19 @ [(2, Enter Wait)] @ steps 2 4"

lemma hello_run_result:
  "\<exists>s rest g r. gexec 2 3 (\<lambda>x. [hello_effect (array_at 16 16 (sum_tasks 3 2)) x]) hello_run (init_psys 2 4, \<lambda>_. [], hello_start) = Some (s, rest, g) \<and>
     hd_result g = Some r \<and> sum_report 3 r = (3, 3, True)"
proof -
  let ?prog = "\<lambda>x. [hello_effect (array_at 16 16 (sum_tasks 3 2)) x]"
  have "\<exists>s rest g. gexec 2 3 ?prog hello_run (init_psys 2 4, \<lambda>_. [], hello_start) = Some (s, rest, g) \<and>
      ps_pc s 2 = Wait_Return 2 \<and> pushed (plog s) = [(8192, 16), (8192, 32)]"
    by (simp add: hello_run_def run_defs pushed_def)
  then obtain s rest g where s: "gexec 2 3 ?prog hello_run (init_psys 2 4, \<lambda>_. [], hello_start) = Some (s, rest, g)"
    "ps_pc s 2 = Wait_Return 2" "pushed (plog s) = [(8192, 16), (8192, 32)]" by blast
  have r: "client_reach 2 4 {2} ?prog hello_start s rest g"
    by (rule gexec_reach [OF s(1)]) (auto simp: hello_run_def list_all_iff)
  have "no_overflow s" using s(3) by (simp add: no_overflow_def)
  from hello_pool_results [OF r _ this s(2)] s(3) have "\<exists>r. hd_result g = Some r \<and> sum_report 3 r = (3, 3, True)"
    by (simp add: sum_calls_def SUM_RANGE_def upt_rec)
  with s(1) show ?thesis by blast
qed

text \<open>The run continued: main destroys the pool.\<close>

definition hello_program_run :: "(tid \<times> pool_action) list" where
  "hello_program_run = hello_run @ steps 2 1 @ [(2, Enter Destroy)] @ steps 2 10 @ steps 0 7 @ steps 1 7 @ steps 2 6"

lemma hello_programs_end_witness:
  "\<exists>x r. program_exec 2 3 (\<lambda>x. [hello_effect (array_at 16 16 (sum_tasks 3 2)) x]) hello_program_run
       (init_session 2 4 (batch_program 2 (sum_calls 16 2)) hello_start) = Some x \<and>
     ended 2 1 (\<lambda>x. [hello_effect (array_at 16 16 (sum_tasks 3 2)) x]) x \<and>
     hd_result (se_data x) = Some r \<and> sum_report 3 r = (3, 3, True)"
proof -
  let ?prog = "\<lambda>x. [hello_effect (array_at 16 16 (sum_tasks 3 2)) x]"
  let ?x = "program_exec 2 3 ?prog hello_program_run (init_session 2 4 (batch_program 2 (sum_calls 16 2)) hello_start)"
  have calls: "sum_calls 16 2 = [(8192, 16), (8192, 32)]" by (simp add: sum_calls_def SUM_RANGE_def upt_rec)
  have "map_option (\<lambda>x. (ps_freed (se_pool x), se_refused x)) ?x = Some (True, [])"
    unfolding calls
    by (simp add: hello_program_run_def hello_run_def run_defs pushed_def init_session_def submit_calls_def
        turned_away_def offered_def)
  then obtain x where x: "?x = Some x" "ps_freed (se_pool x)" "se_refused x = []" by auto
  have r: "program_reach 2 4 1 ?prog (batch_program 2 (sum_calls 16 2)) hello_start x"
    by (rule program_exec_reach [OF x(1)]) simp
  have e: "ended 2 1 ?prog x" by (rule freed_ended [OF r x(2)])
  from hello_programs_end [OF r] e x(3)
  have "\<exists>r. hd_result (se_data x) = Some r \<and> sum_report 3 r = (3, 3, True)" by (simp add: calls)
  with x(1) e show ?thesis by blast
qed

end
