(* ===== verification/Visual_Buffer.thy ===== *)
theory Visual_Buffer
  imports Client_Calls "HOL-Library.Multiset"
begin

text \<open>
  Demo 3 of examples/visual_demo.c: a producer and a consumer over a bounded buffer that is used as a
  stack, with what they print as the observable behaviour. The steps between the calls of the library
  are those of the C functions; the sleeps are left out.
\<close>

section \<open>The program\<close>

definition viz_empty_slots :: ptr where "viz_empty_slots = 16"
definition viz_full_slots :: ptr where "viz_full_slots = 24"
definition pc_mutex :: ptr where "pc_mutex = 32"

text \<open>
  The producer's argument is its loop variable less one, the number of items it has done. The consumer
  has its loop variable, \<open>sum\<close>, and \<open>item\<close> once it is read.
\<close>

datatype visual_producer =
    VP_Wait nat
  | VP_Lock nat
  | VP_Store nat
  | VP_Count nat
  | VP_Print nat
  | VP_Unlock nat
  | VP_Post nat

datatype visual_consumer =
    VC_Wait nat int
  | VC_Lock nat int
  | VC_Count nat int
  | VC_Read nat int
  | VC_Print nat int int
  | VC_Unlock nat int
  | VC_Post nat int

text \<open>The two lines printed inside the lock, each with the buffer as \<open>print_buffer\<close> shows it.\<close>

datatype printed = Added int "int option list" | Took int "int option list"

record stack_demo =
  sd_sems :: "sync_sem heap"
  sd_mutexes :: "sync_mutex heap"
  sd_buffer :: "int list"
  sd_count :: int
  sd_output :: "printed list"
  sd_producer :: visual_producer
  sd_consumer :: visual_consumer

text \<open>None in the list is a cell printed as \<open>__\<close>.\<close>

definition print_buffer :: "int list \<Rightarrow> int \<Rightarrow> int option list" where
  "print_buffer b buffer_count = map (\<lambda>i. if int i < buffer_count then Some (b ! i) else None) [0..<5]"

text \<open>An access outside of the array and an overflow are not possible steps.\<close>

fun producer_visual :: "platform \<Rightarrow> visual_producer \<Rightarrow> stack_demo \<Rightarrow> stack_demo option" where
  "producer_visual p (VP_Wait i) s =
     (if i < 10 then after_call (sync_sem_wait viz_empty_slots (sd_sems s)) (\<lambda>h. s\<lparr>sd_sems := h, sd_producer := VP_Lock i\<rparr>)
      else None)"
| "producer_visual p (VP_Lock i) s =
     after_call (sync_mutex_lock p 0 pc_mutex (sd_mutexes s)) (\<lambda>h. s\<lparr>sd_mutexes := h, sd_producer := VP_Store i\<rparr>)"
| "producer_visual p (VP_Store i) s =
     (if 0 \<le> sd_count s \<and> sd_count s < 5
      then Some (s\<lparr>sd_buffer := (sd_buffer s)[nat (sd_count s) := int i + 1], sd_producer := VP_Count i\<rparr>) else None)"
| "producer_visual p (VP_Count i) s = Some (s\<lparr>sd_count := sd_count s + 1, sd_producer := VP_Print i\<rparr>)"
| "producer_visual p (VP_Print i) s =
     Some (s\<lparr>sd_output := sd_output s @ [Added (int i + 1) (print_buffer (sd_buffer s) (sd_count s))],
       sd_producer := VP_Unlock i\<rparr>)"
| "producer_visual p (VP_Unlock i) s =
     after_call (sync_mutex_unlock p 0 pc_mutex (sd_mutexes s)) (\<lambda>h. s\<lparr>sd_mutexes := h, sd_producer := VP_Post i\<rparr>)"
| "producer_visual p (VP_Post i) s =
     after_call (sync_sem_post viz_full_slots (sd_sems s)) (\<lambda>h. s\<lparr>sd_sems := h, sd_producer := VP_Wait (i + 1)\<rparr>)"

fun consumer_visual :: "platform \<Rightarrow> visual_consumer \<Rightarrow> stack_demo \<Rightarrow> stack_demo option" where
  "consumer_visual p (VC_Wait i acc) s =
     (if i < 10 then after_call (sync_sem_wait viz_full_slots (sd_sems s)) (\<lambda>h. s\<lparr>sd_sems := h, sd_consumer := VC_Lock i acc\<rparr>)
      else None)"
| "consumer_visual p (VC_Lock i acc) s =
     after_call (sync_mutex_lock p 1 pc_mutex (sd_mutexes s)) (\<lambda>h. s\<lparr>sd_mutexes := h, sd_consumer := VC_Count i acc\<rparr>)"
| "consumer_visual p (VC_Count i acc) s = Some (s\<lparr>sd_count := sd_count s - 1, sd_consumer := VC_Read i acc\<rparr>)"
| "consumer_visual p (VC_Read i acc) s =
     (if 0 \<le> sd_count s \<and> sd_count s < 5 \<and> fits_int (acc + sd_buffer s ! nat (sd_count s))
      then Some (s\<lparr>sd_consumer := VC_Print i (acc + sd_buffer s ! nat (sd_count s)) (sd_buffer s ! nat (sd_count s))\<rparr>)
      else None)"
| "consumer_visual p (VC_Print i acc item) s =
     Some (s\<lparr>sd_output := sd_output s @ [Took item (print_buffer (sd_buffer s) (sd_count s))],
       sd_consumer := VC_Unlock i acc\<rparr>)"
| "consumer_visual p (VC_Unlock i acc) s =
     after_call (sync_mutex_unlock p 1 pc_mutex (sd_mutexes s)) (\<lambda>h. s\<lparr>sd_mutexes := h, sd_consumer := VC_Post i acc\<rparr>)"
| "consumer_visual p (VC_Post i acc) s =
     after_call (sync_sem_post viz_empty_slots (sd_sems s)) (\<lambda>h. s\<lparr>sd_sems := h, sd_consumer := VC_Wait (i + 1) acc\<rparr>)"

definition stack_step :: "platform \<Rightarrow> stack_demo \<Rightarrow> stack_demo \<Rightarrow> bool" where
  "stack_step p s s' \<longleftrightarrow>
     producer_visual p (sd_producer s) s = Some s' \<or> consumer_visual p (sd_consumer s) s = Some s'"

text \<open>
  As \<open>demo_producer_consumer\<close> leaves it when it creates the two threads; the objects are those that
  its calls of an init function write (\<open>sem_init_object\<close>, \<open>mutex_init_object\<close>).
\<close>

definition init_stack_demo :: "int list \<Rightarrow> stack_demo" where
  "init_stack_demo buffer =
     \<lparr>sd_sems = [viz_empty_slots \<mapsto> \<lparr>ss_count = 5, ss_max_count = 5, ss_initialized = True\<rparr>,
         viz_full_slots \<mapsto> \<lparr>ss_count = 0, ss_max_count = 0, ss_initialized = True\<rparr>],
       sd_mutexes = [pc_mutex \<mapsto> \<lparr>sm_lock = \<lparr>pm_type = PTHREAD_MUTEX_ERRORCHECK, pm_owner = None\<rparr>, sm_initialized = True\<rparr>],
       sd_buffer = buffer, sd_count = 0, sd_output = [], sd_producer = VP_Wait 0, sd_consumer = VC_Wait 0 0\<rparr>"

section \<open>The specification: a stack of at most five items\<close>

definition shown :: "int list \<Rightarrow> int option list" where
  "shown st = map Some (rev st) @ replicate (5 - length st) None"

fun follow :: "printed \<Rightarrow> int list \<Rightarrow> int list option" where
  "follow (Added x view) st = (if length st < 5 \<and> view = shown (x # st) then Some (x # st) else None)"
| "follow (Took x view) (y # st) = (if x = y \<and> view = shown st then Some st else None)"
| "follow (Took x view) [] = None"

fun history_stack :: "printed list \<Rightarrow> int list \<Rightarrow> int list option" where
  "history_stack [] st = Some st"
| "history_stack (e # es) st = Option.bind (follow e st) (history_stack es)"

lemma history_append: "history_stack (es @ es') st = Option.bind (history_stack es st) (history_stack es')"
proof (induction es arbitrary: st)
  case (Cons e es)
  then show ?case by (cases "follow e st") simp_all
qed simp

fun added :: "printed list \<Rightarrow> int list" where
  "added [] = []" | "added (Added x v # es) = x # added es" | "added (Took x v # es) = added es"

fun took :: "printed list \<Rightarrow> int list" where
  "took [] = []" | "took (Added x v # es) = took es" | "took (Took x v # es) = x # took es"

lemma added_append [simp]: "added (es @ es') = added es @ added es'"
  and took_append [simp]: "took (es @ es') = took es @ took es'"
  by (induction es rule: added.induct; simp)+

lemma history_account: "history_stack es st = Some st' \<Longrightarrow> mset st + mset (added es) = mset st' + mset (took es)"
proof (induction es arbitrary: st)
  case (Cons e es)
  then obtain st1 where st1: "follow e st = Some st1" "history_stack es st1 = Some st'" by (auto simp: bind_eq_Some_conv)
  from Cons.IH [OF st1(2)] st1(1) show ?case
    by (cases "(e, st)" rule: follow.cases) (auto split: if_splits)
qed simp

lemma print_buffer_shown:
  assumes "length b = 5" "n \<le> 5"
  shows "print_buffer b (int n) = shown (rev (take n b))"
proof (rule nth_equalityI)
  show "length (print_buffer b (int n)) = length (shown (rev (take n b)))"
    using assms by (simp add: print_buffer_def shown_def)
  fix i assume "i < length (print_buffer b (int n))"
  then have "i < 5" by (simp add: print_buffer_def)
  with assms show "print_buffer b (int n) ! i = shown (rev (take n b)) ! i"
    by (simp add: print_buffer_def shown_def nth_append)
qed

section \<open>The invariant\<close>

text \<open>Items reserved, stored, printed and announced by the producer, and the consumer's side.\<close>

fun vp_reserved :: "visual_producer \<Rightarrow> nat" where
  "vp_reserved (VP_Wait i) = i" | "vp_reserved (VP_Lock i) = i + 1" | "vp_reserved (VP_Store i) = i + 1"
| "vp_reserved (VP_Count i) = i + 1" | "vp_reserved (VP_Print i) = i + 1" | "vp_reserved (VP_Unlock i) = i + 1"
| "vp_reserved (VP_Post i) = i + 1"

fun vp_counted :: "visual_producer \<Rightarrow> nat" where
  "vp_counted (VP_Wait i) = i" | "vp_counted (VP_Lock i) = i" | "vp_counted (VP_Store i) = i"
| "vp_counted (VP_Count i) = i" | "vp_counted (VP_Print i) = i + 1" | "vp_counted (VP_Unlock i) = i + 1"
| "vp_counted (VP_Post i) = i + 1"

fun vp_printed :: "visual_producer \<Rightarrow> nat" where
  "vp_printed (VP_Wait i) = i" | "vp_printed (VP_Lock i) = i" | "vp_printed (VP_Store i) = i"
| "vp_printed (VP_Count i) = i" | "vp_printed (VP_Print i) = i" | "vp_printed (VP_Unlock i) = i + 1"
| "vp_printed (VP_Post i) = i + 1"

fun vp_announced :: "visual_producer \<Rightarrow> nat" where
  "vp_announced (VP_Wait i) = i" | "vp_announced (VP_Lock i) = i" | "vp_announced (VP_Store i) = i"
| "vp_announced (VP_Count i) = i" | "vp_announced (VP_Print i) = i" | "vp_announced (VP_Unlock i) = i"
| "vp_announced (VP_Post i) = i"

fun vp_locked :: "visual_producer \<Rightarrow> bool" where
  "vp_locked (VP_Store i) = True" | "vp_locked (VP_Count i) = True" | "vp_locked (VP_Print i) = True"
| "vp_locked (VP_Unlock i) = True" | "vp_locked p = False"

fun vp_steps :: "visual_producer \<Rightarrow> nat" where
  "vp_steps (VP_Wait i) = 7 * i" | "vp_steps (VP_Lock i) = 7 * i + 1" | "vp_steps (VP_Store i) = 7 * i + 2"
| "vp_steps (VP_Count i) = 7 * i + 3" | "vp_steps (VP_Print i) = 7 * i + 4" | "vp_steps (VP_Unlock i) = 7 * i + 5"
| "vp_steps (VP_Post i) = 7 * i + 6"

fun vc_claimed :: "visual_consumer \<Rightarrow> nat" where
  "vc_claimed (VC_Wait i a) = i" | "vc_claimed (VC_Lock i a) = i + 1" | "vc_claimed (VC_Count i a) = i + 1"
| "vc_claimed (VC_Read i a) = i + 1" | "vc_claimed (VC_Print i a x) = i + 1" | "vc_claimed (VC_Unlock i a) = i + 1"
| "vc_claimed (VC_Post i a) = i + 1"

fun vc_counted :: "visual_consumer \<Rightarrow> nat" where
  "vc_counted (VC_Wait i a) = i" | "vc_counted (VC_Lock i a) = i" | "vc_counted (VC_Count i a) = i"
| "vc_counted (VC_Read i a) = i + 1" | "vc_counted (VC_Print i a x) = i + 1" | "vc_counted (VC_Unlock i a) = i + 1"
| "vc_counted (VC_Post i a) = i + 1"

fun vc_printed :: "visual_consumer \<Rightarrow> nat" where
  "vc_printed (VC_Wait i a) = i" | "vc_printed (VC_Lock i a) = i" | "vc_printed (VC_Count i a) = i"
| "vc_printed (VC_Read i a) = i" | "vc_printed (VC_Print i a x) = i" | "vc_printed (VC_Unlock i a) = i + 1"
| "vc_printed (VC_Post i a) = i + 1"

fun vc_freed :: "visual_consumer \<Rightarrow> nat" where
  "vc_freed (VC_Wait i a) = i" | "vc_freed (VC_Lock i a) = i" | "vc_freed (VC_Count i a) = i"
| "vc_freed (VC_Read i a) = i" | "vc_freed (VC_Print i a x) = i" | "vc_freed (VC_Unlock i a) = i"
| "vc_freed (VC_Post i a) = i"

fun vc_locked :: "visual_consumer \<Rightarrow> bool" where
  "vc_locked (VC_Count i a) = True" | "vc_locked (VC_Read i a) = True" | "vc_locked (VC_Print i a x) = True"
| "vc_locked (VC_Unlock i a) = True" | "vc_locked c = False"

fun vc_steps :: "visual_consumer \<Rightarrow> nat" where
  "vc_steps (VC_Wait i a) = 7 * i" | "vc_steps (VC_Lock i a) = 7 * i + 1" | "vc_steps (VC_Count i a) = 7 * i + 2"
| "vc_steps (VC_Read i a) = 7 * i + 3" | "vc_steps (VC_Print i a x) = 7 * i + 4" | "vc_steps (VC_Unlock i a) = 7 * i + 5"
| "vc_steps (VC_Post i a) = 7 * i + 6"

text \<open>The sum of what has been printed as taken.\<close>

fun vc_sum :: "visual_consumer \<Rightarrow> int" where
  "vc_sum (VC_Wait i a) = a" | "vc_sum (VC_Lock i a) = a" | "vc_sum (VC_Count i a) = a"
| "vc_sum (VC_Read i a) = a" | "vc_sum (VC_Print i a x) = a - x" | "vc_sum (VC_Unlock i a) = a"
| "vc_sum (VC_Post i a) = a"

text \<open>What a thread in the middle of its section has done to the buffer.\<close>

fun vp_item :: "visual_producer \<Rightarrow> int list \<Rightarrow> int \<Rightarrow> bool" where
  "vp_item (VP_Count i) b c = (b ! nat c = int i + 1)"
| "vp_item (VP_Print i) b c = (b ! nat (c - 1) = int i + 1)"
| "vp_item p b c = True"

fun vc_item :: "visual_consumer \<Rightarrow> int list \<Rightarrow> int \<Rightarrow> bool" where
  "vc_item (VC_Print i a x) b c = (b ! nat c = x)"
| "vc_item p b c = True"

definition stack_inv :: "nat \<Rightarrow> stack_demo \<Rightarrow> bool" where
  "stack_inv n s \<longleftrightarrow>
     (\<exists>e. sem_holds viz_empty_slots (sd_sems s) e \<and> e + vp_reserved (sd_producer s) = 5 + vc_freed (sd_consumer s)) \<and>
     (\<exists>f. sem_holds viz_full_slots (sd_sems s) f \<and> f + vc_claimed (sd_consumer s) = vp_announced (sd_producer s)) \<and>
     mutex_held pc_mutex (sd_mutexes s)
       (if vp_locked (sd_producer s) then Some 0 else if vc_locked (sd_consumer s) then Some 1 else None) \<and>
     \<not> (vp_locked (sd_producer s) \<and> vc_locked (sd_consumer s)) \<and>
     length (sd_buffer s) = 5 \<and>
     sd_count s = int (vp_counted (sd_producer s)) - int (vc_counted (sd_consumer s)) \<and>
     vc_printed (sd_consumer s) \<le> vp_printed (sd_producer s) \<and>
     history_stack (sd_output s) [] = Some (rev (take (vp_printed (sd_producer s) - vc_printed (sd_consumer s)) (sd_buffer s))) \<and>
     added (sd_output s) = map (\<lambda>i. int i + 1) [0..<vp_printed (sd_producer s)] \<and>
     sum_list (took (sd_output s)) = vc_sum (sd_consumer s) \<and>
     vp_item (sd_producer s) (sd_buffer s) (sd_count s) \<and> vc_item (sd_consumer s) (sd_buffer s) (sd_count s) \<and>
     vp_reserved (sd_producer s) \<le> 10 \<and> vc_claimed (sd_consumer s) \<le> 10 \<and>
     n = vp_steps (sd_producer s) + vc_steps (sd_consumer s)"

lemma viz_ptrs [simp]:
  "viz_empty_slots \<noteq> NULL" "viz_full_slots \<noteq> NULL" "pc_mutex \<noteq> NULL"
  "viz_empty_slots \<noteq> viz_full_slots" "viz_full_slots \<noteq> viz_empty_slots"
  by (simp_all add: viz_empty_slots_def viz_full_slots_def pc_mutex_def)

text \<open>The order of the counts, and the bounds of the buffer.\<close>

lemma vp_order: "vp_announced p \<le> vp_printed p" "vp_printed p \<le> vp_counted p" "vp_counted p \<le> vp_reserved p"
  by (cases p; simp)+

lemma vc_order: "vc_freed c \<le> vc_printed c" "vc_printed c \<le> vc_counted c" "vc_counted c \<le> vc_claimed c"
  by (cases c; simp)+

lemma stack_start: "length buffer = 5 \<Longrightarrow> stack_inv 0 (init_stack_demo buffer)"
  unfolding stack_inv_def
  by (simp add: init_stack_demo_def sem_holds_def mutex_held_def checked_mutex_def)

lemma visual_producer_step:
  assumes inv: "stack_inv n s" and st: "producer_visual p (sd_producer s) s = Some s'"
  shows "stack_inv (Suc n) s'"
proof -
  from inv obtain e f where e: "sem_holds viz_empty_slots (sd_sems s) e" "e + vp_reserved (sd_producer s) = 5 + vc_freed (sd_consumer s)"
    and f: "sem_holds viz_full_slots (sd_sems s) f" "f + vc_claimed (sd_consumer s) = vp_announced (sd_producer s)"
    and lk: "mutex_held pc_mutex (sd_mutexes s)
       (if vp_locked (sd_producer s) then Some 0 else if vc_locked (sd_consumer s) then Some 1 else None)"
    unfolding stack_inv_def by blast
  note rest = inv [unfolded stack_inv_def]
  note order = vc_order [of "sd_consumer s"]
  show ?thesis
  proof (cases "sd_producer s")
    case (VP_Wait i)
    with st have "i < 10" "e \<noteq> 0" using sem_wait_call [OF viz_ptrs(1) e(1)] by (auto split: if_splits)
    with st VP_Wait sem_wait_call [OF viz_ptrs(1) e(1)] obtain x where
      s': "s' = s\<lparr>sd_sems := (sd_sems s)(viz_empty_slots \<mapsto> x), sd_producer := VP_Lock i\<rparr>"
      "sem_holds viz_empty_slots ((sd_sems s)(viz_empty_slots \<mapsto> x)) (e - 1)" by auto
    show ?thesis unfolding stack_inv_def s'(1) using rest s'(2) e f VP_Wait \<open>e \<noteq> 0\<close> \<open>i < 10\<close>
      by (auto simp del: fun_upd_apply)
  next
    case (VP_Lock i)
    have nc: "\<not> vc_locked (sd_consumer s)"
    proof
      assume "vc_locked (sd_consumer s)"
      with lk VP_Lock have "mutex_held pc_mutex (sd_mutexes s) (Some 1)" by simp
      from held_lock_blocks [OF viz_ptrs(3) this, of 0 p] st VP_Lock show False by simp
    qed
    with lk VP_Lock have "mutex_held pc_mutex (sd_mutexes s) None" by simp
    from held_lock_call [OF viz_ptrs(3) this, of p 0] st VP_Lock obtain m where
      s': "s' = s\<lparr>sd_mutexes := (sd_mutexes s)(pc_mutex \<mapsto> m), sd_producer := VP_Store i\<rparr>"
      "mutex_held pc_mutex ((sd_mutexes s)(pc_mutex \<mapsto> m)) (Some 0)" by auto
    show ?thesis unfolding stack_inv_def s'(1) using rest s'(2) VP_Lock nc
      by (auto simp del: fun_upd_apply)
  next
    case (VP_Store i)
    let ?k = "nat (sd_count s)"
    have nc: "\<not> vc_locked (sd_consumer s)" using rest VP_Store by simp
    then have c: "vc_printed (sd_consumer s) = vc_counted (sd_consumer s)" by (cases "sd_consumer s") auto
    with rest VP_Store have k: "?k = i - vc_printed (sd_consumer s)" "sd_count s = int ?k" by auto
    from VP_Store st have s': "s' = s\<lparr>sd_buffer := (sd_buffer s)[?k := int i + 1], sd_producer := VP_Count i\<rparr>"
      and b: "?k < 5" by (auto split: if_splits)
    have "vc_item (sd_consumer s) b' c'" for b' c' using nc by (cases "sd_consumer s") auto
    then show ?thesis unfolding stack_inv_def s' using rest VP_Store k b by simp
  next
    case (VP_Count i)
    with st have s': "s' = s\<lparr>sd_count := sd_count s + 1, sd_producer := VP_Print i\<rparr>" by simp
    have "vc_item (sd_consumer s) b' c'" for b' c' using rest VP_Count by (cases "sd_consumer s") auto
    moreover have v: "sd_buffer s ! nat (sd_count s) = int i + 1"
      and c: "sd_count s = int i - int (vc_counted (sd_consumer s))" using rest VP_Count by auto
    moreover note v [unfolded c]
    ultimately show ?thesis unfolding stack_inv_def s' using rest VP_Count by simp
  next
    case (VP_Print i)
    let ?k = "i - vc_printed (sd_consumer s)"
    have nc: "\<not> vc_locked (sd_consumer s)" using rest VP_Print by simp
    then have "vc_printed (sd_consumer s) = vc_counted (sd_consumer s)" by (cases "sd_consumer s") auto
    with rest VP_Print have c: "sd_count s = int (Suc ?k)"
      and le: "vc_printed (sd_consumer s) \<le> i" and len: "length (sd_buffer s) = 5" by auto
    have "vp_item (sd_producer s) (sd_buffer s) (sd_count s)" using inv unfolding stack_inv_def by blast
    then have "sd_buffer s ! nat (sd_count s - 1) = int i + 1" using VP_Print by simp
    then have vk: "sd_buffer s ! ?k = int i + 1" unfolding c by simp
    have k: "?k < 5" using e(2) order VP_Print le by simp
    from VP_Print st have s': "s' = s\<lparr>sd_output := sd_output s @ [Added (int i + 1) (print_buffer (sd_buffer s) (sd_count s))],
        sd_producer := VP_Unlock i\<rparr>" by simp
    have "take (Suc ?k) (sd_buffer s) = take ?k (sd_buffer s) @ [int i + 1]"
      using k len vk by (simp add: take_Suc_conv_app_nth)
    moreover have "history_stack (sd_output s) [] = Some (rev (take ?k (sd_buffer s)))" using rest VP_Print by simp
    moreover have "print_buffer (sd_buffer s) (sd_count s) = shown (rev (take (Suc ?k) (sd_buffer s)))"
      unfolding c using len k by (intro print_buffer_shown) auto
    ultimately have "history_stack (sd_output s') [] = Some (rev (take (Suc ?k) (sd_buffer s)))"
      unfolding s' using k len by (simp add: history_append)
    moreover have "Suc i - vc_printed (sd_consumer s) = Suc ?k" using le by simp
    moreover have "vc_item (sd_consumer s) b c" for b c using nc by (cases "sd_consumer s") auto
    ultimately show ?thesis unfolding stack_inv_def using rest VP_Print s' le by simp
  next
    case (VP_Unlock i)
    with lk have "mutex_held pc_mutex (sd_mutexes s) (Some 0)" by simp
    from held_unlock_call [OF viz_ptrs(3) this, of p] st VP_Unlock obtain m where
      s': "s' = s\<lparr>sd_mutexes := (sd_mutexes s)(pc_mutex \<mapsto> m), sd_producer := VP_Post i\<rparr>"
      "mutex_held pc_mutex ((sd_mutexes s)(pc_mutex \<mapsto> m)) None" by auto
    show ?thesis unfolding stack_inv_def s'(1) using rest s'(2) VP_Unlock
      by (auto simp del: fun_upd_apply)
  next
    case (VP_Post i)
    with f(2) rest have "f + 1 < 2 ^ 32" by simp
    from sem_post_call [OF viz_ptrs(2) f(1) this] st VP_Post obtain x where
      s': "s' = s\<lparr>sd_sems := (sd_sems s)(viz_full_slots \<mapsto> x), sd_producer := VP_Wait (i + 1)\<rparr>"
      "sem_holds viz_full_slots ((sd_sems s)(viz_full_slots \<mapsto> x)) (f + 1)" by auto
    show ?thesis unfolding stack_inv_def s'(1) using rest s'(2) e f VP_Post
      by (auto simp del: fun_upd_apply)
  qed
qed

text \<open>What is left on the stack and what was taken are the items added; their sum fits an int.\<close>

lemma item_range: "set (map (\<lambda>i. int i + 1) [0..<k]) \<subseteq> {1..int k}"
  by auto

lemma sum_items: "sum_list (map (\<lambda>i. int i + 1) [0..<k]) = int (k * (k + 1) div 2)"
proof -
  have "2 * sum_list (map (\<lambda>i. int i + 1) [0..<k]) = int (k * (k + 1))"
    by (induction k) (auto simp: algebra_simps)
  then show ?thesis by (simp add: zdiv_int)
qed

lemma stack_sum:
  assumes inv: "stack_inv n s" and x: "x \<in> set (rev (take (vp_printed (sd_producer s) - vc_printed (sd_consumer s)) (sd_buffer s)))"
  shows "1 \<le> x" and "0 \<le> vc_sum (sd_consumer s)" and "vc_sum (sd_consumer s) + x \<le> 55"
proof -
  let ?k = "vp_printed (sd_producer s)" and ?st = "rev (take (vp_printed (sd_producer s) - vc_printed (sd_consumer s)) (sd_buffer s))"
  have r: "history_stack (sd_output s) [] = Some ?st" and a: "added (sd_output s) = map (\<lambda>i. int i + 1) [0..<?k]"
    and t: "sum_list (took (sd_output s)) = vc_sum (sd_consumer s)" and "vp_reserved (sd_producer s) \<le> 10"
    using inv unfolding stack_inv_def by blast+
  then have k: "?k \<le> 10" using vp_order [of "sd_producer s"] by linarith
  have m: "mset (added (sd_output s)) = mset ?st + mset (took (sd_output s))"
    using history_account [OF r] by simp
  then have sub: "set ?st \<subseteq> {1..int ?k}" "set (took (sd_output s)) \<subseteq> {1..int ?k}"
    using item_range [of ?k] unfolding a by (metis Un_subset_iff set_mset_mset set_mset_union)+
  show "1 \<le> x" using x sub(1) by auto
  show "0 \<le> vc_sum (sd_consumer s)" unfolding t [symmetric] using sub(2) by (intro sum_list_nonneg) auto
  have "x \<le> sum_list ?st" using x sub(1) by (intro member_le_sum_list) auto
  moreover have "sum_list (added (sd_output s)) = sum_list ?st + vc_sum (sd_consumer s)"
    using arg_cong [OF m, of sum_mset] t by (simp add: sum_mset_sum_list)
  moreover have "sum_list (added (sd_output s)) \<le> 55"
  proof -
    have "?k * (?k + 1) \<le> 10 * 11" using k by (intro mult_le_mono) auto
    then show ?thesis unfolding a sum_items by linarith
  qed
  ultimately show "vc_sum (sd_consumer s) + x \<le> 55" by linarith
qed

text \<open>In its section, before it counts down, the consumer finds an item.\<close>

lemma consumer_finds:
  assumes inv: "stack_inv n s" and c: "vc_locked (sd_consumer s)" and q: "vc_printed (sd_consumer s) < vc_claimed (sd_consumer s)"
  shows "vp_printed (sd_producer s) = vp_counted (sd_producer s)"
    and "vc_printed (sd_consumer s) < vp_printed (sd_producer s)"
    and "vp_printed (sd_producer s) - vc_printed (sd_consumer s) \<le> 5"
    and "vp_item (sd_producer s) b c'"
proof -
  have np: "\<not> vp_locked (sd_producer s)" using inv c unfolding stack_inv_def by blast
  then show "vp_printed (sd_producer s) = vp_counted (sd_producer s)" "vp_item (sd_producer s) b c'"
    by (cases "sd_producer s"; simp)+
  show "vc_printed (sd_consumer s) < vp_printed (sd_producer s)"
    using inv q vp_order(1) [of "sd_producer s"] unfolding stack_inv_def by linarith
  have "vp_reserved (sd_producer s) \<le> 5 + vc_freed (sd_consumer s)" using inv unfolding stack_inv_def by auto
  with vp_order [of "sd_producer s"] vc_order(1) [of "sd_consumer s"]
  show "vp_printed (sd_producer s) - vc_printed (sd_consumer s) \<le> 5" by linarith
qed

lemma visual_consumer_step:
  assumes inv: "stack_inv n s" and st: "consumer_visual p (sd_consumer s) s = Some s'"
  shows "stack_inv (Suc n) s'"
proof -
  from inv obtain e f where e: "sem_holds viz_empty_slots (sd_sems s) e" "e + vp_reserved (sd_producer s) = 5 + vc_freed (sd_consumer s)"
    and f: "sem_holds viz_full_slots (sd_sems s) f" "f + vc_claimed (sd_consumer s) = vp_announced (sd_producer s)"
    and lk: "mutex_held pc_mutex (sd_mutexes s)
       (if vp_locked (sd_producer s) then Some 0 else if vc_locked (sd_consumer s) then Some 1 else None)"
    unfolding stack_inv_def by blast
  note rest = inv [unfolded stack_inv_def]
  note finds = consumer_finds [OF inv]
  have held: "mutex_held pc_mutex (sd_mutexes s) (Some 1)" if "vc_locked (sd_consumer s)"
  proof -
    have "\<not> vp_locked (sd_producer s)" using rest that by blast
    with lk that show ?thesis by simp
  qed
  show ?thesis
  proof (cases "sd_consumer s")
    case (VC_Wait i a)
    with st have "i < 10" "f \<noteq> 0" using sem_wait_call [OF viz_ptrs(2) f(1)] by (auto split: if_splits)
    with st VC_Wait sem_wait_call [OF viz_ptrs(2) f(1)] obtain x where
      s': "s' = s\<lparr>sd_sems := (sd_sems s)(viz_full_slots \<mapsto> x), sd_consumer := VC_Lock i a\<rparr>"
      "sem_holds viz_full_slots ((sd_sems s)(viz_full_slots \<mapsto> x)) (f - 1)" by auto
    show ?thesis unfolding stack_inv_def s'(1) using rest s'(2) e f VC_Wait \<open>f \<noteq> 0\<close> \<open>i < 10\<close>
      by (auto simp del: fun_upd_apply)
  next
    case (VC_Lock i a)
    have np: "\<not> vp_locked (sd_producer s)"
    proof
      assume "vp_locked (sd_producer s)"
      with lk have "mutex_held pc_mutex (sd_mutexes s) (Some 0)" by simp
      from held_lock_blocks [OF viz_ptrs(3) this, of 1 p] st VC_Lock show False by simp
    qed
    with lk VC_Lock have "mutex_held pc_mutex (sd_mutexes s) None" by simp
    from held_lock_call [OF viz_ptrs(3) this, of p 1] st VC_Lock obtain m where
      s': "s' = s\<lparr>sd_mutexes := (sd_mutexes s)(pc_mutex \<mapsto> m), sd_consumer := VC_Count i a\<rparr>"
      "mutex_held pc_mutex ((sd_mutexes s)(pc_mutex \<mapsto> m)) (Some 1)" by auto
    show ?thesis unfolding stack_inv_def s'(1) using rest s'(2) VC_Lock np
      by (auto simp del: fun_upd_apply)
  next
    case (VC_Count i a)
    with st have s': "s' = s\<lparr>sd_count := sd_count s - 1, sd_consumer := VC_Read i a\<rparr>" by simp
    have "vp_item (sd_producer s) b c" "vp_printed (sd_producer s) = vp_counted (sd_producer s)" for b c
      using finds(1,4) VC_Count by auto
    moreover have "mutex_held pc_mutex (sd_mutexes s) (Some 1)" using held VC_Count by simp
    ultimately show ?thesis unfolding stack_inv_def s' using rest VC_Count by simp
  next
    case (VC_Read i a)
    let ?x = "sd_buffer s ! nat (sd_count s)"
    from VC_Read st have s': "s' = s\<lparr>sd_consumer := VC_Print i (a + ?x) ?x\<rparr>" by (auto split: if_splits)
    have "vp_item (sd_producer s) b c" for b c using finds(4) VC_Read by auto
    moreover have "mutex_held pc_mutex (sd_mutexes s) (Some 1)" using held VC_Read by simp
    ultimately show ?thesis unfolding stack_inv_def s' using rest VC_Read by simp
  next
    case (VC_Print i a x)
    let ?k = "vp_printed (sd_producer s) - i"
    have fd: "vp_printed (sd_producer s) = vp_counted (sd_producer s)" "i < vp_printed (sd_producer s)" "?k \<le> 5"
      using finds(1-3) VC_Print by auto
    have c: "sd_count s = int (?k - 1)" and len: "length (sd_buffer s) = 5" and x: "sd_buffer s ! nat (sd_count s) = x"
      using rest fd VC_Print by auto
    from VC_Print st have s': "s' = s\<lparr>sd_output := sd_output s @ [Took x (print_buffer (sd_buffer s) (sd_count s))],
        sd_consumer := VC_Unlock i a\<rparr>" by simp
    have "?k - 1 < length (sd_buffer s)" "Suc (?k - 1) = ?k" using fd len by auto
    with take_Suc_conv_app_nth [of "?k - 1" "sd_buffer s"] x [unfolded c]
    have "take ?k (sd_buffer s) = take (?k - 1) (sd_buffer s) @ [x]" by (metis nat_int)
    moreover have "history_stack (sd_output s) [] = Some (rev (take ?k (sd_buffer s)))" using rest VC_Print by simp
    moreover have "print_buffer (sd_buffer s) (sd_count s) = shown (rev (take (?k - 1) (sd_buffer s)))"
      unfolding c using len fd(3) by (intro print_buffer_shown) auto
    ultimately have "history_stack (sd_output s') [] = Some (rev (take (?k - 1) (sd_buffer s)))"
      unfolding s' by (simp add: history_append)
    moreover have "vp_printed (sd_producer s) - Suc i = ?k - 1" by simp
    moreover have "vp_item (sd_producer s) b c" for b c using finds(4) VC_Print by auto
    moreover have "mutex_held pc_mutex (sd_mutexes s) (Some 1)" using held VC_Print by simp
    ultimately show ?thesis unfolding stack_inv_def using rest VC_Print s' fd by simp
  next
    case (VC_Unlock i a)
    with held have "mutex_held pc_mutex (sd_mutexes s) (Some 1)" by simp
    from held_unlock_call [OF viz_ptrs(3) this, of p] st VC_Unlock obtain m where
      s': "s' = s\<lparr>sd_mutexes := (sd_mutexes s)(pc_mutex \<mapsto> m), sd_consumer := VC_Post i a\<rparr>"
      "mutex_held pc_mutex ((sd_mutexes s)(pc_mutex \<mapsto> m)) None" by auto
    show ?thesis unfolding stack_inv_def s'(1) using rest s'(2) VC_Unlock
      by (auto simp del: fun_upd_apply)
  next
    case (VC_Post i a)
    with e(2) rest have "e + 1 < 2 ^ 32" by simp
    from sem_post_call [OF viz_ptrs(1) e(1) this] st VC_Post obtain c where
      s': "s' = s\<lparr>sd_sems := (sd_sems s)(viz_empty_slots \<mapsto> c), sd_consumer := VC_Wait (i + 1) a\<rparr>"
      "sem_holds viz_empty_slots ((sd_sems s)(viz_empty_slots \<mapsto> c)) (e + 1)" by auto
    show ?thesis unfolding stack_inv_def s'(1) using rest s'(2) e f VC_Post
      by (auto simp del: fun_upd_apply)
  qed
qed

lemma stack_run_inv:
  assumes "(stack_step p ^^ n) (init_stack_demo buffer) s" and "length buffer = 5"
  shows "stack_inv n s"
  using assms(1)
proof (induction n arbitrary: s)
  case (Suc n)
  then obtain s0 where "(stack_step p ^^ n) (init_stack_demo buffer) s0" "stack_step p s0 s" by auto
  with Suc.IH visual_producer_step visual_consumer_step show ?case unfolding stack_step_def by blast
qed (use assms stack_start in simp)

lemma stack_progress:
  assumes inv: "stack_inv n s" and lt: "n < 140"
  shows "\<exists>s'. stack_step p s s'"
proof -
  let ?P = "sd_producer s" and ?C = "sd_consumer s"
  obtain e f where e: "sem_holds viz_empty_slots (sd_sems s) e" "e + vp_reserved ?P = 5 + vc_freed ?C"
    and f: "sem_holds viz_full_slots (sd_sems s) f" "f + vc_claimed ?C = vp_announced ?P"
    and lk: "mutex_held pc_mutex (sd_mutexes s) (if vp_locked ?P then Some 0 else if vc_locked ?C then Some 1 else None)"
    and one: "\<not> (vp_locked ?P \<and> vc_locked ?C)"
    and len: "length (sd_buffer s) = 5" and cnt: "sd_count s = int (vp_counted ?P) - int (vc_counted ?C)"
    and le: "vp_reserved ?P \<le> 10" "vc_claimed ?C \<le> 10" and n: "n = vp_steps ?P + vc_steps ?C"
    using inv unfolding stack_inv_def by blast
  have P: "\<exists>s'. producer_visual p ?P s = Some s'"
    if "case ?P of VP_Wait i \<Rightarrow> i < 10 \<and> e \<noteq> 0 | VP_Lock i \<Rightarrow> \<not> vc_locked ?C | _ \<Rightarrow> True"
  proof (cases ?P)
    case (VP_Wait i)
    with that sem_wait_call [OF viz_ptrs(1) e(1)] show ?thesis by auto
  next
    case (VP_Lock i)
    with that lk have "mutex_held pc_mutex (sd_mutexes s) None" by simp
    from held_lock_call [OF viz_ptrs(3) this, of p 0] VP_Lock show ?thesis by auto
  next
    case (VP_Store i)
    then have "\<not> vc_locked ?C" using one by simp
    then have "vc_printed ?C = vc_counted ?C" by (cases ?C) auto
    with VP_Store cnt e(2) f(2) vc_order [of ?C] have "0 \<le> sd_count s" "sd_count s < 5" by auto
    with VP_Store show ?thesis by simp
  next
    case (VP_Unlock i)
    with lk have "mutex_held pc_mutex (sd_mutexes s) (Some 0)" by simp
    from held_unlock_call [OF viz_ptrs(3) this, of p] VP_Unlock show ?thesis by auto
  next
    case (VP_Post i)
    with f(2) le have "f + 1 < 2 ^ 32" by simp
    from sem_post_call [OF viz_ptrs(2) f(1) this] VP_Post show ?thesis by auto
  qed auto
  have C: "\<exists>s'. consumer_visual p ?C s = Some s'"
    if "case ?C of VC_Wait i a \<Rightarrow> i < 10 \<and> f \<noteq> 0 | _ \<Rightarrow> True" "\<not> vp_locked ?P"
  proof (cases ?C)
    case (VC_Wait i a)
    with that sem_wait_call [OF viz_ptrs(2) f(1)] show ?thesis by auto
  next
    case (VC_Lock i a)
    with that lk have "mutex_held pc_mutex (sd_mutexes s) None" by simp
    from held_lock_call [OF viz_ptrs(3) this, of p 1] VC_Lock show ?thesis by auto
  next
    case (VC_Read i a)
    let ?k = "vp_printed ?P - i"
    have fd: "vp_printed ?P = vp_counted ?P" "i < vp_printed ?P" "?k \<le> 5"
      using consumer_finds [OF inv] VC_Read by auto
    then have c: "sd_count s = int (?k - 1)" using cnt VC_Read by auto
    have "sd_buffer s ! nat (sd_count s) \<in> set (take ?k (sd_buffer s))"
      unfolding c nat_int using fd len by (auto simp: in_set_conv_nth intro!: exI [of _ "?k - 1"])
    with stack_sum [OF inv] VC_Read have "fits_int (a + sd_buffer s ! nat (sd_count s))"
      by (fastforce simp: fits_int_def)
    moreover have "0 \<le> sd_count s" "sd_count s < 5" using c fd by auto
    ultimately show ?thesis using VC_Read by simp
  next
    case (VC_Unlock i a)
    then have "vc_locked ?C" by simp
    with lk that(2) have "mutex_held pc_mutex (sd_mutexes s) (Some 1)" by simp
    from held_unlock_call [OF viz_ptrs(3) this, of p] VC_Unlock show ?thesis by auto
  next
    case (VC_Post i a)
    with e(2) le have "e + 1 < 2 ^ 32" by simp
    from sem_post_call [OF viz_ptrs(1) e(1) this] VC_Post show ?thesis by auto
  qed auto
  have "(\<exists>s'. producer_visual p ?P s = Some s') \<or> (\<exists>s'. consumer_visual p ?C s = Some s')"
  proof (cases "vp_locked ?P \<or> vc_locked ?C")
    case True
    show ?thesis
    proof (cases "vp_locked ?P")
      case True
      with P show ?thesis by (cases ?P) auto
    next
      case False
      with True C show ?thesis by (cases ?C) auto
    qed
  next
    case False
    show ?thesis
    proof (cases "(\<exists>i. ?P = VP_Wait i) \<and> (\<exists>i a. ?C = VC_Wait i a)")
      case True
      then obtain i j a where ij: "?P = VP_Wait i" "?C = VC_Wait j a" by blast
      with e(2) f(2) n lt le have "(i < 10 \<and> e \<noteq> 0) \<or> (j < 10 \<and> f \<noteq> 0)" by auto
      with P C ij show ?thesis by auto
    next
      case waits: False
      with False P C show ?thesis by (cases ?P; cases ?C) auto
    qed
  qed
  then show ?thesis unfolding stack_step_def by blast
qed

text \<open>
  C21. The bounded buffer of demo 3, in any interleaving: what is printed is the history of a stack of
  at most five items, each line showing the stack as it then is; the producer's items appear in
  order; both threads end after seven steps per item, because until then one of them can step; and
  then each of the items 1 to 10 has been taken exactly once and the sum is 55.
\<close>

theorem visual_producer_consumer:
  assumes "(stack_step p ^^ n) (init_stack_demo buffer) s" and "length buffer = 5"
  shows "(\<exists>st. history_stack (sd_output s) [] = Some st) \<and>
    added (sd_output s) = map (\<lambda>i. int i + 1) [0..<length (added (sd_output s))] \<and>
    n \<le> 140 \<and> (n < 140 \<longrightarrow> (\<exists>s'. stack_step p s s')) \<and>
    (n = 140 \<longrightarrow> sd_producer s = VP_Wait 10 \<and> sd_consumer s = VC_Wait 10 55 \<and>
       mset (took (sd_output s)) = mset [1..10])"
proof -
  let ?P = "sd_producer s" and ?C = "sd_consumer s"
  have inv: "stack_inv n s" by (rule stack_run_inv [OF assms])
  then have r: "history_stack (sd_output s) [] = Some (rev (take (vp_printed ?P - vc_printed ?C) (sd_buffer s)))"
    and a: "added (sd_output s) = map (\<lambda>i. int i + 1) [0..<vp_printed ?P]"
    and t: "sum_list (took (sd_output s)) = vc_sum ?C" and le: "vp_reserved ?P \<le> 10" "vc_claimed ?C \<le> 10"
    and n: "n = vp_steps ?P + vc_steps ?C"
    unfolding stack_inv_def by blast+
  have p: "vp_steps ?P \<le> 70 \<and> (vp_steps ?P = 70 \<longrightarrow> ?P = VP_Wait 10)" using le(1) by (cases ?P) auto
  have c: "vc_steps ?C \<le> 70 \<and> (vc_steps ?C = 70 \<longrightarrow> (\<exists>v. ?C = VC_Wait 10 v))" using le(2) by (cases ?C) auto
  have fin: "?P = VP_Wait 10 \<and> ?C = VC_Wait 10 55 \<and> mset (took (sd_output s)) = mset [1..10]" if "n = 140"
  proof -
    from that n p c obtain v where e: "?P = VP_Wait 10" "?C = VC_Wait 10 v" by auto
    have items: "map (\<lambda>i. int i + 1) [0..<10] = [1..10]" "sum_list [1..10] = (55 :: int)" by (simp_all add: upt_rec upto.simps)
    have m: "mset (took (sd_output s)) = mset [1..10]"
      using history_account [OF r] a e items(1) by simp
    moreover have "v = 55" using arg_cong [OF m, of sum_mset] t e items(2) by (simp add: sum_mset_sum_list)
    ultimately show ?thesis using e by simp
  qed
  have "length (added (sd_output s)) = vp_printed ?P" using a by simp
  with a have "added (sd_output s) = map (\<lambda>i. int i + 1) [0..<length (added (sd_output s))]" by (simp only:)
  moreover have "n \<le> 140" using n p c by linarith
  ultimately show ?thesis using r fin stack_progress [OF inv] by blast
qed

lemma visual_producer_consumer_witness:
  "\<exists>s. (stack_step Linux ^^ 1) (init_stack_demo [0, 0, 0, 0, 0]) s \<and> (\<exists>s'. stack_step Linux s s')"
proof -
  have z: "(stack_step Linux ^^ 0) (init_stack_demo [0, 0, 0, 0, 0]) (init_stack_demo [0, 0, 0, 0, 0])" by simp
  have "\<exists>s. stack_step Linux (init_stack_demo [0, 0, 0, 0, 0]) s"
    using visual_producer_consumer [OF z] by simp
  then obtain s where "(stack_step Linux ^^ 1) (init_stack_demo [0, 0, 0, 0, 0]) s" by auto
  with visual_producer_consumer [OF this] show ?thesis by (intro exI [of _ s]) simp
qed

end
