(* ===== verification/Visual_Demo.thy ===== *)
theory Visual_Demo
  imports Client_Calls "HOL-Library.Signed_Division"
begin

text \<open>
  examples/visual_demo.c: the progress bar and the state of the pool that demo 1 shows, and the threads
  of demo 2 that take turns in a critical section. Colours and the text around the values are left out,
  and so are the sleeps.
\<close>

section \<open>What is drawn\<close>

datatype bar_cell = Full_Block | Half_Block | Light_Block

text \<open>
  The cells of the bar and the percentage. None: the division by zero, or the overflow of a product.
\<close>

definition print_progress_bar :: "int \<Rightarrow> int \<Rightarrow> (bar_cell list \<times> int) option" where
  "print_progress_bar current total_steps =
     (let width = 40 in
      if total_steps = 0 \<or> \<not> fits_int (current * width) \<or> \<not> fits_int (current * 100) then None
      else let filled = (current * width) sdiv total_steps; percent = (current * 100) sdiv total_steps in
        Some (map (\<lambda>i. if i < filled then Full_Block else if i = filled then Half_Block else Light_Block) [0..width - 1],
          percent))"

text \<open>A cell is a task waiting, up to VISUAL_QUEUE_SIZE of them; the number is printed as it is.\<close>

definition print_queue_visual :: "int \<Rightarrow> bool list \<times> int" where
  "print_queue_visual queue = (map (\<lambda>i. i < queue) [0..19], queue)"

lemma sdiv_nonneg: "(0 :: int) \<le> a \<Longrightarrow> 0 < b \<Longrightarrow> a sdiv b = a div b"
  by (cases "a = 0") (auto simp: signed_divide_int_def sgn_if pos_imp_zdiv_nonneg_iff)

lemma bar_cells:
  assumes "f \<le> 40"
  shows "map (\<lambda>i. if i < int f then Full_Block else if i = int f then Half_Block else Light_Block) [0..39] =
    replicate f Full_Block @ (if f < 40 then [Half_Block] else []) @ replicate (39 - f) Light_Block"
proof (rule nth_equalityI)
  fix i assume "i < length (map (\<lambda>i. if i < int f then Full_Block else if i = int f then Half_Block else Light_Block) [0..39])"
  then have "i < 40" by simp
  with assms show "map (\<lambda>i. if i < int f then Full_Block else if i = int f then Half_Block else Light_Block) [0..39] ! i =
      (replicate f Full_Block @ (if f < 40 then [Half_Block] else []) @ replicate (39 - f) Light_Block) ! i"
    by (auto simp: nth_append nth_Cons')
qed (use assms in auto)

lemma share_of_total:
  fixes c t k :: int
  assumes "0 \<le> c" "c \<le> t" "0 < t" "0 < k"
  shows "0 \<le> c * k div t" "c * k div t \<le> k" "c * k div t = k \<longleftrightarrow> c = t"
proof -
  show "0 \<le> c * k div t" using assms by (simp add: pos_imp_zdiv_nonneg_iff)
  have "c * k \<le> k * t" using assms by (simp add: mult.commute)
  then have "c * k div t \<le> k * t div t" using assms(3) by (rule zdiv_mono1)
  then show "c * k div t \<le> k" using assms(3) by simp
  show "c * k div t = k \<longleftrightarrow> c = t"
  proof
    assume e: "c * k div t = k"
    have "(c * k div t) * t \<le> c * k" using assms(3) by (simp add: minus_mod_eq_div_mult [symmetric])
    then have "t * k \<le> c * k" using e by (simp add: mult.commute)
    then show "c = t" using assms by simp
  qed (use assms in simp)
qed

text \<open>
  The progress bar, for a valid count: 40 cells, of which the share of the work that is done is
  full, followed by one half cell unless all is done; the percentage lies between 0 and 100; bar and
  percentage are full at the end and only then.
\<close>

lemma visual_progress_bar:
  assumes "0 \<le> current" and "current \<le> total_steps" and "0 < total_steps" and "fits_int (total_steps * 100)"
  defines "filled \<equiv> nat (current * 40 div total_steps)" and "percent \<equiv> current * 100 div total_steps"
  shows "print_progress_bar current total_steps = Some (replicate filled Full_Block @
      (if current < total_steps then [Half_Block] else []) @ replicate (39 - filled) Light_Block, percent) \<and>
    (filled = 40 \<longleftrightarrow> current = total_steps) \<and> 0 \<le> percent \<and> percent \<le> 100 \<and> (percent = 100 \<longleftrightarrow> current = total_steps)"
proof -
  note s40 = share_of_total [OF assms(1-3), of 40, simplified]
  note s100 = share_of_total [OF assms(1-3), of 100, simplified]
  have i: "int filled = current * 40 div total_steps" "filled \<le> 40" using s40 by (simp_all add: filled_def)
  have "filled < 40 \<longleftrightarrow> current < total_steps" using s40 i assms(2) by auto
  then have cells: "map (\<lambda>i. if i < int filled then Full_Block else if i = int filled then Half_Block else Light_Block) [0..39] =
      replicate filled Full_Block @ (if current < total_steps then [Half_Block] else []) @ replicate (39 - filled) Light_Block"
    using bar_cells [OF i(2)] by simp
  have "fits_int (current * 40)" "fits_int (current * 100)" using assms(1,2,4) by (auto simp: fits_int_def)
  then have "print_progress_bar current total_steps = Some (replicate filled Full_Block @
      (if current < total_steps then [Half_Block] else []) @ replicate (39 - filled) Light_Block, percent)"
    using assms(1,3) cells [unfolded i(1)] by (simp add: print_progress_bar_def Let_def sdiv_nonneg percent_def)
  moreover have "filled = 40 \<longleftrightarrow> current = total_steps" using s40(3) i(1) by linarith
  ultimately show ?thesis using s100 by (simp add: percent_def)
qed

lemma visual_progress_bar_witness:
  "print_progress_bar 20 20 = Some (replicate 40 Full_Block, 100)"
  using visual_progress_bar [of 20 20] by (simp add: fits_int_def)

section \<open>Taking turns in a critical section\<close>

text \<open>
  Demo 2: each thread goes through its section three times. The argument is the number of rounds
  left; the identity printed and stored is the thread's number.
\<close>

datatype turn_pc =
    Turn_Loop nat
  | Turn_Hold nat
  | Turn_Add nat
  | Turn_Release nat
  | Turn_Unlock nat

record turns =
  tn_mutexes :: "sync_mutex heap"
  tn_holder :: int
  tn_counter :: int
  tn_pc :: "tid \<Rightarrow> turn_pc"

definition viz_mutex :: ptr where
  "viz_mutex = 40"

fun mutex_visual_thread :: "platform \<Rightarrow> tid \<Rightarrow> turn_pc \<Rightarrow> turns \<Rightarrow> turns option" where
  "mutex_visual_thread p t (Turn_Loop 0) s = None"
| "mutex_visual_thread p t (Turn_Loop (Suc k)) s =
     after_call (sync_mutex_lock p t viz_mutex (tn_mutexes s))
       (\<lambda>h. s\<lparr>tn_mutexes := h, tn_pc := (tn_pc s)(t := Turn_Hold (Suc k))\<rparr>)"
| "mutex_visual_thread p t (Turn_Hold k) s = Some (s\<lparr>tn_holder := int t, tn_pc := (tn_pc s)(t := Turn_Add k)\<rparr>)"
| "mutex_visual_thread p t (Turn_Add k) s =
     Some (s\<lparr>tn_counter := tn_counter s + 1, tn_pc := (tn_pc s)(t := Turn_Release k)\<rparr>)"
| "mutex_visual_thread p t (Turn_Release k) s = Some (s\<lparr>tn_holder := - 1, tn_pc := (tn_pc s)(t := Turn_Unlock k)\<rparr>)"
| "mutex_visual_thread p t (Turn_Unlock k) s =
     after_call (sync_mutex_unlock p t viz_mutex (tn_mutexes s))
       (\<lambda>h. s\<lparr>tn_mutexes := h, tn_pc := (tn_pc s)(t := Turn_Loop (k - 1))\<rparr>)"

text \<open>As in \<open>demo_mutex\<close>: threads 1, 2 and 3, three rounds each. The number is that of the steps made.\<close>

definition turn_rounds :: "tid \<Rightarrow> nat" where
  "turn_rounds t = (if t \<in> {1, 2, 3} then 3 else 0)"

inductive turn_run :: "platform \<Rightarrow> nat \<Rightarrow> turns \<Rightarrow> bool" for p where
  start: "sync_mutex_init p 0 viz_mutex h = Returns h' SUCCESS \<Longrightarrow> h viz_mutex \<noteq> None \<Longrightarrow>
    turn_run p 0 \<lparr>tn_mutexes = h', tn_holder = - 1, tn_counter = 0, tn_pc = (\<lambda>t. Turn_Loop (turn_rounds t))\<rparr>"
| step: "turn_run p n s \<Longrightarrow> mutex_visual_thread p t (tn_pc s t) s = Some s' \<Longrightarrow> turn_run p (Suc n) s'"

fun in_turn :: "turn_pc \<Rightarrow> bool" where
  "in_turn (Turn_Loop k) = False"
| "in_turn q = True"

text \<open>Between the two stores to \<open>critical_section_holder\<close>.\<close>

fun holds_section :: "turn_pc \<Rightarrow> bool" where
  "holds_section (Turn_Add k) = True"
| "holds_section (Turn_Release k) = True"
| "holds_section q = False"

fun turn_steps :: "turn_pc \<Rightarrow> nat" where
  "turn_steps (Turn_Loop k) = 5 * k"
| "turn_steps (Turn_Hold k) = 5 * k - 1"
| "turn_steps (Turn_Add k) = 5 * k - 2"
| "turn_steps (Turn_Release k) = 5 * k - 3"
| "turn_steps (Turn_Unlock k) = 5 * k - 4"

text \<open>Additions a thread has not made yet.\<close>

fun turn_adds :: "turn_pc \<Rightarrow> nat" where
  "turn_adds (Turn_Loop k) = k"
| "turn_adds (Turn_Hold k) = k"
| "turn_adds (Turn_Add k) = k"
| "turn_adds (Turn_Release k) = k - 1"
| "turn_adds (Turn_Unlock k) = k - 1"

fun turn_pc_ok :: "turn_pc \<Rightarrow> bool" where
  "turn_pc_ok (Turn_Loop k) = True"
| "turn_pc_ok (Turn_Hold k) = (0 < k)"
| "turn_pc_ok (Turn_Add k) = (0 < k)"
| "turn_pc_ok (Turn_Release k) = (0 < k)"
| "turn_pc_ok (Turn_Unlock k) = (0 < k)"

definition turn_ok :: "turns \<Rightarrow> bool" where
  "turn_ok s \<longleftrightarrow> (\<forall>t. turn_pc_ok (tn_pc s t)) \<and>
     (\<forall>t. holds_section (tn_pc s t) \<longrightarrow> tn_holder s = int t) \<and>
     ((\<forall>t. \<not> holds_section (tn_pc s t)) \<longrightarrow> tn_holder s = - 1) \<and>
     finite {t. turn_adds (tn_pc s t) \<noteq> 0} \<and>
     tn_counter s + int (total (\<lambda>t. turn_adds (tn_pc s t))) = 9"

lemma viz_mutex_nonzero [simp]: "viz_mutex \<noteq> NULL"
  by (simp add: viz_mutex_def)

lemma turn_shape:
  assumes "mutex_visual_thread p t q s = Some s'" and "tn_pc s t = q"
  shows "(\<forall>u. u \<noteq> t \<longrightarrow> tn_pc s' u = tn_pc s u) \<and>
    (tn_mutexes s' = tn_mutexes s \<and> in_turn (tn_pc s' t) = in_turn q \<or>
     \<not> in_turn q \<and> in_turn (tn_pc s' t) \<and> (\<exists>r. sync_mutex_lock p t viz_mutex (tn_mutexes s) = Returns (tn_mutexes s') r) \<or>
     in_turn q \<and> \<not> in_turn (tn_pc s' t) \<and> (\<exists>r. sync_mutex_unlock p t viz_mutex (tn_mutexes s) = Returns (tn_mutexes s') r)) \<and>
    (turn_pc_ok q \<longrightarrow> Suc (turn_steps (tn_pc s' t)) = turn_steps q \<and> turn_pc_ok (tn_pc s' t) \<and>
       tn_counter s' + int (turn_adds (tn_pc s' t)) = tn_counter s + int (turn_adds q)) \<and>
    (tn_holder s' = tn_holder s \<and> holds_section (tn_pc s' t) = holds_section q \<or>
     in_turn q \<and> holds_section (tn_pc s' t) \<and> tn_holder s' = int t \<or>
     in_turn q \<and> \<not> holds_section (tn_pc s' t) \<and> tn_holder s' = - 1)"
  using assms
  by (cases "(p, t, q, s)" rule: mutex_visual_thread.cases)
    (auto elim!: after_call.elims split: if_splits)

lemma holds_in_turn: "holds_section q \<Longrightarrow> in_turn q"
  by (cases q) auto

interpretation turn: lock_client "\<lambda>t s. mutex_visual_thread p t (tn_pc s t) s" tn_pc tn_mutexes viz_mutex
  in_turn turn_steps turn_ok p for p
proof unfold_locales
  fix t and s s' :: turns
  assume st: "mutex_visual_thread p t (tn_pc s t) s = Some s'" and ok: "turn_ok s"
    and alone: "\<And>u. in_turn (tn_pc s t) \<or> in_turn (tn_pc s' t) \<Longrightarrow> u \<noteq> t \<Longrightarrow> \<not> in_turn (tn_pc s u)"
  note sh = turn_shape [OF st refl]
  have q: "turn_pc_ok (tn_pc s t)" and fin: "finite {u. turn_adds (tn_pc s u) \<noteq> 0}"
    and hold: "\<And>u. holds_section (tn_pc s u) \<Longrightarrow> tn_holder s = int u"
    and free: "\<forall>u. \<not> holds_section (tn_pc s u) \<Longrightarrow> tn_holder s = - 1"
    using ok unfolding turn_ok_def by blast+
  have pcs: "turn_pc_ok (tn_pc s' u)" for u
    using sh q ok unfolding turn_ok_def by (cases "u = t") auto
  have others: "\<not> holds_section (tn_pc s' u)" if "in_turn (tn_pc s t)" "u \<noteq> t" for u
    using alone [of u] that sh holds_in_turn by auto
  have holder: "(\<forall>u. holds_section (tn_pc s' u) \<longrightarrow> tn_holder s' = int u) \<and>
      ((\<forall>u. \<not> holds_section (tn_pc s' u)) \<longrightarrow> tn_holder s' = - 1)"
    using sh [THEN conjunct2, THEN conjunct2, THEN conjunct2]
  proof (elim disjE conjE)
    assume e: "tn_holder s' = tn_holder s" "holds_section (tn_pc s' t) = holds_section (tn_pc s t)"
    then have "holds_section (tn_pc s' u) = holds_section (tn_pc s u)" for u using sh by (cases "u = t") auto
    with e(1) hold free show ?thesis by metis
  next
    assume "in_turn (tn_pc s t)" "holds_section (tn_pc s' t)" "tn_holder s' = int t"
    with others show ?thesis by metis
  next
    assume "in_turn (tn_pc s t)" "\<not> holds_section (tn_pc s' t)" "tn_holder s' = - 1"
    with others show ?thesis by metis
  qed
  have "total (\<lambda>u. turn_adds (tn_pc s' u)) + turn_adds (tn_pc s t) =
      total (\<lambda>u. turn_adds (tn_pc s u)) + turn_adds (tn_pc s' t)"
    by (rule total_change [OF fin]) (use sh in simp)
  then have "tn_counter s' + int (total (\<lambda>u. turn_adds (tn_pc s' u))) = 9"
    using sh q ok unfolding turn_ok_def by linarith
  moreover have "finite {u. turn_adds (tn_pc s' u) \<noteq> 0}"
  proof (rule finite_subset)
    show "{u. turn_adds (tn_pc s' u) \<noteq> 0} \<subseteq> insert t {u. turn_adds (tn_pc s u) \<noteq> 0}" using sh by force
  qed (use fin in simp)
  ultimately show "turn_ok s'" using pcs holder unfolding turn_ok_def by blast
next
  fix s :: turns and t
  assume i: "in_turn (tn_pc s t)" and h: "mutex_held viz_mutex (tn_mutexes s) (Some t)"
  show "\<exists>s'. mutex_visual_thread p t (tn_pc s t) s = Some s'"
  proof (cases "tn_pc s t")
    case (Turn_Unlock k)
    with held_unlock_call [OF viz_mutex_nonzero h, of p] show ?thesis by auto
  qed (use i in auto)
next
  fix s :: turns and t
  assume "\<not> in_turn (tn_pc s t)" "turn_steps (tn_pc s t) \<noteq> 0" and h: "mutex_held viz_mutex (tn_mutexes s) None"
  then obtain k where k: "tn_pc s t = Turn_Loop (Suc k)" by (cases "tn_pc s t") (auto simp: gr0_conv_Suc)
  with held_lock_call [OF viz_mutex_nonzero h, of p t] show "\<exists>s'. mutex_visual_thread p t (tn_pc s t) s = Some s'" by auto
qed (use turn_shape in \<open>auto simp: turn_ok_def\<close>)

lemma total_rounds: "total (\<lambda>t. k * turn_rounds t) = 9 * k"
proof -
  have "total (\<lambda>t. k * turn_rounds t) = sum (\<lambda>t. k * turn_rounds t) {1, 2, 3}"
    by (rule total_superset) (auto simp: turn_rounds_def)
  then show ?thesis by (simp add: turn_rounds_def)
qed

lemma finite_rounds: "finite {t. turn_rounds t \<noteq> 0}"
  by (rule finite_subset [of _ "{1, 2, 3}"]) (auto simp: turn_rounds_def)

lemma turn_run_inv: "turn_run p n s \<Longrightarrow> \<exists>M. n + M = 45 \<and> turn.client_inv M s"
proof (induction rule: turn_run.induct)
  case (start h h')
  let ?s = "\<lparr>tn_mutexes = h', tn_holder = - 1, tn_counter = 0, tn_pc = (\<lambda>t. Turn_Loop (turn_rounds t))\<rparr>"
  have "mutex_held viz_mutex h' None"
    using mutex_init_object [OF start.hyps(1)] start.hyps(2) by (auto simp: mutex_held_def checked_mutex_def)
  moreover have "turn_ok ?s" using total_rounds [of 1] finite_rounds by (simp add: turn_ok_def)
  ultimately have "turn.client_inv 45 ?s"
    unfolding turn.client_inv_def using total_rounds [of 5] finite_rounds by (auto intro!: exI [of _ None])
  then show ?case by auto
next
  case (step n s t s')
  then obtain M where "n + M = 45" "turn.client_inv M s" by blast
  with turn.client_inv_step [OF _ step.hyps(2)] show ?case by fastforce
qed

text \<open>
  Demo 2: whatever the interleaving, \<open>critical_section_holder\<close> names the one thread that is in
  the section, and is -1 when there is none; each run ends after five steps per round, because until
  then some thread can step, with the counter at 9 as the program says.
\<close>

lemma visual_mutex_turns:
  assumes "turn_run p n s"
  shows "(holds_section (tn_pc s t) \<longrightarrow> tn_holder s = int t) \<and>
    (tn_holder s \<noteq> - 1 \<longrightarrow> (\<exists>u. holds_section (tn_pc s u))) \<and>
    (in_turn (tn_pc s t) \<and> in_turn (tn_pc s u) \<longrightarrow> t = u) \<and>
    n \<le> 45 \<and> (n < 45 \<longrightarrow> (\<exists>v s'. mutex_visual_thread p v (tn_pc s v) s = Some s')) \<and>
    (n = 45 \<longrightarrow> tn_counter s = 9)"
proof -
  obtain M where M: "n + M = 45" and inv: "turn.client_inv M s" using turn_run_inv [OF assms] by blast
  have ok: "turn_ok s" and fin: "finite {t. turn_steps (tn_pc s t) \<noteq> 0}" and sum: "total (\<lambda>t. turn_steps (tn_pc s t)) = M"
    using inv unfolding turn.client_inv_def by blast+
  have "total (\<lambda>v. turn_adds (tn_pc s v)) = 0" if "M = 0"
  proof (rule trans [OF total_same total_zero])
    fix v
    have "turn_steps (tn_pc s v) = 0" using total_zero_iff [OF fin] sum that by simp
    moreover have "turn_pc_ok (tn_pc s v)" using ok by (simp add: turn_ok_def)
    ultimately show "turn_adds (tn_pc s v) = 0" by (cases "tn_pc s v") auto
  qed
  then show ?thesis
    using M ok turn.one_inside [OF inv] turn.lock_progress [OF inv, of p] by (auto simp: turn_ok_def)
qed

lemma visual_mutex_turns_witness:
  "\<exists>s. turn_run Linux 0 s \<and> (\<exists>v s'. mutex_visual_thread Linux v (tn_pc s v) s = Some s')"
proof -
  let ?h = "[40 \<mapsto> \<lparr>sm_lock = \<lparr>pm_type = PTHREAD_MUTEX_NORMAL, pm_owner = None\<rparr>, sm_initialized = False\<rparr>]"
  obtain h' where h': "sync_mutex_init Linux 0 viz_mutex ?h = Returns h' SUCCESS"
    by (simp add: viz_mutex_def sync_defs pthread_defs Let_def)
  let ?s = "\<lparr>tn_mutexes = h', tn_holder = - 1, tn_counter = 0, tn_pc = (\<lambda>t. Turn_Loop (turn_rounds t))\<rparr>"
  have r: "turn_run Linux 0 ?s" by (rule turn_run.start [OF h']) (simp add: viz_mutex_def)
  from visual_mutex_turns [OF r] have "0 < (45 :: nat) \<longrightarrow> (\<exists>v s'. mutex_visual_thread Linux v (tn_pc ?s v) ?s = Some s')"
    by blast
  then have "\<exists>v s'. mutex_visual_thread Linux v (tn_pc ?s v) ?s = Some s'" by (rule mp) simp
  with r show ?thesis by blast
qed

end
