(* ===== verification/Visual_Tasks.thy ===== *)
theory Visual_Tasks
  imports Visual_Demo
begin

text \<open>
  Demo 1 of examples/visual_demo.c: twenty tasks on a pool of four workers, and the counters and flags
  from which the demo draws the pool. The pool itself is Pool_Machine; here it starts a submitted task
  whenever one of its workers is free.
\<close>

section \<open>The program\<close>

text \<open>
  A task before main has counted it, counted, submitted or refused by the pool, and inside \<open>visual_task\<close>, where the argument is
  the number it took for its worker.
\<close>

datatype vtask_pc =
    VT_New
  | VT_Counted
  | VT_Submitted
  | VT_Refused
  | VT_Mark nat
  | VT_Dequeue nat
  | VT_Sleep nat
  | VT_Complete
  | VT_Free
  | VT_Gone

text \<open>\<open>vs_next_id\<close> is \<open>worker_id_counter\<close>, \<open>vs_main\<close> the loop variable of main.\<close>

record visual_state =
  vs_worker_states :: "int list"
  vs_tasks_completed :: nat
  vs_tasks_total :: nat
  vs_queue_size :: int
  vs_num_workers :: nat
  vs_next_id :: nat
  vs_main :: nat
  vs_pc :: "nat \<Rightarrow> vtask_pc"

abbreviation move :: "nat \<Rightarrow> vtask_pc \<Rightarrow> visual_state \<Rightarrow> visual_state" where
  "move t q s \<equiv> s\<lparr>vs_pc := (vs_pc s)(t := q)\<rparr>"

fun in_task :: "vtask_pc \<Rightarrow> nat" where
  "in_task (VT_Mark w) = 1" | "in_task (VT_Dequeue w) = 1" | "in_task (VT_Sleep w) = 1"
| "in_task VT_Complete = 1" | "in_task VT_Free = 1" | "in_task q = 0"

text \<open>A store outside of the array is not a possible step.\<close>

fun visual_task :: "nat \<Rightarrow> vtask_pc \<Rightarrow> visual_state \<Rightarrow> visual_state option" where
  "visual_task t VT_Submitted s =
     (if sum_list (map (\<lambda>u. in_task (vs_pc s u)) [0..<20]) < vs_num_workers s
      then Some (move t (VT_Mark (vs_next_id s mod vs_num_workers s)) (s\<lparr>vs_next_id := vs_next_id s + 1\<rparr>)) else None)"
| "visual_task t (VT_Mark w) s =
     (if w < length (vs_worker_states s)
      then Some (move t (VT_Dequeue w) (s\<lparr>vs_worker_states := (vs_worker_states s)[w := 1]\<rparr>)) else None)"
| "visual_task t (VT_Dequeue w) s = Some (move t (VT_Sleep w) (s\<lparr>vs_queue_size := vs_queue_size s - 1\<rparr>))"
| "visual_task t (VT_Sleep w) s =
     (if w < length (vs_worker_states s)
      then Some (move t VT_Complete (s\<lparr>vs_worker_states := (vs_worker_states s)[w := 0]\<rparr>)) else None)"
| "visual_task t VT_Complete s = Some (move t VT_Free (s\<lparr>vs_tasks_completed := vs_tasks_completed s + 1\<rparr>))"
| "visual_task t VT_Free s = Some (move t VT_Gone s)"
| "visual_task t q s = None"

text \<open>
  The loop of main that submits: the queue size is incremented first, and the result of submit, here
  \<open>accepted\<close>, is ignored. Its malloc is taken to succeed.
\<close>

fun demo_basic_pool :: "bool \<Rightarrow> vtask_pc \<Rightarrow> visual_state \<Rightarrow> visual_state option" where
  "demo_basic_pool accepted VT_New s = (if vs_main s < 20
     then Some (move (vs_main s) VT_Counted (s\<lparr>vs_queue_size := vs_queue_size s + 1\<rparr>)) else None)"
| "demo_basic_pool accepted VT_Counted s =
     Some (move (vs_main s) (if accepted then VT_Submitted else VT_Refused) (s\<lparr>vs_main := vs_main s + 1\<rparr>))"
| "demo_basic_pool accepted q s = None"

definition init_visual_state :: visual_state where
  "init_visual_state = \<lparr>vs_worker_states = replicate 8 0, vs_tasks_completed = 0, vs_tasks_total = 20,
     vs_queue_size = 0, vs_num_workers = 4, vs_next_id = 0, vs_main = 0, vs_pc = (\<lambda>_. VT_New)\<rparr>"

definition demo_step :: "visual_state \<Rightarrow> visual_state \<Rightarrow> bool" where
  "demo_step s s' \<longleftrightarrow> (\<exists>accepted. demo_basic_pool accepted (vs_pc s (vs_main s)) s = Some s') \<or> (\<exists>t. visual_task t (vs_pc s t) s = Some s')"

text \<open>What is drawn: which workers are busy, and how many.\<close>

definition print_worker_status :: "visual_state \<Rightarrow> bool list" where
  "print_worker_status s = map (\<lambda>i. vs_worker_states s ! i = 1) [0..<vs_num_workers s]"

definition print_stats :: "visual_state \<Rightarrow> nat \<times> nat \<times> nat" where
  "print_stats s = (vs_tasks_completed s, vs_tasks_total s, length (filter (\<lambda>b. b) (print_worker_status s)))"

section \<open>The invariant\<close>

fun queued :: "vtask_pc \<Rightarrow> nat" where
  "queued VT_Counted = 1" | "queued VT_Submitted = 1" | "queued VT_Refused = 1" | "queued (VT_Mark w) = 1" | "queued (VT_Dequeue w) = 1"
| "queued q = 0"

fun marked :: "vtask_pc \<Rightarrow> nat option" where
  "marked (VT_Dequeue w) = Some w" | "marked (VT_Sleep w) = Some w" | "marked q = None"

fun finished :: "vtask_pc \<Rightarrow> nat" where
  "finished VT_Free = 1" | "finished VT_Gone = 1" | "finished q = 0"

fun id_ok :: "vtask_pc \<Rightarrow> bool" where
  "id_ok (VT_Mark w) = (w < 4)" | "id_ok (VT_Dequeue w) = (w < 4)" | "id_ok (VT_Sleep w) = (w < 4)"
| "id_ok q = True"

abbreviation count_tasks :: "(vtask_pc \<Rightarrow> nat) \<Rightarrow> visual_state \<Rightarrow> nat" where
  "count_tasks f s \<equiv> (\<Sum>t<20. f (vs_pc s t))"

definition visual_inv :: "visual_state \<Rightarrow> bool" where
  "visual_inv s \<longleftrightarrow> length (vs_worker_states s) = 8 \<and> vs_num_workers s = 4 \<and> vs_tasks_total s = 20 \<and>
     vs_queue_size s = int (count_tasks queued s) \<and> vs_tasks_completed s = count_tasks finished s \<and>
     (\<forall>t. id_ok (vs_pc s t)) \<and> vs_main s \<le> 20 \<and>
     (\<forall>t > vs_main s. vs_pc s t = VT_New) \<and> (vs_pc s (vs_main s) = VT_New \<or> vs_pc s (vs_main s) = VT_Counted \<and> vs_main s < 20) \<and>
     (\<forall>t < vs_main s. vs_pc s t \<noteq> VT_New \<and> vs_pc s t \<noteq> VT_Counted) \<and>
     (\<forall>i < 4. vs_worker_states s ! i = 1 \<longrightarrow> (\<exists>t < 20. marked (vs_pc s t) = Some i))"

lemma count_move:
  assumes "t < 20"
  shows "(\<Sum>u<20. f (((pc :: nat \<Rightarrow> vtask_pc)(t := q)) u)) + f (pc t) = (\<Sum>u<20. f (pc u)) + (f q :: nat)"
proof -
  have "(\<Sum>u<20. f ((pc(t := q)) u)) = f q + (\<Sum>u\<in>{..<20} - {t}. f ((pc(t := q)) u))"
    using assms by (subst sum.remove [of _ t]) auto
  also have "(\<Sum>u\<in>{..<20} - {t}. f ((pc(t := q)) u)) = (\<Sum>u\<in>{..<20} - {t}. f (pc u))"
    by (rule sum.cong) auto
  also have "f q + (\<Sum>u\<in>{..<20} - {t}. f (pc u)) + f (pc t) = (\<Sum>u<20. f (pc u)) + f q"
    using assms by (subst sum.remove [of "{..<20}" t]) auto
  finally show ?thesis .
qed

lemma active_task:
  assumes "visual_inv s" and "visual_task t (vs_pc s t) s = Some s'"
  shows "t < vs_main s" and "t < 20"
proof -
  have "vs_pc s t \<noteq> VT_New \<and> vs_pc s t \<noteq> VT_Counted" using assms(2) by (cases "vs_pc s t") auto
  with assms(1) show "t < vs_main s" unfolding visual_inv_def by (metis linorder_neqE_nat)
  with assms(1) show "t < 20" by (simp add: visual_inv_def)
qed

lemma visual_task_shape:
  assumes "visual_task t (vs_pc s t) s = Some s'"
  shows "u \<noteq> t \<Longrightarrow> vs_pc s' u = vs_pc s u"
    and "vs_pc s' t \<noteq> VT_New \<and> vs_pc s' t \<noteq> VT_Counted"
    and "vs_main s' = vs_main s \<and> vs_num_workers s' = vs_num_workers s \<and> vs_tasks_total s' = vs_tasks_total s \<and>
      length (vs_worker_states s') = length (vs_worker_states s)"
    and "vs_queue_size s' + int (queued (vs_pc s t)) = vs_queue_size s + int (queued (vs_pc s' t))"
    and "vs_tasks_completed s' + finished (vs_pc s t) = vs_tasks_completed s + finished (vs_pc s' t)"
    and "id_ok (vs_pc s t) \<Longrightarrow> vs_num_workers s = 4 \<Longrightarrow> id_ok (vs_pc s' t)"
    and "vs_worker_states s' = vs_worker_states s \<and> (marked (vs_pc s t) = None \<or> marked (vs_pc s' t) = marked (vs_pc s t)) \<or>
       (\<exists>w. marked (vs_pc s t) = None \<and> marked (vs_pc s' t) = Some w \<and> vs_worker_states s' = (vs_worker_states s)[w := 1]) \<or>
       (\<exists>w. marked (vs_pc s t) = Some w \<and> marked (vs_pc s' t) = None \<and> vs_worker_states s' = (vs_worker_states s)[w := 0])"
  using assms by (cases "vs_pc s t"; auto split: if_splits; fail)+

lemma marks_task:
  assumes inv: "visual_inv s" and st: "visual_task t (vs_pc s t) s = Some s'" and i: "i < 4" "vs_worker_states s' ! i = 1"
  shows "\<exists>u < 20. marked (vs_pc s' u) = Some i"
proof -
  note sh = visual_task_shape [OF st] and t = active_task(2) [OF inv st]
  have old: "vs_worker_states s ! i = 1 \<Longrightarrow> \<exists>u < 20. marked (vs_pc s u) = Some i" and len: "length (vs_worker_states s) = 8"
    using inv i(1) unfolding visual_inv_def by blast+
  have keep: "\<exists>u < 20. marked (vs_pc s' u) = Some i" if "vs_worker_states s ! i = 1" "marked (vs_pc s t) \<noteq> Some i"
    using old [OF that(1)] that(2) sh(1) by metis
  from sh(7) show ?thesis
  proof (elim disjE conjE exE)
    assume e: "vs_worker_states s' = vs_worker_states s" "marked (vs_pc s' t) = marked (vs_pc s t)"
    show ?thesis
    proof (cases "marked (vs_pc s t) = Some i")
      case True
      with e t show ?thesis by auto
    qed (use keep i e in simp)
  next
    fix w assume e: "marked (vs_pc s t) = None" "marked (vs_pc s' t) = Some w" "vs_worker_states s' = (vs_worker_states s)[w := 1]"
    show ?thesis
    proof (cases "w = i")
      case False
      then show ?thesis using keep i e by simp
    qed (use e t in auto)
  next
    fix w assume e: "marked (vs_pc s t) = Some w" "marked (vs_pc s' t) = None" "vs_worker_states s' = (vs_worker_states s)[w := 0]"
    show ?thesis
    proof (cases "w = i")
      case False
      then show ?thesis using keep i e by simp
    qed (use e i len in simp)
  qed (use keep i in simp)
qed

lemma visual_task_inv:
  assumes inv: "visual_inv s" and st: "visual_task t (vs_pc s t) s = Some s'"
  shows "visual_inv s'"
proof -
  note t = active_task [OF assms] and sh = visual_task_shape [OF st]
  have pc: "vs_pc s' = (vs_pc s)(t := vs_pc s' t)" by (rule ext) (simp add: sh(1))
  have moved: "count_tasks f s' + f (vs_pc s t) = count_tasks f s + f (vs_pc s' t)" for f
    using count_move [OF t(2), of f "vs_pc s" "vs_pc s' t"] unfolding pc [symmetric] .
  have old: "vs_queue_size s = int (count_tasks queued s)" "vs_tasks_completed s = count_tasks finished s"
    using inv by (simp_all add: visual_inv_def)
  have "vs_queue_size s' = int (count_tasks queued s')"
    using old(1) sh(4) moved [of queued] by linarith
  moreover have "vs_tasks_completed s' = count_tasks finished s'"
    using old(2) sh(5) moved [of finished] by linarith
  moreover have "id_ok (vs_pc s' u)" for u
    using sh(1) [of u] sh(6) inv unfolding visual_inv_def by (cases "u = t") auto
  moreover have "\<forall>u > vs_main s'. vs_pc s' u = VT_New" "vs_pc s' (vs_main s') = VT_New \<or> vs_pc s' (vs_main s') = VT_Counted \<and> vs_main s' < 20"
    "vs_main s' \<le> 20" "length (vs_worker_states s') = 8 \<and> vs_num_workers s' = 4 \<and> vs_tasks_total s' = 20"
    using inv t(1) sh(1,3) unfolding visual_inv_def by auto
  moreover have "\<forall>u < vs_main s'. vs_pc s' u \<noteq> VT_New \<and> vs_pc s' u \<noteq> VT_Counted"
  proof (intro allI impI)
    fix u assume "u < vs_main s'"
    then show "vs_pc s' u \<noteq> VT_New \<and> vs_pc s' u \<noteq> VT_Counted"
      using inv sh(1) [of u] sh(2,3) unfolding visual_inv_def by (cases "u = t") auto
  qed
  ultimately show ?thesis using marks_task [OF inv st] unfolding visual_inv_def by blast
qed

lemma demo_basic_pool_inv:
  assumes inv: "visual_inv s" and st: "demo_basic_pool accepted (vs_pc s (vs_main s)) s = Some s'"
  shows "visual_inv s'"
proof -
  let ?m = "vs_main s"
  have m: "?m < 20" using inv st unfolding visual_inv_def by (cases "vs_pc s ?m") (auto split: if_splits)
  note move = count_move [OF m, where pc = "vs_pc s"]
  have marks: "marked (vs_pc s ?m) = None" using inv unfolding visual_inv_def by auto
  have draw: "\<exists>t < 20. marked (((vs_pc s)(?m := q)) t) = Some i" if "i < 4" "vs_worker_states s ! i = 1" for i q
  proof -
    from that inv obtain t where "t < 20" "marked (vs_pc s t) = Some i" unfolding visual_inv_def by blast
    with marks show ?thesis by (intro exI [of _ t]) auto
  qed
  show ?thesis
  proof (cases "vs_pc s ?m")
    case VT_New
    with st m have s': "s' = move ?m VT_Counted (s\<lparr>vs_queue_size := vs_queue_size s + 1\<rparr>)" by simp
    have "count_tasks queued s' = count_tasks queued s + 1" "count_tasks finished s' = count_tasks finished s"
      using move [of queued VT_Counted] move [of finished VT_Counted] VT_New by (simp_all add: s')
    moreover have "\<forall>i<4. vs_worker_states s' ! i = 1 \<longrightarrow> (\<exists>t<20. marked (vs_pc s' t) = Some i)" using draw by (simp add: s')
    ultimately show ?thesis using inv m VT_New unfolding visual_inv_def by (simp add: s')
  next
    case VT_Counted
    define q where "q = (if accepted then VT_Submitted else VT_Refused)"
    with st VT_Counted have s': "s' = move ?m q (s\<lparr>vs_main := ?m + 1\<rparr>)" by simp
    have q: "queued q = 1" "finished q = 0" "id_ok q" "q \<noteq> VT_New \<and> q \<noteq> VT_Counted" by (simp_all add: q_def)
    have "count_tasks queued s' = count_tasks queued s" "count_tasks finished s' = count_tasks finished s"
      using move [of queued q] move [of finished q] VT_Counted q by (simp_all add: s')
    moreover have "\<forall>i<4. vs_worker_states s' ! i = 1 \<longrightarrow> (\<exists>t<20. marked (vs_pc s' t) = Some i)" using draw by (simp add: s')
    ultimately show ?thesis using inv m VT_Counted q unfolding visual_inv_def by (auto simp: s' less_Suc_eq)
  qed (use st in auto)
qed

section \<open>What the demo shows\<close>

lemma init_visual_inv: "visual_inv init_visual_state"
  by (simp add: visual_inv_def init_visual_state_def numeral_nat nth_Cons')

lemma demo_step_inv:
  assumes "visual_inv s" and "demo_step s s'"
  shows "visual_inv s'"
  using assms visual_task_inv demo_basic_pool_inv unfolding demo_step_def by blast

lemma demo_reach_inv:
  assumes "demo_step\<^sup>*\<^sup>* init_visual_state s"
  shows "visual_inv s"
  using assms by induction (simp_all add: init_visual_inv demo_step_inv)

text \<open>The steps a task still has.\<close>

fun steps_left :: "vtask_pc \<Rightarrow> nat" where
  "steps_left VT_New = 8" | "steps_left VT_Counted = 7" | "steps_left VT_Submitted = 6" | "steps_left (VT_Mark w) = 5"
| "steps_left (VT_Dequeue w) = 4" | "steps_left (VT_Sleep w) = 3" | "steps_left VT_Complete = 2"
| "steps_left VT_Free = 1" | "steps_left VT_Gone = 0" | "steps_left VT_Refused = 0"

lemma demo_step_left:
  assumes inv: "visual_inv s" and st: "demo_step s s'"
  shows "count_tasks steps_left s' < count_tasks steps_left s"
proof -
  from st obtain t where t: "t < 20" and pc: "vs_pc s' = (vs_pc s)(t := vs_pc s' t)"
    and less: "steps_left (vs_pc s' t) < steps_left (vs_pc s t)"
    unfolding demo_step_def
  proof (elim disjE exE)
    fix accepted assume st: "demo_basic_pool accepted (vs_pc s (vs_main s)) s = Some s'"
    have m: "vs_main s < 20" using inv st unfolding visual_inv_def by (cases "vs_pc s (vs_main s)") (auto split: if_splits)
    show thesis by (rule that [OF m]) (use st in \<open>cases "vs_pc s (vs_main s)"; auto split: if_splits\<close>)+
  next
    fix t assume st: "visual_task t (vs_pc s t) s = Some s'"
    show thesis
      by (rule that [OF active_task(2) [OF inv st]]) (use st in \<open>cases "vs_pc s t"; auto split: if_splits\<close>)+
  qed
  with count_move [OF t, of steps_left "vs_pc s" "vs_pc s' t"] show ?thesis unfolding pc [symmetric] by linarith
qed

lemma task_can_step:
  assumes "visual_inv s" and "vs_pc s t \<noteq> VT_New" "vs_pc s t \<noteq> VT_Counted" "vs_pc s t \<noteq> VT_Submitted" "vs_pc s t \<noteq> VT_Gone"
    "vs_pc s t \<noteq> VT_Refused"
  shows "\<exists>s'. demo_step s s'"
proof -
  have "id_ok (vs_pc s t)" "length (vs_worker_states s) = 8" using assms(1) unfolding visual_inv_def by blast+
  then have "\<exists>s'. visual_task t (vs_pc s t) s = Some s'" using assms(2-) by (cases "vs_pc s t") auto
  then show ?thesis unfolding demo_step_def by blast
qed

lemma demo_can_step:
  assumes inv: "visual_inv s" and left: "vs_tasks_completed s < 20" and ok: "\<forall>t < 20. vs_pc s t \<noteq> VT_Refused"
  shows "\<exists>s'. demo_step s s'"
proof (rule ccontr)
  assume stuck: "\<nexists>s'. demo_step s s'"
  then have still: "vs_pc s t \<in> {VT_New, VT_Counted, VT_Submitted, VT_Gone, VT_Refused}" for t
    using task_can_step [OF inv] by blast
  have workers: "vs_num_workers s = 4" using inv by (simp add: visual_inv_def)
  have "in_task (vs_pc s t) = 0" for t using still [of t] by auto
  then have "vs_pc s t \<noteq> VT_Submitted" for t
    using stuck workers unfolding demo_step_def by (metis (mono_tags, lifting) visual_task.simps(1) map_eq_conv
      sum_list_0 zero_less_numeral)
  with still have still: "vs_pc s t \<in> {VT_New, VT_Counted, VT_Gone, VT_Refused}" for t by blast
  have "vs_pc s (vs_main s) \<noteq> VT_Counted" using stuck unfolding demo_step_def by (metis demo_basic_pool.simps(2))
  moreover have "vs_pc s (vs_main s) \<noteq> VT_New \<or> \<not> vs_main s < 20"
    using stuck unfolding demo_step_def by (metis demo_basic_pool.simps(1))
  moreover have main: "vs_pc s (vs_main s) = VT_New \<or> vs_pc s (vs_main s) = VT_Counted" "vs_main s \<le> 20"
    "\<And>t. t < vs_main s \<Longrightarrow> vs_pc s t \<noteq> VT_New \<and> vs_pc s t \<noteq> VT_Counted"
    using inv unfolding visual_inv_def by blast+
  ultimately have "vs_main s = 20" by auto
  with still main(3) ok have "finished (vs_pc s t) = 1" if "t < 20" for t using that by fastforce
  then have "count_tasks finished s = 20" by simp
  with inv left show False by (simp add: visual_inv_def)
qed


lemma queue_cells:
  assumes "k \<le> 20"
  shows "print_queue_visual (int k) = (replicate k True @ replicate (20 - k) False, int k)"
proof -
  have "map (\<lambda>i. i < int k) [0..19] = replicate k True @ replicate (20 - k) False"
    by (rule nth_equalityI) (use assms in \<open>auto simp: nth_append\<close>)
  then show ?thesis by (simp add: print_queue_visual_def)
qed

lemma count_le:
  assumes "\<And>q. f q \<le> 1"
  shows "count_tasks f s \<le> 20"
  using sum_mono [of "{..<20}" "\<lambda>t. f (vs_pc s t)" "\<lambda>_. 1"] assms by simp

lemma queued_le: "queued q \<le> 1" and finished_le: "finished q \<le> 1"
  by (cases q; simp)+

lemma total_left: "count_tasks steps_left s \<le> 160"
proof -
  have "steps_left q \<le> 8" for q by (cases q) auto
  then show ?thesis using sum_mono [of "{..<20}" "\<lambda>t. steps_left (vs_pc s t)" "\<lambda>_. 8"] by simp
qed

lemma active_le_marked:
  assumes inv: "visual_inv s"
  shows "length (filter (\<lambda>b. b) (print_worker_status s)) \<le> card {t. t < 20 \<and> marked (vs_pc s t) \<noteq> None}"
proof -
  have busy: "\<exists>t < 20. marked (vs_pc s t) = Some i" if "i < 4" "vs_worker_states s ! i = 1" for i
    using inv that unfolding visual_inv_def by blast
  have "length (filter (\<lambda>b. b) (print_worker_status s)) = card {i. i < 4 \<and> vs_worker_states s ! i = 1}"
    using inv by (simp add: print_worker_status_def visual_inv_def length_filter_conv_card cong: conj_cong)
  also have "\<dots> \<le> card ((\<lambda>t. the (marked (vs_pc s t))) ` {t. t < 20 \<and> marked (vs_pc s t) \<noteq> None})"
    by (rule card_mono) (use busy in force)+
  also have "\<dots> \<le> card {t. t < 20 \<and> marked (vs_pc s t) \<noteq> None}" by (rule card_image_le) simp
  finally show ?thesis .
qed

lemma all_finished:
  assumes "count_tasks finished s = 20" and "t < 20"
  shows "vs_pc s t \<in> {VT_Free, VT_Gone}"
proof (rule ccontr)
  assume "vs_pc s t \<notin> {VT_Free, VT_Gone}"
  then have "finished (vs_pc s t) = 0" by (cases "vs_pc s t") auto
  then have "count_tasks finished s < (\<Sum>t<20::nat. 1)"
    by (intro sum_strict_mono_ex1) (use assms(2) finished_le in auto)
  with assms(1) show False by simp
qed

lemma no_true: "filter (\<lambda>b. b) xs = [] \<Longrightarrow> True \<notin> set xs"
  by (induction xs) (simp_all split: if_splits)

lemma inactive:
  assumes "visual_inv s" and "\<And>t. t < 20 \<Longrightarrow> marked (vs_pc s t) = None"
  shows "filter (\<lambda>b. b) (print_worker_status s) = []"
proof -
  have e: "{t. t < 20 \<and> marked (vs_pc s t) \<noteq> None} = {}"
  proof (rule equals0I)
    fix t assume "t \<in> {t. t < 20 \<and> marked (vs_pc s t) \<noteq> None}"
    then have "t < 20" "marked (vs_pc s t) \<noteq> None" by blast+
    with assms(2) [of t] show False by blast
  qed
  show ?thesis using active_le_marked [OF assms(1)] unfolding e by (simp only: card.empty le_zero_eq length_0_conv)
qed


section \<open>A run\<close>

fun demo_run :: "nat option list \<Rightarrow> visual_state \<Rightarrow> visual_state option" where
  "demo_run [] s = Some s"
| "demo_run (u # us) s = (case (case u of None \<Rightarrow> demo_basic_pool True (vs_pc s (vs_main s)) s | Some t \<Rightarrow> visual_task t (vs_pc s t) s) of
     None \<Rightarrow> None | Some s' \<Rightarrow> demo_run us s')"

lemma demo_run_reach: "demo_run us s = Some s' \<Longrightarrow> demo_step\<^sup>*\<^sup>* s s'"
proof (induction us s rule: demo_run.induct)
  case (2 u us s)
  from 2(2) obtain s1 where s1: "(case u of None \<Rightarrow> demo_basic_pool True (vs_pc s (vs_main s)) s
      | Some t \<Rightarrow> visual_task t (vs_pc s t) s) = Some s1" and "demo_run us s1 = Some s'"
    by (auto split: option.splits)
  then have "demo_step\<^sup>*\<^sup>* s1 s'" using 2(1) by blast
  moreover have "demo_step s s1" using s1 unfolding demo_step_def by (cases u) auto
  ultimately show ?case by (rule converse_rtranclp_into_rtranclp [rotated])
qed simp

text \<open>Five tasks submitted; the first is slow, the next three end, the fifth gets the number of the first, which then ends.\<close>

definition slow_first :: "nat option list" where
  "slow_first = replicate 10 None @ replicate 3 (Some 0) @ replicate 6 (Some 1) @ replicate 6 (Some 2) @
     replicate 6 (Some 3) @ replicate 3 (Some 4) @ [Some 0]"

lemma slow_first_run:
  obtains s where "demo_run slow_first init_visual_state = Some s" "vs_pc s 4 = VT_Sleep 0" "print_stats s = (3, 20, 0)"
    "\<forall>t < 20. vs_pc s t \<noteq> VT_Refused"
proof -
  have "map_option (\<lambda>s. (vs_pc s 4, print_stats s, list_all (\<lambda>t. vs_pc s t \<noteq> VT_Refused) [0..<20]))
      (demo_run slow_first init_visual_state) = Some (VT_Sleep 0, (3, 20, 0), True)"
    by code_simp
  then show thesis using that by (auto simp: map_option_eq_Some list_all_iff)
qed



end
