(* ===== verification/Visual_Menu.thy ===== *)
theory Visual_Menu
  imports Pool_Programs Parallel_Sum
begin

text \<open>
  The rest of examples/visual_demo.c that computes: the counter of demos 4 and 5, to which every task of the
  pool adds the sum that it has computed, and the menu of main. The times that these demos measure and
  the numbers derived from them (doubles) are not modelled.
\<close>

section \<open>The performance counter\<close>

text \<open>The loop of \<open>perf_task\<close> is that of \<open>sum_range\<close> from 0; None is the overflow of its sum.\<close>

definition perf_task :: "int \<Rightarrow> u64 \<Rightarrow> u64 option" where
  "perf_task iterations perf_counter =
     map_option (\<lambda>s. perf_counter + word_of_int s) (sum_loop \<lparr>rt_start = 0, rt_end = iterations\<rparr> 0 0)"

text \<open>The argument of a task is a pointer to an int; no other function is submitted to these pools.\<close>

definition perf_effect :: "(ptr \<Rightarrow> int option) \<Rightarrow> ptr \<times> ptr \<Rightarrow> u64 option \<Rightarrow> u64 option" where
  "perf_effect ints = (\<lambda>(func, arg) g. Option.bind g (\<lambda>c. Option.bind (ints arg) (\<lambda>iterations. perf_task iterations c)))"

interpretation perf: commuting_tasks "perf_effect ints" for ints
proof
  fix x y :: "ptr \<times> ptr" and g
  have "Option.bind (perf_task a c) (perf_task b) = Option.bind (perf_task b c) (perf_task a)" for a b c
    by (simp add: perf_task_def ac_simps split: bind_splits)
      (cases "sum_loop \<lparr>rt_start = 0, rt_end = a\<rparr> 0 0"; cases "sum_loop \<lparr>rt_start = 0, rt_end = b\<rparr> 0 0"; simp add: ac_simps)
  then show "perf_effect ints x (perf_effect ints y g) = perf_effect ints y (perf_effect ints x g)"
    by (cases x; cases y; cases g; cases "ints (snd x)"; cases "ints (snd y)") (simp_all add: perf_effect_def)
qed

lemma perf_task_value:
  assumes "0 \<le> iterations" "iterations < 2 ^ 31"
  shows "perf_task iterations c = Some (c + word_of_int (iterations * (iterations - 1) div 2))"
proof -
  let ?task = "\<lparr>rt_start = 0, rt_end = iterations\<rparr>"
  have "perf_task iterations c = sum_range ?task c" by (simp add: perf_task_def sum_range_def)
  also have "\<dots> = Some (c + word_of_int (range_sum ?task))"
    by (rule task_ok_value) (use assms in \<open>simp add: task_ok_def\<close>)
  also have "range_sum ?task = iterations * (iterations - 1) div 2"
    using twice_sum [of 0 iterations] assms(1) by (simp add: range_sum_def)
  finally show ?thesis .
qed

lemma perf_sums:
  assumes "\<And>x. x \<in> set xs \<Longrightarrow> ints (snd x) = Some iterations" and "0 \<le> iterations" "iterations < 2 ^ 31"
  shows "fold (perf_effect ints) xs (Some c) =
    Some (c + word_of_nat (length xs) * word_of_int (iterations * (iterations - 1) div 2))"
  using assms(1)
proof (induction xs arbitrary: c)
  case (Cons x xs)
  have "perf_effect ints x (Some c) = perf_task iterations c"
    using Cons.prems [of x] by (cases x) (simp add: perf_effect_def)
  with Cons show ?case by (simp add: perf_task_value [OF assms(2,3)] algebra_simps)
qed simp

text \<open>
  Demos 4 and 5: when main returns from the wait, the counter is the number of tasks accepted times the
  sum of the numbers below \<open>iterations\<close>, for every number of workers and every interleaving.
\<close>

lemma visual_perf_counter:
  assumes "client_reach workers capacity {main} (\<lambda>x. [perf_effect ints x]) (Some 0) s rest g" and "workers \<le> main"
    and "no_overflow s" and "ps_pc s main = Wait_Return k"
    and "\<And>x. x \<in> set (pushed (plog s)) \<Longrightarrow> ints (snd x) = Some iterations"
    and "0 \<le> iterations" and "iterations < 2 ^ 31"
  shows "g = Some (word_of_nat (length (pushed (plog s))) * word_of_int (iterations * (iterations - 1) div 2))"
  unfolding perf.wait_then_done [OF assms(1-4)] using perf_sums [where ints = ints and iterations = iterations and xs = "pushed (plog s)", OF assms(5-7)] by simp

text \<open>Two tasks on two workers, each of which adds 0 + 1 + 2.\<close>

definition perf_run :: "(tid \<times> pool_action) list" where
  "perf_run = submit_run 2 64 16 @ steps 2 2 @
     [(2, Enter (Submit 4096 16 TASK_PRIORITY_NORMAL)), (2, Step), (2, Malloc 128 0)] @ steps 2 10 @
     steps 0 19 @ steps 1 19 @ [(2, Enter Wait)] @ steps 2 4"

lemma visual_perf_counter_witness:
  "\<exists>s rest. gexec 2 3 (\<lambda>x. [perf_effect [16 \<mapsto> 3] x]) perf_run (init_psys 2 4, \<lambda>_. [], Some 0) = Some (s, rest, Some 6)"
proof -
  have "\<exists>s rest g. gexec 2 3 (\<lambda>x. [perf_effect [16 \<mapsto> 3] x]) perf_run (init_psys 2 4, \<lambda>_. [], Some 0) = Some (s, rest, g) \<and>
      ps_pc s 2 = Wait_Return 2 \<and> pushed (plog s) = [(4096, 16), (4096, 16)]"
    by (simp add: perf_run_def run_defs pushed_def)
  then obtain s rest g where s: "gexec 2 3 (\<lambda>x. [perf_effect [16 \<mapsto> 3] x]) perf_run (init_psys 2 4, \<lambda>_. [], Some 0) = Some (s, rest, g)"
    "ps_pc s 2 = Wait_Return 2" "pushed (plog s) = [(4096, 16), (4096, 16)]" by blast
  have r: "client_reach 2 4 {2} (\<lambda>x. [perf_effect [16 \<mapsto> 3] x]) (Some 0) s rest g"
    by (rule gexec_reach [OF s(1)]) (auto simp: perf_run_def submit_run_def list_all_iff)
  have "no_overflow s" using s(3) by (simp add: no_overflow_def)
  from visual_perf_counter [OF r _ this s(2), of 3] s(3) have "g = Some 6" by simp
  with s(1) show ?thesis by blast
qed

section \<open>The menu\<close>

text \<open>What main does for a choice; a demo is its number.\<close>

datatype menu_event = Demo nat | Goodbye | Invalid_Choice

text \<open>The space in the format of scanf skips what isspace accepts.\<close>

definition is_space :: "char \<Rightarrow> bool" where
  "is_space c \<longleftrightarrow> c \<in> {CHR '' '', CHR 0x09, CHR 0x0A, CHR 0x0B, CHR 0x0C, CHR 0x0D}"

definition menu_choice :: "char \<Rightarrow> menu_event list" where
  "menu_choice choice =
     (if choice = CHR ''1'' then [Demo 1]
      else if choice = CHR ''2'' then [Demo 2]
      else if choice = CHR ''3'' then [Demo 3]
      else if choice = CHR ''4'' then [Demo 4]
      else if choice = CHR ''5'' then [Demo 5]
      else if choice = CHR ''A'' \<or> choice = CHR ''a'' then [Demo 1, Demo 2, Demo 3, Demo 4, Demo 5]
      else if choice = CHR ''Q'' \<or> choice = CHR ''q'' then [Goodbye]
      else [Invalid_Choice])"

text \<open>The loop of main on what is typed; at the end of the input scanf does not return 1.\<close>

fun menu_loop :: "string \<Rightarrow> menu_event list" where
  "menu_loop [] = []"
| "menu_loop (c # input) =
     (if is_space c then menu_loop input
      else menu_choice c @ (if c = CHR ''Q'' \<or> c = CHR ''q'' then [] else menu_loop input))"

abbreviation quits :: "char \<Rightarrow> bool" where
  "quits c \<equiv> c = CHR ''Q'' \<or> c = CHR ''q''"

lemma menu_reads_until_quit:
  "menu_loop input = (let typed = filter (\<lambda>c. \<not> is_space c) input; before = takeWhile (\<lambda>c. \<not> quits c) typed in
     concat (map menu_choice before) @ (if before = typed then [] else [Goodbye]))"
proof (induction input)
  case (Cons c input)
  show ?case
  proof (cases "is_space c \<or> quits c")
    case True
    then show ?thesis using Cons by (auto simp: menu_choice_def Let_def)
  next
    case False
    with Cons show ?thesis by (simp add: Let_def)
  qed
qed simp

end
