(* ===== verification/Visual_Perf.thy ===== *)
theory Visual_Perf
  imports Visual_Menu Visual_Demo
begin

text \<open>
  The pools of demos 4 and 5 of examples/visual_demo.c: main submits the same task many times, draws a
  progress bar now and then, waits and destroys the pool. The times measured are not modelled.
\<close>

section \<open>What is drawn\<close>

text \<open>The loops of \<open>demo_performance\<close>: a bar every \<open>every\<close> tasks, and the full one at the end.\<close>

definition demo_bars :: "int \<Rightarrow> int \<Rightarrow> (bar_cell list \<times> int) option list" where
  "demo_bars every num_tasks =
     map (\<lambda>i. print_progress_bar i num_tasks) (filter (\<lambda>i. i mod every = 0) [0..num_tasks - 1]) @
     [print_progress_bar num_tasks num_tasks]"

text \<open>All bars can be drawn, the percentages do not decrease, and only the last bar is full.\<close>

lemma div_less_bound: "(0 :: int) < n \<Longrightarrow> i < m * n \<Longrightarrow> i div n < m"
proof (rule ccontr)
  assume n: "0 < n" and i: "i < m * n" and "\<not> i div n < m"
  then have "m * n \<le> i div n * n" by (simp add: mult_right_mono)
  also have "\<dots> \<le> i" using n by (simp add: minus_mod_eq_div_mult [symmetric])
  finally show False using i by simp
qed

lemma demo_bars_drawn:
  assumes "0 < num_tasks" and "fits_int (num_tasks * 100)"
  shows "\<exists>bars. demo_bars every num_tasks = map Some bars \<and> sorted (map snd bars) \<and>
    snd (last bars) = 100 \<and> list_all (\<lambda>b. snd b < 100) (butlast bars)"
proof -
  let ?is = "filter (\<lambda>i. i mod every = 0) [0..num_tasks - 1]"
  let ?percent = "\<lambda>i. i * 100 div num_tasks"
  have bar: "\<exists>cells. print_progress_bar i num_tasks = Some (cells, ?percent i)" if "0 \<le> i" "i \<le> num_tasks" for i
    using visual_progress_bar [OF that assms] by blast
  define f where "f = (\<lambda>i. the (print_progress_bar i num_tasks))"
  have f: "print_progress_bar i num_tasks = Some (f i) \<and> snd (f i) = ?percent i" if "0 \<le> i" "i \<le> num_tasks" for i
    using bar [OF that] by (auto simp: f_def)
  have bars: "demo_bars every num_tasks = map Some (map f (?is @ [num_tasks]))"
    using f assms(1) by (auto simp: demo_bars_def)
  have m: "map snd (map f (?is @ [num_tasks])) = map ?percent (?is @ [num_tasks])"
    using f assms(1) by auto
  have "sorted (?is @ [num_tasks])" by (auto simp: sorted_append sorted_wrt_filter)
  then have "sorted (map ?percent (?is @ [num_tasks]))"
    by (rule sorted_map_mono) (auto intro!: zdiv_mono1 monoI simp: assms(1) mono_on_def)
  then have "sorted (map snd (map f (?is @ [num_tasks])))" unfolding m .
  moreover have "snd (f num_tasks) = 100" using f [of num_tasks] assms(1) by simp
  moreover have "?percent i < 100" if "0 \<le> i" "i < num_tasks" for i
    by (rule div_less_bound [OF assms(1)]) (use that in simp)
  ultimately show ?thesis using bars f
    by (intro exI [of _ "map f (?is @ [num_tasks])"]) (auto simp: list_all_iff)
qed

section \<open>The programs\<close>

definition PERF_TASK :: ptr where "PERF_TASK = 4096"

text \<open>The calls of submit, and all calls on a pool with the number of its threads.\<close>

definition perf_calls :: "ptr \<Rightarrow> nat \<Rightarrow> (ptr \<times> ptr) list" where
  "perf_calls iterations num_tasks = replicate num_tasks (PERF_TASK, iterations)"

definition pool_test :: "int \<Rightarrow> nat \<Rightarrow> ptr \<Rightarrow> int \<times> pool_call list" where
  "pool_test threads num_tasks iterations = (threads, submit_calls (perf_calls iterations num_tasks) @ [Wait, Destroy])"

text \<open>Demo 4, with its bars for the pool and for the threads, and the pools of demo 5.\<close>

definition demo_performance :: "ptr \<Rightarrow> (int \<times> pool_call list) \<times> (bar_cell list \<times> int) option list" where
  "demo_performance iterations = (pool_test 8 500 iterations, demo_bars 50 500 @ demo_bars 10 100)"

definition demo_scaling :: "ptr \<Rightarrow> (int \<times> pool_call list) list" where
  "demo_scaling iterations = map (\<lambda>threads. pool_test threads 2000 iterations) [1, 2, 4, 8]"

text \<open>
  The programs end, and the counter is what the tasks that were not refused add up to.
\<close>

lemma visual_perf_ends:
  assumes "program_reach workers capacity pool (\<lambda>x. [perf_effect ints x]) ((\<lambda>_. [])(main := snd (pool_test threads num_tasks arg))) (Some 0) x"
    and "pool \<noteq> NULL" and "0 < workers" and "workers \<le> main" and "Suc num_tasks < 2 ^ 64"
    and "ints arg = Some iterations" and "0 \<le> iterations" and "iterations < 2 ^ 31"
  shows "(\<nexists>run. run 0 = x \<and> (\<forall>i. awake_program_step workers pool (\<lambda>x. [perf_effect ints x]) (run i) (run (Suc i)))) \<and>
    (ended workers pool (\<lambda>x. [perf_effect ints x]) x \<longrightarrow> ps_freed (se_pool x) \<and>
      se_data x = Some (word_of_nat (num_tasks - length (se_refused x)) * word_of_int (iterations * (iterations - 1) div 2)))"
proof (intro conjI impI)
  let ?prog = "\<lambda>x. [perf_effect ints x]" and ?xs = "pushed (plog (se_pool x))"
  have r: "program_reach workers capacity pool ?prog (batch_program main (perf_calls arg num_tasks)) (Some 0) x"
    using assms(1) by (simp add: pool_test_def)
  have small: "Suc (length (perf_calls arg num_tasks)) < 2 ^ 64" using assms(5) by (simp add: perf_calls_def)
  show "\<nexists>run. run 0 = x \<and> (\<forall>i. awake_program_step workers pool ?prog (run i) (run (Suc i)))"
    by (rule batch_no_infinite_run [OF r assms(4) small])
  assume e: "ended workers pool ?prog x"
  note finish = batch_end [OF r assms(3,4,2) small e]
  show "ps_freed (se_pool x)" by (rule finish)
  have "set ?xs \<subseteq> set (perf_calls arg num_tasks)"
    using set_mset_mono [OF batch_no_overflow(2) [OF r assms(4) small]] by simp
  then have ints: "ints (snd y) = Some iterations" if "y \<in> set ?xs" for y
    using that assms(6) by (auto simp: perf_calls_def)
  have "length ?xs + length (se_refused x) = num_tasks"
    using arg_cong [OF finish(3), of size] by (simp add: perf_calls_def)
  then have len: "length ?xs = num_tasks - length (se_refused x)" by simp
  have "se_data x = fold (perf_effect ints) ?xs (Some 0)"
    by (rule perf.program_done [OF r e assms(3) batch_no_overflow(1) [OF r assms(4) small]])
  also have "\<dots> = Some (0 + word_of_nat (length ?xs) * word_of_int (iterations * (iterations - 1) div 2))"
    by (rule perf_sums [where ints = ints and iterations = iterations and xs = ?xs, OF ints assms(7,8)])
  finally show "se_data x = Some (word_of_nat (num_tasks - length (se_refused x)) * word_of_int (iterations * (iterations - 1) div 2))"
    unfolding len by simp
qed

text \<open>The two demos, when no task is refused.\<close>

lemma visual_demo_counters:
  assumes "(threads, calls) = fst (demo_performance arg) \<and> iterations = 5000 \<and> num_tasks = 500 \<or>
      (threads, calls) \<in> set (demo_scaling arg) \<and> iterations = 10000 \<and> num_tasks = 2000"
    and "program_reach workers capacity pool (\<lambda>x. [perf_effect [arg \<mapsto> iterations] x]) ((\<lambda>_. [])(main := calls)) (Some 0) x"
    and "pool \<noteq> NULL" and "0 < workers" and "workers \<le> main"
    and "ended workers pool (\<lambda>x. [perf_effect [arg \<mapsto> iterations] x]) x" and "se_refused x = []"
  shows "se_data x = Some (word_of_int (num_tasks * (iterations * (iterations - 1) div 2)))"
proof -
  have c: "calls = snd (pool_test threads (nat num_tasks) arg)"
    using assms(1) by (auto simp: demo_performance_def demo_scaling_def pool_test_def)
  have s: "Suc (nat num_tasks) < 2 ^ 64" "0 \<le> iterations" "iterations < 2 ^ 31" "0 \<le> num_tasks" using assms(1) by auto
  have "[arg \<mapsto> iterations] arg = Some iterations" by simp
  from visual_perf_ends [OF assms(2) [unfolded c] assms(3-5) s(1) this s(2,3)] assms(6,7)
  have "se_data x = Some (word_of_nat (nat num_tasks) * word_of_int (iterations * (iterations - 1) div 2))" by (simp del: fun_upd_apply)
  then show ?thesis using s(4) by simp
qed

end
