(* ===== verification/Visual_Threads.thy ===== *)
theory Visual_Threads
  imports Sthread
begin

text \<open>
  The threads of examples/visual_demo.c: demos 2, 3 and 4 create some threads with \<open>sthread_create\<close>, whose
  answers they ignore, and join them in the order of creation. Here main and the ends of the threads
  interleave, and every create can fail.
\<close>

section \<open>Creating and joining\<close>

datatype spawn_pc = Creating | Joining nat | All_Joined | Undefined_Join

text \<open>
  \<open>sp_handles\<close> are the entries of the array \<open>threads\<close> that main has passed to create; None is an entry
  that create has left as it was, which is indeterminate. \<open>sp_pc\<close> is where main is; \<open>Undefined_Join\<close> is
  a join of an indeterminate handle, or one that is undefined itself.
\<close>

record spawn_sys =
  sp_sys :: thread_sys
  sp_handles :: "ptr option list"
  sp_pc :: spawn_pc

definition init_spawn :: "tid \<Rightarrow> spawn_sys" where
  "init_spawn self = \<lparr>sp_sys = \<lparr>ts_handles = Map.empty, ts_threads = [self \<mapsto> Joinable None]\<rparr>,
     sp_handles = [], sp_pc = Creating\<rparr>"

text \<open>The next handle to join.\<close>

definition join_next :: "platform \<Rightarrow> tid \<Rightarrow> nat \<Rightarrow> spawn_sys \<Rightarrow> spawn_sys option" where
  "join_next p self i x =
     (case sp_handles x ! i of None \<Rightarrow> Some (x\<lparr>sp_pc := Undefined_Join\<rparr>)
      | Some thread \<Rightarrow> (case sthread_join p self thread (sp_sys x) of
          Returns s r \<Rightarrow> Some (x\<lparr>sp_sys := s, sp_pc := Joining (Suc i)\<rparr>)
        | Blocks \<Rightarrow> None
        | Undefined \<Rightarrow> Some (x\<lparr>sp_pc := Undefined_Join\<rparr>)))"

text \<open>
  \<open>k\<close> threads that run \<open>func\<close>; \<open>entry\<close> is the address of an entry of the array. Main creates, goes over
  to joining, joins, is finished; and a thread ends with a value.
\<close>

inductive spawn_step :: "platform \<Rightarrow> tid \<Rightarrow> ptr \<Rightarrow> ptr \<Rightarrow> nat \<Rightarrow> spawn_sys \<Rightarrow> spawn_sys \<Rightarrow> bool"
  for p self entry func k where
  create: "sp_pc x = Creating \<Longrightarrow> length (sp_handles x) < k \<Longrightarrow> ts_handles (sp_sys x) block = None \<Longrightarrow>
    ts_threads (sp_sys x) new = None \<Longrightarrow> sthread_create ret new block entry func (sp_sys x) = Returns s (r, out) \<Longrightarrow>
    spawn_step p self entry func k x (x\<lparr>sp_sys := s, sp_handles := sp_handles x @ [out]\<rparr>)"
| created: "sp_pc x = Creating \<Longrightarrow> length (sp_handles x) = k \<Longrightarrow> spawn_step p self entry func k x (x\<lparr>sp_pc := Joining 0\<rparr>)"
| join: "sp_pc x = Joining i \<Longrightarrow> i < k \<Longrightarrow> join_next p self i x = Some x' \<Longrightarrow> spawn_step p self entry func k x x'"
| joined: "sp_pc x = Joining k \<Longrightarrow> spawn_step p self entry func k x (x\<lparr>sp_pc := All_Joined\<rparr>)"
| ends: "t \<noteq> self \<Longrightarrow> ts_threads (sp_sys x) t = Some (Joinable None) \<Longrightarrow>
    spawn_step p self entry func k x (x\<lparr>sp_sys := thread_ends t v (sp_sys x)\<rparr>)"

inductive spawn_reach :: "platform \<Rightarrow> tid \<Rightarrow> ptr \<Rightarrow> ptr \<Rightarrow> nat \<Rightarrow> spawn_sys \<Rightarrow> bool" for p self entry func k where
  init: "spawn_reach p self entry func k (init_spawn self)"
| step: "spawn_reach p self entry func k x \<Longrightarrow> spawn_step p self entry func k x x' \<Longrightarrow> spawn_reach p self entry func k x'"

section \<open>The invariant\<close>

text \<open>The handles not joined yet, but for the indeterminate ones.\<close>

fun joined_count :: "spawn_pc \<Rightarrow> nat \<Rightarrow> nat" where
  "joined_count Creating k = 0"
| "joined_count (Joining i) k = i"
| "joined_count All_Joined k = k"
| "joined_count Undefined_Join k = 0"

definition live_handles :: "nat \<Rightarrow> spawn_sys \<Rightarrow> ptr list" where
  "live_handles k x = List.map_filter id (List.drop (joined_count (sp_pc x) k) (sp_handles x))"

definition thread_of :: "thread_sys \<Rightarrow> ptr \<Rightarrow> tid" where
  "thread_of s h = (case ts_handles s h of None \<Rightarrow> 0 | Some x \<Rightarrow> sh_thread x)"

text \<open>
  Each live handle has a thread of its own, which is joinable, and there is nothing else.
\<close>

definition live_threads :: "tid \<Rightarrow> thread_sys \<Rightarrow> ptr list \<Rightarrow> bool" where
  "live_threads self s hs \<longleftrightarrow> distinct hs \<and> distinct (self # map (thread_of s) hs) \<and> NULL \<notin> set hs \<and>
     (\<forall>h. ts_handles s h = (if h \<in> set hs then Some \<lparr>sh_thread = thread_of s h, sh_detached = False\<rparr> else None)) \<and>
     ts_threads s self = Some (Joinable None) \<and>
     (\<forall>t. t \<noteq> self \<longrightarrow> (if t \<in> thread_of s ` set hs then \<exists>v. ts_threads s t = Some (Joinable v) else ts_threads s t = None))"

definition spawn_inv :: "tid \<Rightarrow> nat \<Rightarrow> spawn_sys \<Rightarrow> bool" where
  "spawn_inv self k x \<longleftrightarrow> length (sp_handles x) \<le> k \<and> (sp_pc x \<noteq> Creating \<longrightarrow> length (sp_handles x) = k) \<and>
     (case sp_pc x of
        Joining i \<Rightarrow> i \<le> k \<and> None \<notin> set (take i (sp_handles x))
      | All_Joined \<Rightarrow> None \<notin> set (sp_handles x)
      | Undefined_Join \<Rightarrow> None \<in> set (sp_handles x)
      | Creating \<Rightarrow> True) \<and>
     (sp_pc x \<noteq> Undefined_Join \<longrightarrow> live_threads self (sp_sys x) (live_handles k x))"

lemma live_threadsD:
  assumes "live_threads self s hs"
  shows "distinct hs" "distinct (map (thread_of s) hs)" "self \<notin> thread_of s ` set hs" "NULL \<notin> set hs"
    and "h \<in> set hs \<Longrightarrow> ts_handles s h = Some \<lparr>sh_thread = thread_of s h, sh_detached = False\<rparr>"
    and "h \<notin> set hs \<Longrightarrow> ts_handles s h = None"
    and "ts_threads s self = Some (Joinable None)"
    and "t \<noteq> self \<Longrightarrow> t \<in> thread_of s ` set hs \<Longrightarrow> \<exists>v. ts_threads s t = Some (Joinable v)"
    and "t \<noteq> self \<Longrightarrow> t \<notin> thread_of s ` set hs \<Longrightarrow> ts_threads s t = None"
  using assms unfolding live_threads_def by (auto split: if_splits)

lemma live_threadsI:
  assumes "distinct hs" "distinct (self # map (thread_of s) hs)" "NULL \<notin> set hs"
    and "\<And>h. ts_handles s h = (if h \<in> set hs then Some \<lparr>sh_thread = thread_of s h, sh_detached = False\<rparr> else None)"
    and "ts_threads s self = Some (Joinable None)"
    and "\<And>t. t \<noteq> self \<Longrightarrow>
      if t \<in> thread_of s ` set hs then \<exists>v. ts_threads s t = Some (Joinable v) else ts_threads s t = None"
  shows "live_threads self s hs"
  using assms unfolding live_threads_def by blast

lemma live_threads_create:
  assumes l: "live_threads self s hs" and b: "ts_handles s block = None" "block \<noteq> NULL" and n: "ts_threads s new = None"
  shows "live_threads self (s\<lparr>ts_handles := (ts_handles s)(block \<mapsto> \<lparr>sh_thread = new, sh_detached = False\<rparr>),
    ts_threads := (ts_threads s)(new \<mapsto> Joinable None)\<rparr>) (hs @ [block])" (is "live_threads self ?s _")
proof -
  note d = live_threadsD [OF l]
  have nb: "block \<notin> set hs" using d(5) [of block] b(1) by auto
  have ns: "new \<noteq> self" using d(7) n by auto
  have nt: "new \<notin> thread_of s ` set hs" using d(8) [of new] n ns by auto
  have eq: "thread_of ?s h = thread_of s h" if "h \<in> set hs" for h
    using that nb by (auto simp: thread_of_def)
  have new: "thread_of ?s block = new" by (simp add: thread_of_def)
  have im: "thread_of ?s ` set (hs @ [block]) = insert new (thread_of s ` set hs)" using eq new by auto
  have m: "map (thread_of ?s) hs = map (thread_of s) hs" using eq by simp
  have "ts_threads ?s self = Some (Joinable None)" using d(7) ns by auto
  moreover have "distinct (self # map (thread_of ?s) (hs @ [block]))"
    using d(2,3) ns nt new m by (simp del: map_eq_conv)
  moreover have "ts_handles ?s h = (if h \<in> set (hs @ [block])
      then Some \<lparr>sh_thread = thread_of ?s h, sh_detached = False\<rparr> else None)" for h
    using d(5,6) [of h] eq [of h] new nb by auto
  moreover have "if t \<in> thread_of ?s ` set (hs @ [block]) then \<exists>v. ts_threads ?s t = Some (Joinable v) else ts_threads ?s t = None"
    if "t \<noteq> self" for t
    unfolding im using d(8,9) [OF that] by auto
  moreover have "distinct (hs @ [block])" "NULL \<notin> set (hs @ [block])" using d(1,4) nb b(2) by auto
  ultimately show ?thesis by (intro live_threadsI)
qed

lemma live_threads_join:
  assumes l: "live_threads self s (h # hs)"
  shows "live_threads self (s\<lparr>ts_threads := (ts_threads s)(thread_of s h := None), ts_handles := (ts_handles s)(h := None)\<rparr>) hs"
    (is "live_threads self ?s _")
proof -
  note d = live_threadsD [OF l]
  have nh: "h \<notin> set hs" "thread_of s h \<notin> thread_of s ` set hs" "self \<noteq> thread_of s h" using d(1-3) by auto
  have eq: "thread_of ?s g = thread_of s g" if "g \<in> set hs" for g
    using that nh(1) by (auto simp: thread_of_def)
  then have m: "map (thread_of ?s) hs = map (thread_of s) hs" by simp
  have im: "thread_of ?s ` set hs = thread_of s ` set hs" using eq by (auto simp: image_iff)
  have "distinct (self # map (thread_of ?s) hs)" unfolding m using d(2,3) by simp
  moreover have "ts_handles ?s g = (if g \<in> set hs then Some \<lparr>sh_thread = thread_of ?s g, sh_detached = False\<rparr> else None)" for g
    using d(5,6) [of g] eq [of g] nh(1) by auto
  moreover have "if t \<in> thread_of ?s ` set hs then \<exists>v. ts_threads ?s t = Some (Joinable v) else ts_threads ?s t = None"
    if "t \<noteq> self" for t
    unfolding im using d(8,9) [OF that] nh(2) by auto
  moreover have "ts_threads ?s self = Some (Joinable None)" using d(7) nh(3) by simp
  moreover have "distinct hs" "NULL \<notin> set hs" using d(1,4) by auto
  ultimately show ?thesis by (intro live_threadsI)
qed

lemma live_threads_ends:
  assumes l: "live_threads self s hs" and t: "t \<noteq> self" "ts_threads s t = Some (Joinable None)"
  shows "live_threads self (thread_ends t v s) hs"
proof -
  have e: "thread_ends t v s = s\<lparr>ts_threads := (ts_threads s)(t \<mapsto> Joinable (Some v))\<rparr>" using t(2) by (simp add: thread_ends_def)
  have th: "thread_of (thread_ends t v s) = thread_of s" by (rule ext) (simp add: e thread_of_def)
  from l t show ?thesis unfolding live_threads_def th by (auto simp: e)
qed


lemma filter_indeterminate [simp]: "List.map_filter id (xs @ [None]) = List.map_filter id xs"
  "List.map_filter id (xs @ [Some h]) = List.map_filter id xs @ [h]"
  by (simp_all add: List.map_filter_def)

lemma create_outcomes:
  assumes "sthread_create ret new block entry func s = Returns s' (r, out)" and "ts_handles s block = None"
  shows "s' = s \<and> out = None \<or>
    block \<noteq> NULL \<and> out = Some block \<and> s' = s\<lparr>ts_handles := (ts_handles s)(block \<mapsto> \<lparr>sh_thread = new, sh_detached = False\<rparr>),
      ts_threads := (ts_threads s)(new \<mapsto> Joinable None)\<rparr>"
  using assms by (auto simp: sthread_create_def Let_def fun_upd_idem split: if_splits)

text \<open>A join of a live handle waits, or consumes it.\<close>

lemma join_live:
  assumes l: "live_threads self s (h # hs)"
  shows "sthread_join p self h s = Blocks \<and> ts_threads s (thread_of s h) = Some (Joinable None) \<or>
    (\<exists>v. sthread_join p self h s = Returns (s\<lparr>ts_threads := (ts_threads s)(thread_of s h := None),
      ts_handles := (ts_handles s)(h := None)\<rparr>) (SUCCESS, Some v))"
proof -
  note d = live_threadsD [OF l]
  have t: "thread_of s h \<noteq> self" using d(3) by auto
  obtain v where v: "ts_threads s (thread_of s h) = Some (Joinable v)" using d(8) [OF t] by auto
  have h: "ts_handles s h = Some \<lparr>sh_thread = thread_of s h, sh_detached = False\<rparr>" "h \<noteq> NULL" using d(4,5) by auto
  show ?thesis
    using t v h by (cases v) (auto simp: sthread_join_def pthread_join_def Let_def)
qed

lemma spawn_inv_step:
  assumes inv: "spawn_inv self k x" and st: "spawn_step p self entry func k x x'"
  shows "spawn_inv self k x'"
  using st
proof (cases rule: spawn_step.cases)
  case (create block new ret s r out)
  have l: "live_threads self (sp_sys x) (List.map_filter id (sp_handles x))"
    using inv create(2) by (simp add: spawn_inv_def live_handles_def)
  from create_outcomes [OF create(6,4)] show ?thesis
  proof (elim disjE conjE)
    assume "s = sp_sys x" "out = None"
    with create l show ?thesis by (simp add: spawn_inv_def live_handles_def)
  next
    assume o: "block \<noteq> NULL" "out = Some block" "s = sp_sys x\<lparr>ts_handles := (ts_handles (sp_sys x))(block \<mapsto> \<lparr>sh_thread = new, sh_detached = False\<rparr>),
      ts_threads := (ts_threads (sp_sys x))(new \<mapsto> Joinable None)\<rparr>"
    from live_threads_create [OF l create(4) o(1) create(5)] create(1-3) o show ?thesis
      by (simp add: spawn_inv_def live_handles_def)
  qed
next
  case created
  with inv show ?thesis by (simp add: spawn_inv_def live_handles_def)
next
  case (join i)
  have i: "length (sp_handles x) = k" "None \<notin> set (take i (sp_handles x))" "live_threads self (sp_sys x) (live_handles k x)"
    using inv join(1) by (simp_all add: spawn_inv_def)
  note split = Cons_nth_drop_Suc [of i "sp_handles x", symmetric]
  have t: "take (Suc i) (sp_handles x) = take i (sp_handles x) @ [sp_handles x ! i]"
    using i(1) join(2) by (simp add: take_Suc_conv_app_nth)
  show ?thesis
  proof (cases "sp_handles x ! i")
    case None
    then have "None \<in> set (sp_handles x)" using i(1) join(2) by (metis nth_mem)
    with None join(3) i(1) show ?thesis by (auto simp: join_next_def spawn_inv_def)
  next
    case (Some h)
    have live: "live_handles k x = h # List.map_filter id (List.drop (Suc i) (sp_handles x))"
      using split i(1) join(1,2) Some by (simp add: live_handles_def List.map_filter_def)
    from join_live [OF i(3) [unfolded live], of p] Some join(3) obtain v where
      j: "x' = x\<lparr>sp_sys := (sp_sys x)\<lparr>ts_threads := (ts_threads (sp_sys x))(thread_of (sp_sys x) h := None),
        ts_handles := (ts_handles (sp_sys x))(h := None)\<rparr>, sp_pc := Joining (Suc i)\<rparr>"
      by (auto simp: join_next_def)
    from live_threads_join [OF i(3) [unfolded live]] j i(1,2) t Some join(2) show ?thesis
      by (simp add: spawn_inv_def live_handles_def)
  qed
next
  case joined
  then have l: "length (sp_handles x) = k" using inv by (simp add: spawn_inv_def)
  then have "take k (sp_handles x) = sp_handles x" "List.drop k (sp_handles x) = []" by simp_all
  with inv joined l show ?thesis by (simp add: spawn_inv_def live_handles_def)
next
  case (ends t v)
  from live_threads_ends [OF _ ends(2,3)] inv ends(1) show ?thesis
    by (cases "sp_pc x") (auto simp: spawn_inv_def live_handles_def)
qed

lemma spawn_inv_reach: "spawn_reach p self entry func k x \<Longrightarrow> spawn_inv self k x"
proof (induction rule: spawn_reach.induct)
  case init
  show ?case
    by (auto simp: spawn_inv_def live_handles_def live_threads_def init_spawn_def List.map_filter_def)
next
  case (step x x')
  then show ?case by (blast intro: spawn_inv_step)
qed


section \<open>Termination and progress\<close>

fun phases_left :: "nat \<Rightarrow> nat \<Rightarrow> spawn_pc \<Rightarrow> nat" where
  "phases_left k created Creating = 2 * k + 3 - created"
| "phases_left k created (Joining i) = k + 2 - i"
| "phases_left k created p = 0"

definition still_running :: "tid \<Rightarrow> spawn_sys \<Rightarrow> tid set" where
  "still_running self x = {t. t \<noteq> self \<and> ts_threads (sp_sys x) t = Some (Joinable None)}"

abbreviation spawn_measure :: "tid \<Rightarrow> nat \<Rightarrow> (spawn_sys \<times> spawn_sys) set" where
  "spawn_measure self k \<equiv>
     measures [\<lambda>x. phases_left k (length (sp_handles x)) (sp_pc x), \<lambda>x. card (still_running self x)]"

lemma join_dom: "sthread_join p self h s = Returns s' r \<Longrightarrow> dom (ts_threads s') \<subseteq> dom (ts_threads s)"
  by (auto simp: sthread_join_def pthread_join_def Let_def split: if_splits option.splits thread_status.splits)

lemma join_next_dom: "join_next p self i x = Some x' \<Longrightarrow> dom (ts_threads (sp_sys x')) \<subseteq> dom (ts_threads (sp_sys x))"
  using join_dom [of p self _ "sp_sys x"] by (auto simp: join_next_def split: option.splits outcome.splits) blast

lemma finite_spawned: "spawn_reach p self entry func k x \<Longrightarrow> finite (dom (ts_threads (sp_sys x)))"
proof (induction rule: spawn_reach.induct)
  case init
  show ?case by (simp add: init_spawn_def del: fun_upd_apply)
next
  case (step x x')
  from step.hyps(2) show ?case
  proof (cases rule: spawn_step.cases)
    case (create block new ret s r out)
    from create_outcomes [OF create(6,4)] create(1) step.IH show ?thesis by (auto simp del: fun_upd_apply)
  next
    case (join i)
    from step.IH join_next_dom [OF join(3)] show ?thesis by (rule rev_finite_subset)
  next
    case (ends t v)
    then have "dom (ts_threads (sp_sys x')) \<subseteq> dom (ts_threads (sp_sys x))"
      by (auto simp: thread_ends_def split: option.splits thread_status.splits if_splits)
    with step.IH show ?thesis by (rule rev_finite_subset)
  qed (use step.IH in simp_all)
qed

lemma spawn_step_measure:
  assumes r: "spawn_reach p self entry func k x" and st: "spawn_step p self entry func k x x'"
  shows "(x', x) \<in> spawn_measure self k"
  using st
proof (cases rule: spawn_step.cases)
  case (create block new ret s r out)
  then have "2 * k + 3 - length (sp_handles x') < 2 * k + 3 - length (sp_handles x)" by simp
  with create(1,2) show ?thesis by simp
next
  case created
  then show ?thesis by simp
next
  case (join i)
  then show ?thesis by (auto simp: join_next_def split: option.splits outcome.splits)
next
  case joined
  then show ?thesis by simp
next
  case (ends t v)
  have "still_running self x' \<subset> still_running self x"
    using ends by (auto simp: still_running_def thread_ends_def)
  moreover have "finite (still_running self x)"
    by (rule finite_subset [OF _ finite_spawned [OF r]]) (auto simp: still_running_def)
  ultimately have "card (still_running self x') < card (still_running self x)" by (rule psubset_card_mono [rotated])
  with ends(1) show ?thesis by simp
qed

lemma spawn_progress:
  assumes r: "spawn_reach p self entry func k x" and p: "sp_pc x \<noteq> All_Joined" "sp_pc x \<noteq> Undefined_Join"
  shows "\<exists>x'. spawn_step p self entry func k x x'"
proof -
  note inv = spawn_inv_reach [OF r]
  then have l: "live_threads self (sp_sys x) (live_handles k x)" using p by (simp add: spawn_inv_def)
  show ?thesis
  proof (cases "sp_pc x")
    case Creating
    obtain new where new: "ts_threads (sp_sys x) new = None"
      using finite_spawned [OF r] by (metis domIff ex_new_if_finite infinite_UNIV_nat)
    have null: "ts_handles (sp_sys x) NULL = None" using live_threadsD(4,6) [OF l] by blast
    have "\<exists>r. sthread_create 0 new NULL entry func (sp_sys x) = Returns (sp_sys x) (r, None)"
      by (simp add: sthread_create_def)
    then obtain r where c: "sthread_create 0 new NULL entry func (sp_sys x) = Returns (sp_sys x) (r, None)" ..
    show ?thesis
    proof (cases "length (sp_handles x) < k")
      case True
      from spawn_step.create [OF Creating True null new c] show ?thesis by blast
    next
      case False
      then have "length (sp_handles x) = k" using inv by (simp add: spawn_inv_def)
      from spawn_step.created [OF Creating this] show ?thesis by blast
    qed
  next
    case (Joining i)
    have i: "length (sp_handles x) = k" "i \<le> k" using inv Joining by (simp_all add: spawn_inv_def)
    show ?thesis
    proof (cases "i < k")
      case False
      with i Joining have "sp_pc x = Joining k" by simp
      from spawn_step.joined [OF this] show ?thesis by blast
    next
      case True
      show ?thesis
      proof (cases "sp_handles x ! i")
        case None
        then have "\<exists>x'. join_next p self i x = Some x'" by (simp add: join_next_def)
        with spawn_step.join [OF Joining True] show ?thesis by blast
      next
        case (Some h)
        have live: "live_handles k x = h # List.map_filter id (List.drop (Suc i) (sp_handles x))"
          using Cons_nth_drop_Suc [of i "sp_handles x", symmetric] i(1) True Joining Some
          by (simp add: live_handles_def List.map_filter_def)
        from join_live [OF l [unfolded live], of p] show ?thesis
        proof (elim disjE conjE exE)
          assume "ts_threads (sp_sys x) (thread_of (sp_sys x) h) = Some (Joinable None)"
          moreover have "thread_of (sp_sys x) h \<noteq> self" using live_threadsD(3) [OF l [unfolded live]] by auto
          ultimately show ?thesis using spawn_step.ends by blast
        next
          fix v assume "sthread_join p self h (sp_sys x) = Returns ((sp_sys x)\<lparr>ts_threads := (ts_threads (sp_sys x))(thread_of (sp_sys x) h := None),
            ts_handles := (ts_handles (sp_sys x))(h := None)\<rparr>) (SUCCESS, Some v)"
          then have "\<exists>x'. join_next p self i x = Some x'" using Some by (simp add: join_next_def)
          with spawn_step.join [OF Joining True] show ?thesis by blast
        qed
      qed
    qed
  qed (use p in simp_all)
qed

text \<open>When all have been joined, nothing is left but main.\<close>

lemma all_joined_clean:
  assumes r: "spawn_reach p self entry func k x" and p: "sp_pc x = All_Joined"
  shows "None \<notin> set (sp_handles x) \<and> sp_sys x = sp_sys (init_spawn self)"
proof -
  have "length (sp_handles x) = k" "live_threads self (sp_sys x) (live_handles k x)" "None \<notin> set (sp_handles x)"
    using spawn_inv_reach [OF r] p by (simp_all add: spawn_inv_def)
  moreover from this have "live_handles k x = []" using p by (simp add: live_handles_def List.map_filter_def)
  ultimately have l: "live_threads self (sp_sys x) []" by simp
  have "ts_handles (sp_sys x) = Map.empty" using live_threadsD(6) [OF l] by auto
  moreover have "ts_threads (sp_sys x) = [self \<mapsto> Joinable None]" using live_threadsD(7,9) [OF l] by fastforce
  ultimately show ?thesis using \<open>None \<notin> set (sp_handles x)\<close> by (simp add: init_spawn_def)
qed

text \<open>
  C22. Threads are created and joined: whatever the answers of malloc and pthread_create and whenever the
  threads end, main is never stuck and cannot go on for ever. It has joined them all exactly if all
  creates have succeeded, and then no handle and no thread is left; if one has failed, main, which
  ignores the answers, ends in joining a handle that was never set.
\<close>

theorem visual_threads_joined:
  assumes "spawn_reach p self entry func k x"
  shows "(\<nexists>run. run 0 = x \<and> (\<forall>i. spawn_step p self entry func k (run i) (run (Suc i)))) \<and>
    (sp_pc x = All_Joined \<or> sp_pc x = Undefined_Join \<or> (\<exists>x'. spawn_step p self entry func k x x')) \<and>
    (sp_pc x = All_Joined \<longrightarrow> None \<notin> set (sp_handles x) \<and> sp_sys x = sp_sys (init_spawn self)) \<and>
    (sp_pc x = Undefined_Join \<longrightarrow> None \<in> set (sp_handles x))"
proof (intro conjI)
  show "\<nexists>run. run 0 = x \<and> (\<forall>i. spawn_step p self entry func k (run i) (run (Suc i)))"
  proof
    assume "\<exists>run. run 0 = x \<and> (\<forall>i. spawn_step p self entry func k (run i) (run (Suc i)))"
    then obtain run where run: "run 0 = x" "\<And>i. spawn_step p self entry func k (run i) (run (Suc i))" by blast
    have r: "spawn_reach p self entry func k (run i)" for i
      by (induction i) (use assms run spawn_reach.step in auto)
    have "\<forall>i. (run (Suc i), run i) \<in> spawn_measure self k" using spawn_step_measure [OF r run(2)] by blast
    moreover have "wf (spawn_measure self k)" by simp
    ultimately show False unfolding wf_iff_no_infinite_down_chain by blast
  qed
  show "sp_pc x = All_Joined \<or> sp_pc x = Undefined_Join \<or> (\<exists>x'. spawn_step p self entry func k x x')"
    using spawn_progress [OF assms] by blast
  show "sp_pc x = All_Joined \<longrightarrow> None \<notin> set (sp_handles x) \<and> sp_sys x = sp_sys (init_spawn self)"
    using all_joined_clean [OF assms] by blast
  show "sp_pc x = Undefined_Join \<longrightarrow> None \<in> set (sp_handles x)"
    using spawn_inv_reach [OF assms] by (auto simp: spawn_inv_def)
qed



section \<open>Concrete runs\<close>

text \<open>Main goes on with these answers of malloc and pthread_create, or a thread ends.\<close>

datatype spawn_action = Main ptr tid int | Ends tid ptr

fun spawn_exec1 :: "platform \<Rightarrow> tid \<Rightarrow> ptr \<Rightarrow> ptr \<Rightarrow> nat \<Rightarrow> spawn_action \<Rightarrow> spawn_sys \<Rightarrow> spawn_sys option" where
  "spawn_exec1 p self entry func k (Main block new ret) x =
     (case sp_pc x of
        Creating \<Rightarrow>
          if length (sp_handles x) = k then Some (x\<lparr>sp_pc := Joining 0\<rparr>)
          else if length (sp_handles x) < k \<and> ts_handles (sp_sys x) block = None \<and> ts_threads (sp_sys x) new = None
          then (case sthread_create ret new block entry func (sp_sys x) of
              Returns s r \<Rightarrow> Some (x\<lparr>sp_sys := s, sp_handles := sp_handles x @ [snd r]\<rparr>)
            | _ \<Rightarrow> None)
          else None
      | Joining i \<Rightarrow> if i < k then join_next p self i x else if i = k then Some (x\<lparr>sp_pc := All_Joined\<rparr>) else None
      | _ \<Rightarrow> None)"
| "spawn_exec1 p self entry func k (Ends t v) x =
     (if t \<noteq> self \<and> ts_threads (sp_sys x) t = Some (Joinable None)
      then Some (x\<lparr>sp_sys := thread_ends t v (sp_sys x)\<rparr>) else None)"

fun spawn_exec :: "platform \<Rightarrow> tid \<Rightarrow> ptr \<Rightarrow> ptr \<Rightarrow> nat \<Rightarrow> spawn_action list \<Rightarrow> spawn_sys \<Rightarrow> spawn_sys option" where
  "spawn_exec p self entry func k [] x = Some x"
| "spawn_exec p self entry func k (a # as) x =
     (case spawn_exec1 p self entry func k a x of None \<Rightarrow> None | Some x' \<Rightarrow> spawn_exec p self entry func k as x')"

lemma spawn_exec1_step: "spawn_exec1 p self entry func k a x = Some x' \<Longrightarrow> spawn_step p self entry func k x x'"
  by (cases a) (auto intro: spawn_step.intros split: spawn_pc.splits if_splits outcome.splits)

lemma spawn_exec_reach:
  "spawn_reach p self entry func k x \<Longrightarrow> spawn_exec p self entry func k as x = Some x' \<Longrightarrow> spawn_reach p self entry func k x'"
proof (induction as arbitrary: x)
  case (Cons a as)
  then obtain x1 where "spawn_exec1 p self entry func k a x = Some x1" "spawn_exec p self entry func k as x1 = Some x'"
    by (auto split: option.splits)
  with Cons.IH spawn_reach.step [OF Cons.prems(1) spawn_exec1_step] show ?case by blast
qed simp

text \<open>Two threads: all goes well, and the second create fails for lack of memory.\<close>

definition spawn_run :: "spawn_action list" where
  "spawn_run = [Main 64 1 0, Main 128 2 0, Ends 2 7, Main 0 0 0, Ends 1 5, Main 0 0 0, Main 0 0 0, Main 0 0 0]"

lemma visual_threads_joined_witness:
  "\<exists>x y. spawn_exec Linux 0 8 4096 2 spawn_run (init_spawn 0) = Some x \<and> sp_pc x = All_Joined \<and>
     sp_sys x = sp_sys (init_spawn 0) \<and>
     spawn_exec Linux 0 8 4096 2 [Main 64 1 0, Main 0 2 0, Ends 1 5, Main 0 0 0, Main 0 0 0, Main 0 0 0] (init_spawn 0) = Some y \<and>
     sp_pc y = Undefined_Join \<and> None \<in> set (sp_handles y)"
proof -
  have "map_option sp_pc (spawn_exec Linux 0 8 4096 2 spawn_run (init_spawn 0)) = Some All_Joined"
    by (simp add: spawn_run_def init_spawn_def sthread_defs join_next_def Let_def)
  then obtain x where x: "spawn_exec Linux 0 8 4096 2 spawn_run (init_spawn 0) = Some x" "sp_pc x = All_Joined" by auto
  have "map_option sp_pc (spawn_exec Linux 0 8 4096 2 [Main 64 1 0, Main 0 2 0, Ends 1 5, Main 0 0 0, Main 0 0 0, Main 0 0 0] (init_spawn 0)) =
      Some Undefined_Join"
    by (simp add: init_spawn_def sthread_defs join_next_def Let_def)
  then obtain y where y: "spawn_exec Linux 0 8 4096 2 [Main 64 1 0, Main 0 2 0, Ends 1 5, Main 0 0 0, Main 0 0 0, Main 0 0 0] (init_spawn 0) = Some y"
    "sp_pc y = Undefined_Join" by auto
  note t = visual_threads_joined [OF spawn_exec_reach [OF spawn_reach.init]]
  from t [OF x(1)] t [OF y(1)] x y show ?thesis by blast
qed

end
