(* ===== verification/Spec2Isabelle.thy ===== *)
theory Spec2Isabelle
  imports Memory_Pool Sthread Pool_Nested Matrix_Program Hello_Mutex Hello_Semaphore Hello_Pool
    Visual_Buffer Visual_Tasks Visual_Perf Visual_Threads
begin

text \<open>
  Verification of the sthread library: a thread pool, its bounded task queue, mutexes, condition
  variables, semaphores, thread handles, an object pool and guarded stacks, in C over pthreads.

  \<^bold>\<open>The program.\<close> The public functions are in src/src/sthread.c with the types and codes of
  src/include/sthread.h. They check their arguments, allocate an internal object, call the internal
  layer and translate its answers. The internal layer is sync.c (wrappers of pthread mutexes and
  condition variables, and a counting semaphore), thread_pool.c (workers that pop tasks from a queue,
  clients that submit, wait and destroy), scheduler.c (the queue: a linked list under a lock, with two
  condition variables), memory.c (an object pool with a free list, stacks with guard pages) and
  platform.h and platform.c (what differs between macOS and Linux).

  \<^bold>\<open>Theories and sources.\<close>
  \<^item> Prelude, Heap_List: C types as words, outcomes of calls (returns, blocks, undefined), linked
    lists on a heap.
  \<^item> Monitor, Monitor_Laws, Monitor_Wakeup, Monitor_Exec, Monitor_Trace: the pattern lock, test, wait,
    act, notify, unlock that the queue, the semaphore and the object pool share, as a step relation
    for any number of threads; the locales \<open>monitor_laws\<close>, \<open>monitor_wakeup\<close> and \<open>monitor_spec\<close>
    state what a family of sections has to satisfy and prove, once, that the invariant holds, that no
    call is undefined, that calls take effect one after the other, and that no wake-up is lost.
  \<^item> Errors (codes of sthread.h, \<open>map_pthread_error\<close> of sync.c, \<open>sthread_strerror\<close>), Platform (platform.h,
    platform.c), Pthread (the documented behaviour of the pthread objects used).
  \<^item> Memory (stacks of memory.c), Memory_Pool (the object pool of memory.c).
  \<^item> Sync (mutexes and condition variables of sync.c), Semaphore (its semaphores).
  \<^item> Scheduler (scheduler.c: nodes, init, destroy, and one critical section per operation), Fifo (the
    contract, a bounded channel that can be shut down, and the proof that the list implements it).
  \<^item> Thread_Pool (the data of thread_pool.c and creation, with a ledger of what was acquired),
    Pool_Machine (the running pool: program counters that follow the C functions, one step per atomic
    operation, pthread call and queue call; \<open>pstep\<close>, \<open>preach\<close>).
  \<^item> Pool_Basic, Pool_Counts, Pool_Wait, Pool_Exec, Pool_Tasks, Pool_Progress, Pool_Termination: the invariants of the
    running pool and its properties.
  \<^item> Sthread (sthread.c: handles, objects behind a pointer, the pool's functions).
  \<^item> Pool_Effects: the running pool with the data that its tasks share, a task as a list of actions
    (locales \<open>action_tasks\<close> and \<open>commuting_tasks\<close>, which extends it to tasks of one action).
    Pool_Nested: tasks that call the pool they run on. Pool_Programs: client threads with lists of calls
    to make (\<open>program_step\<close>, \<open>program_reach\<close>), until nothing is left to do (\<open>ended\<close>). Pool_Blocking: such
    programs with tasks that can block (\<open>blocking_step\<close>, \<open>blocking_reach\<close>, \<open>at_end\<close>); without the data of the
    tasks they are programs of Pool_Programs (\<open>erase_step\<close>).
  \<^item> Matrix_Multiply, Matrix_Pool, Matrix_Program (examples/matrix_multiply.c: a client that divides its work
    among tasks; its tasks on the running pool; the whole of it, from creation to destruction).
  \<^item> Client_Calls (what the examples share: C integers, a call of the library as a step, the locale
    \<open>lock_client\<close> of threads that use one mutex).
  \<^item> Hello_Threads, Parallel_Sum, Hello_Pool, Hello_Mutex, Hello_Semaphore (examples/hello_threads.c: the loops
    of a counter under a mutex and a ring buffer between two semaphores; a sum by chunks; greetings and
    sum on the running pool; counter and ring buffer there).
  \<^item> Visual_Demo, Visual_Buffer, Visual_Tasks, Visual_Menu (examples/visual_demo.c: what is drawn and
    demo 2; demo 3; demo 1; the counter of demos 4 and 5 and the menu), Visual_Perf (the pools of demos 4
    and 5), Visual_Threads (the loops that create and join the threads of demos 2, 3 and 4).

  \<^bold>\<open>Interaction.\<close> The state of a monitor contains a program counter for each thread, so a thread can
  be anywhere inside an operation. The pool's state contains the queue's monitor: \<open>queue_reach\<close> shows
  that the queue's part of a reachable pool is a reachable state of the queue alone, so that all facts
  on the queue (FIFO order, draining after a shutdown, no lost wake-up) hold inside the pool.

  \<^bold>\<open>What the lemmas show.\<close>
  \<^item> Queue: refinement of the FIFO contract per operation, linearizability, order, draining, wake-ups,
    no deadlock of producers and consumers, init and destroy without leaks.
  \<^item> Pool: each accepted task is called exactly once (an account over the queue, the workers' hands and
    the calls made); the atomic counters are exact up to the tasks in flight; with one worker, tasks
    run in order; destroy is done by one thread, drains the queue and frees after the last worker has
    left; what wait guarantees. Every call returns and every accepted task runs: a measure decreases
    with each step of a thread that is awake, under any schedule, and no state with a client inside
    or a task left is a deadlock. Also the two races that are there: wait can return early, and
    submit can overlap destroy.
  \<^item> Mutexes, condition variables, semaphores: mutual exclusion over all orders of calls, exact deadlines,
    accounting of semaphore units, wake-ups, misuse.
  \<^item> Object pool and stacks: no double allocation under concurrency, layout, release of everything.
  \<^item> Interface: init and destroy undo each other (locale \<open>object_contract\<close>, interpreted on mutexes,
    condition variables and semaphores), create and join, the fate of handles, the answer codes.
  \<^item> Tasks with effects: with one worker, or when the effects commute, the shared data end as a loop
    over the accepted tasks leaves them.
  \<^item> Programs: whatever the clients of a pool call, they come to an end under any schedule, and then each task
    they submitted was called once or refused with an error; if the actions of the tasks commute, the
    data are what a loop over the accepted tasks leaves. A main that submits, waits and destroys ends
    with the pool freed (\<open>batch_end\<close>).
  \<^item> Tasks that call their own pool: all invariants hold on; they can deadlock in two ways only, both of
    which occur: a task waits for the pool, or the tasks of all workers submit to a full queue.
  \<^item> Clients of the synchronisation objects: no increment under a mutex is lost, the ring buffer hands
    the items over in order and overwrites none, the bounded stack hands over all of them, threads
    take turns; all end after a known number of steps under any schedule. As tasks of a pool counter and
    ring buffer end too, with the pool freed, but for one case: a refused submit that is not noticed
    leaves the ring buffer with one side only, and main in the wait.
  \<^item> Clients of the pool: greetings, sum by chunks and performance counter are exact when the wait
    returns and when the program ends; what demo 1 draws agrees with the state of its tasks, but for the workers: a task at work
    can be invisible.
  \<^item> Matrix product: the parallel program ends, and equals the sequential product, under every
    interleaving and for any arithmetic, on the running pool; rows whose task was refused keep
    their values.
  \<^item> Threads created and joined: main comes to an end whatever fails; all is released if every create
    succeeded, and otherwise a handle is joined that was never set.

  \<^bold>\<open>Bounds.\<close> No fuel: loops are structural recursions (\<open>start_workers\<close>), \<open>partial_function\<close> with a
  proof that it returns (\<open>free_nodes\<close>), or step relations. Words have the width of the C type on LP64
  platforms. Statements on \<open>submitted_tasks\<close> and \<open>completed_tasks\<close> that need it assume that fewer than
  \<open>2 ^ 64\<close> tasks have been accepted (\<open>no_overflow\<close>). The C ints and longs of the examples are integers
  with a check: a step that would overflow is not possible, and the theorems show that it does not
  occur.

  \<^bold>\<open>Parameters.\<close> What the system answers is an argument or a choice of the step relation: results of
  malloc, pthread_create and the pthread initialisations, clock readings, number of cores, which
  waiter a signal wakes, spurious wake-ups, the order in which threads step. Atomic operations are
  sequentially consistent, as C11 defines them for the forms used here.

  \<^bold>\<open>Not modelled.\<close> \<open>sthread_yield\<close>, \<open>platform_cleanup\<close> and the memory barrier (no state); a task that
  destroys the pool it runs on (its worker joins itself); of the examples the text they print, their sleeps and the times they
  measure; tests and benchmarks (programs that use the library and print). In Client_Calls and its
  clients a call of the library is one step: Sync and Semaphore show that calls take effect one after
  the other.

  \<^bold>\<open>What could follow.\<close> Demo 1 of visual_demo.c on the running pool, with its monitor; a pool in
  which pushes and the queue's heap share one allocator; the callers of the interface (sthread.c) as
  threads of the running pool.
\<close>

end
